(* ===== verification/Prelude.thy ===== *)
theory Prelude
  imports Main "HOL-Library.Word" "HOL-Library.AList"
begin

text \<open>
  Shared vocabulary of the development: machine integers and byte strings, the little-endian
  codecs of Rust's \<open>to_le_bytes\<close> / \<open>from_le_bytes\<close>, slices, results as sums, and the lemma
  collections the component theories draw on.
\<close>

unbundle bit_operations_syntax

named_theorems codec_simps \<open>lengths and round trips of the byte codecs\<close>
named_theorems slice_simps \<open>reading back slices of concatenated buffers\<close>

type_synonym u8 = "8 word"
type_synonym u16 = "16 word"
type_synonym u32 = "32 word"
type_synonym u64 = "64 word"
type_synonym u128 = "128 word"
type_synonym bytes = "8 word list"

declare add_2_eq_Suc [simp del] add_2_eq_Suc' [simp del]

subsection \<open>Results\<close>

text \<open>A Rust \<open>Result\<close> is a sum, the error on the left; the \<open>?\<close> operator is \<open>and_then\<close>.\<close>

definition and_then :: "'e + 'a \<Rightarrow> ('a \<Rightarrow> 'e + 'b) \<Rightarrow> 'e + 'b" where
  "and_then r f = (case r of Inl e \<Rightarrow> Inl e | Inr x \<Rightarrow> f x)"

lemma and_then_simps [simp]:
  "and_then (Inl e) f = Inl e"
  "and_then (Inr x) f = f x"
  by (simp_all add: and_then_def)

lemma and_then_eq_Inr:
  "and_then r f = Inr y \<longleftrightarrow> (\<exists>x. r = Inr x \<and> f x = Inr y)"
  by (cases r) simp_all

definition ok_or :: "'a option \<Rightarrow> 'e \<Rightarrow> 'e + 'a" where
  "ok_or x e = (case x of None \<Rightarrow> Inl e | Some v \<Rightarrow> Inr v)"

lemma ok_or_simps [simp]: "ok_or None e = Inl e" "ok_or (Some v) e = Inr v"
  by (simp_all add: ok_or_def)

lemma ok_or_eq_Inr [simp]: "ok_or x e = Inr v \<longleftrightarrow> x = Some v"
  by (cases x) auto

subsection \<open>Slices\<close>

text \<open>\<open>bslice a b xs\<close> is Rust's \<open>&xs[a..b]\<close>; every use is guarded by the bounds check of the source.\<close>

definition bslice :: "nat \<Rightarrow> nat \<Rightarrow> 'a list \<Rightarrow> 'a list" where
  "bslice a b xs = take (b - a) (drop a xs)"

lemma length_bslice [simp]: "length (bslice a b xs) = min (b - a) (length xs - a)"
  by (simp add: bslice_def)

lemma bslice_append_right:
  "length xs \<le> a \<Longrightarrow> bslice a b (xs @ ys) = bslice (a - length xs) (b - length xs) ys"
  by (simp add: bslice_def)

lemma bslice_append_left [slice_simps]:
  "b \<le> length xs \<Longrightarrow> bslice a b (xs @ ys) = bslice a b xs"
  by (cases "a \<le> b") (auto simp: bslice_def)

lemma bslice_full [slice_simps]: "b = length xs \<Longrightarrow> bslice 0 b xs = xs"
  by (simp add: bslice_def)

lemma bslice_prefix [slice_simps]: "b = length xs \<Longrightarrow> bslice 0 b (xs @ ys) = xs"
  by (simp add: bslice_def)

lemma bslice_empty [simp]: "bslice a a xs = []"
  by (simp add: bslice_def)

lemma bslice_join: "a \<le> b \<Longrightarrow> b \<le> c \<Longrightarrow> bslice a b xs @ bslice b c xs = bslice a c xs"
  using take_add [of "b - a" "c - b" "drop a xs"] by (simp add: bslice_def)

lemma bslice_drop: "a \<le> b \<Longrightarrow> bslice a b xs @ drop b xs = drop a xs"
  using append_take_drop_id [of "b - a" "drop a xs"] by (simp add: bslice_def)

lemma bslice_to_end: "b = length xs \<Longrightarrow> bslice a b xs = drop a xs"
  by (simp add: bslice_def)

lemma bslice_single: "i < length xs \<Longrightarrow> [xs ! i] = bslice i (Suc i) xs"
  by (simp add: bslice_def take_Suc_conv_app_nth hd_drop_conv_nth)

text \<open>\<open>splice_at i ys xs\<close> is \<open>xs[i..i+ys.len()].copy_from_slice(ys)\<close>.\<close>

definition splice_at :: "nat \<Rightarrow> 'a list \<Rightarrow> 'a list \<Rightarrow> 'a list" where
  "splice_at i ys xs = take i xs @ ys @ drop (i + length ys) xs"

lemma length_splice_at [simp]:
  "i + length ys \<le> length xs \<Longrightarrow> length (splice_at i ys xs) = length xs"
  by (simp add: splice_at_def)

lemma take_splice_at:
  "i \<le> length xs \<Longrightarrow> take (i + length ys) (splice_at i ys xs) = take i xs @ ys"
  by (simp add: splice_at_def)

subsection \<open>Little-endian integers\<close>

lemma unat_lt: "unat (w :: 'a::len word) < 2 ^ LENGTH('a)"
  by (rule unsigned_less)

fun le_put :: "nat \<Rightarrow> nat \<Rightarrow> bytes" where
  "le_put 0 x = []"
| "le_put (Suc n) x = of_nat (x mod 256) # le_put n (x div 256)"

fun le_get :: "bytes \<Rightarrow> nat" where
  "le_get [] = 0"
| "le_get (b # bs) = unat b + 256 * le_get bs"

lemma length_le_put [simp, codec_simps]: "length (le_put n x) = n"
  by (induction n arbitrary: x) auto

lemma le_get_le_put: "le_get (le_put n x) = x mod 256 ^ n"
proof (induction n arbitrary: x)
  case (Suc n)
  have "unat (of_nat (x mod 256) :: u8) = x mod 256"
    by (simp add: unat_of_nat)
  then show ?case
    using Suc by (simp add: mod_mult2_eq)
qed simp

lemma le_get_less: "le_get bs < 256 ^ length bs"
proof (induction bs)
  case (Cons b bs)
  have "unat b < 256"
    using unat_lt [of b] by simp
  moreover have "le_get bs + 1 \<le> 256 ^ length bs"
    using Cons by simp
  then have "256 * (le_get bs + 1) \<le> 256 * 256 ^ length bs"
    by (rule mult_le_mono2)
  ultimately show ?case
    by simp
qed simp

lemma le_put_le_get: "le_put (length bs) (le_get bs) = bs"
proof (induction bs)
  case (Cons b bs)
  have "unat b < 256"
    using unat_lt [of b] by simp
  with Cons show ?case
    by simp
qed simp

definition u16_to_le :: "u16 \<Rightarrow> bytes" where
  "u16_to_le w = le_put 2 (unat w)"

definition u32_to_le :: "u32 \<Rightarrow> bytes" where
  "u32_to_le w = le_put 4 (unat w)"

definition u64_to_le :: "u64 \<Rightarrow> bytes" where
  "u64_to_le w = le_put 8 (unat w)"

definition u128_to_le :: "u128 \<Rightarrow> bytes" where
  "u128_to_le w = le_put 16 (unat w)"

definition u16_from_le :: "bytes \<Rightarrow> u16" where
  "u16_from_le bs = of_nat (le_get bs)"

definition u32_from_le :: "bytes \<Rightarrow> u32" where
  "u32_from_le bs = of_nat (le_get bs)"

definition u64_from_le :: "bytes \<Rightarrow> u64" where
  "u64_from_le bs = of_nat (le_get bs)"

definition u128_from_le :: "bytes \<Rightarrow> u128" where
  "u128_from_le bs = of_nat (le_get bs)"

lemma length_u16_to_le [simp, codec_simps]: "length (u16_to_le w) = 2"
  by (simp add: u16_to_le_def)

lemma length_u32_to_le [simp, codec_simps]: "length (u32_to_le w) = 4"
  by (simp add: u32_to_le_def)

lemma length_u64_to_le [simp, codec_simps]: "length (u64_to_le w) = 8"
  by (simp add: u64_to_le_def)

lemma length_u128_to_le [simp, codec_simps]: "length (u128_to_le w) = 16"
  by (simp add: u128_to_le_def)

lemma u16_from_to_le [simp, codec_simps]: "u16_from_le (u16_to_le w) = w"
proof -
  have "unat w < 256 ^ 2" using unat_lt [of w] by simp
  then show ?thesis by (simp add: u16_from_le_def u16_to_le_def le_get_le_put)
qed

lemma u32_from_to_le [simp, codec_simps]: "u32_from_le (u32_to_le w) = w"
proof -
  have "unat w < 256 ^ 4" using unat_lt [of w] by simp
  then show ?thesis by (simp add: u32_from_le_def u32_to_le_def le_get_le_put)
qed

lemma u64_from_to_le [simp, codec_simps]: "u64_from_le (u64_to_le w) = w"
proof -
  have "unat w < 256 ^ 8" using unat_lt [of w] by simp
  then show ?thesis by (simp add: u64_from_le_def u64_to_le_def le_get_le_put)
qed

lemma u128_from_to_le [simp, codec_simps]: "u128_from_le (u128_to_le w) = w"
proof -
  have "unat w < 256 ^ 16" using unat_lt [of w] by simp
  then show ?thesis by (simp add: u128_from_le_def u128_to_le_def le_get_le_put)
qed

lemma u128_to_from_le: "length bs = 16 \<Longrightarrow> u128_to_le (u128_from_le bs) = bs"
  using le_put_le_get [of bs] le_get_less [of bs]
  by (simp add: u128_from_le_def u128_to_le_def unat_of_nat)

lemma u16_to_from_le: "length bs = 2 \<Longrightarrow> u16_to_le (u16_from_le bs) = bs"
  using le_put_le_get [of bs] le_get_less [of bs]
  by (simp add: u16_from_le_def u16_to_le_def unat_of_nat)

lemma u64_to_from_le: "length bs = 8 \<Longrightarrow> u64_to_le (u64_from_le bs) = bs"
  using le_put_le_get [of bs] le_get_less [of bs]
  by (simp add: u64_from_le_def u64_to_le_def unat_of_nat)

lemma u32_to_from_le: "length bs = 4 \<Longrightarrow> u32_to_le (u32_from_le bs) = bs"
  using le_put_le_get [of bs] le_get_less [of bs]
  by (simp add: u32_from_le_def u32_to_le_def unat_of_nat)

text \<open>Rust's \<open>x as u16\<close> and \<open>x as u32\<close> on a \<open>usize\<close> length truncate.\<close>

lemma unat_of_nat_small [codec_simps]:
  "n < 2 ^ LENGTH('a) \<Longrightarrow> unat (of_nat n :: 'a::len word) = n"
  by (simp add: unat_of_nat)

subsection \<open>Bounded loops over a cursor\<close>

text \<open>
  The wire decoders run \<open>for _ in 0..n\<close> over a position in the payload. \<open>for_break\<close> is the loop
  whose body ends it with \<open>break\<close>, \<open>for_try\<close> the one whose body returns an error.
\<close>

fun for_break :: "nat \<Rightarrow> (nat \<Rightarrow> ('a \<times> nat) option) \<Rightarrow> nat \<Rightarrow> 'a list" where
  "for_break 0 step pos = []"
| "for_break (Suc n) step pos =
     (case step pos of None \<Rightarrow> [] | Some (x, pos') \<Rightarrow> x # for_break n step pos')"

fun for_try :: "nat \<Rightarrow> (nat \<Rightarrow> 'e + ('a \<times> nat)) \<Rightarrow> nat \<Rightarrow> 'e + 'a list" where
  "for_try 0 step pos = Inr []"
| "for_try (Suc n) step pos =
     and_then (step pos) (\<lambda>(x, pos'). and_then (for_try n step pos') (\<lambda>xs. Inr (x # xs)))"

text \<open>The loop whose body abandons the whole decode with \<open>return None\<close>.\<close>

fun for_opt :: "nat \<Rightarrow> (nat \<Rightarrow> ('a \<times> nat) option) \<Rightarrow> nat \<Rightarrow> 'a list option" where
  "for_opt 0 step pos = Some []"
| "for_opt (Suc n) step pos =
     (case step pos of None \<Rightarrow> None
      | Some (x, pos') \<Rightarrow> (case for_opt n step pos' of None \<Rightarrow> None | Some xs \<Rightarrow> Some (x # xs)))"

lemma for_try_length: "for_try n step pos = Inr xs \<Longrightarrow> length xs = n"
  by (induction n arbitrary: pos xs) (auto simp: and_then_eq_Inr split: prod.splits)

text \<open>
  The contract between an encoder of one item and the loop body that reads it back at a cursor:
  wherever the item stands in the buffer, the body returns it and the position after it.
\<close>

locale cursor_codec =
  fixes put :: "'a \<Rightarrow> bytes" and get :: "bytes \<Rightarrow> nat \<Rightarrow> ('a \<times> nat) option" and ok :: "'a \<Rightarrow> bool"
  assumes get_put: "ok x \<Longrightarrow> get (pre @ put x @ post) (length pre) = Some (x, length pre + length (put x))"
begin

lemma for_break_app:
  assumes "list_all ok xs"
  shows "for_break (length xs + n) (get (pre @ concat (map put xs) @ post)) (length pre)
    = xs @ for_break n (get (pre @ concat (map put xs) @ post)) (length pre + length (concat (map put xs)))"
  using assms
proof (induction xs arbitrary: pre)
  case (Cons x xs)
  have "for_break (length xs + n) (get ((pre @ put x) @ concat (map put xs) @ post)) (length (pre @ put x))
    = xs @ for_break n (get ((pre @ put x) @ concat (map put xs) @ post))
        (length (pre @ put x) + length (concat (map put xs)))"
    using Cons.prems by (intro Cons.IH) simp
  then show ?case
    using get_put [of x pre "concat (map put xs) @ post"] Cons.prems by (simp add: add.assoc)
qed simp

lemma for_break_put:
  assumes "list_all ok xs" and "n = length xs" and "pos = length pre"
  shows "for_break n (get (pre @ concat (map put xs) @ post)) pos = xs"
  using for_break_app [OF assms(1), of 0 pre post] assms(2,3) by simp

lemma for_opt_put:
  assumes "list_all ok xs" and "n = length xs" and "pos = length pre"
  shows "for_opt n (get (pre @ concat (map put xs) @ post)) pos = Some xs"
  unfolding assms(2,3) using assms(1)
proof (induction xs arbitrary: pre)
  case (Cons x xs)
  have "for_opt (length xs) (get ((pre @ put x) @ concat (map put xs) @ post)) (length (pre @ put x)) = Some xs"
    using Cons.prems by (intro Cons.IH) simp
  then show ?case
    using get_put [of x pre "concat (map put xs) @ post"] Cons.prems by simp
qed simp

end

locale cursor_codec_try =
  fixes put :: "'a \<Rightarrow> bytes" and get :: "bytes \<Rightarrow> nat \<Rightarrow> 'e + ('a \<times> nat)" and ok :: "'a \<Rightarrow> bool"
  assumes get_put_try: "ok x \<Longrightarrow> get (pre @ put x @ post) (length pre) = Inr (x, length pre + length (put x))"
begin

lemma for_try_put:
  assumes "list_all ok xs" and "n = length xs" and "pos = length pre"
  shows "for_try n (get (pre @ concat (map put xs) @ post)) pos = Inr xs"
  unfolding assms(2,3) using assms(1)
proof (induction xs arbitrary: pre)
  case (Cons x xs)
  have "for_try (length xs) (get ((pre @ put x) @ concat (map put xs) @ post)) (length (pre @ put x)) = Inr xs"
    using Cons.prems by (intro Cons.IH) simp
  then show ?case
    using get_put_try [of x pre "concat (map put xs) @ post"] Cons.prems by simp
qed simp

end

text \<open>Reading a slice that starts at the cursor.\<close>

lemma bslice_at [slice_simps]:
  "a = length pre \<Longrightarrow> b = length pre + length x \<Longrightarrow> bslice a b (pre @ x @ post) = x"
  by (simp add: bslice_def)

lemma bslice_after [slice_simps]:
  "length pre \<le> a \<Longrightarrow> bslice a b (pre @ xs) = bslice (a - length pre) (b - length pre) xs"
  by (rule bslice_append_right)

lemma bslice_Cons [slice_simps]: "0 < a \<Longrightarrow> bslice a b (x # xs) = bslice (a - 1) (b - 1) xs"
  by (cases a) (simp_all add: bslice_def)

lemma nth_at [slice_simps]: "i = length pre \<Longrightarrow> (pre @ x # post) ! i = x"
  by simp

subsection \<open>Hash maps\<close>

text \<open>
  The \<open>AHashMap\<close>s of the sources are association lists with distinct keys: they are iterated, counted
  and tested for emptiness, in an order the sources leave unspecified. The components rely on the
  laws of the locale only, never on the list order.
\<close>

locale hash_map =
  fixes lookup :: "'m \<Rightarrow> 'k \<Rightarrow> 'v option" and insert_kv :: "'k \<Rightarrow> 'v \<Rightarrow> 'm \<Rightarrow> 'm"
    and remove_k :: "'k \<Rightarrow> 'm \<Rightarrow> 'm" and entries :: "'m \<Rightarrow> ('k \<times> 'v) list"
    and invar :: "'m \<Rightarrow> bool"
  assumes lookup_insert: "lookup (insert_kv k v m) = (lookup m)(k \<mapsto> v)"
    and lookup_remove: "lookup (remove_k k m) = (lookup m)(k := None)"
    and lookup_entries: "invar m \<Longrightarrow> (k, v) \<in> set (entries m) \<longleftrightarrow> lookup m k = Some v"
    and distinct_entries: "invar m \<Longrightarrow> distinct (map fst (entries m))"
    and invar_insert: "invar m \<Longrightarrow> invar (insert_kv k v m)"
    and invar_remove: "invar m \<Longrightarrow> invar (remove_k k m)"
begin

lemma remove_absent_lookup: "lookup m k = None \<Longrightarrow> lookup (remove_k k m) = lookup m"
  by (auto simp: lookup_remove)

lemma entries_keys: "invar m \<Longrightarrow> fst ` set (entries m) = dom (lookup m)"
proof -
  assume i: "invar m"
  have "k \<in> fst ` set (entries m) \<longleftrightarrow> (\<exists>v. (k, v) \<in> set (entries m))" for k
    by force
  then show "fst ` set (entries m) = dom (lookup m)"
    by (auto simp: lookup_entries [OF i] dom_def)
qed

end

interpretation amap: hash_map map_of AList.update AList.delete "\<lambda>m. m" "\<lambda>m. distinct (map fst m)"
proof
  show "map_of (AList.update k v m) = (map_of m)(k \<mapsto> v)" for k :: 'a and v :: 'b and m
    by (rule AList.update_conv')
  show "map_of (AList.delete k m) = (map_of m)(k := None)" for k :: 'a and m :: "('a \<times> 'b) list"
    by (rule AList.delete_conv')
  show "distinct (map fst m) \<Longrightarrow> (k, v) \<in> set m \<longleftrightarrow> map_of m k = Some v"
    for k :: 'a and v :: 'b and m
    by (auto intro: map_of_is_SomeI dest: map_of_SomeD)
qed (simp_all add: AList.distinct_update AList.distinct_delete)

text \<open>Sums over the entries of a map, used for the byte accounting.\<close>

definition sum_entries :: "('k \<Rightarrow> 'v \<Rightarrow> 'n::comm_monoid_add) \<Rightarrow> ('k \<times> 'v) list \<Rightarrow> 'n" where
  "sum_entries f m = (\<Sum>(k, v) \<leftarrow> m. f k v)"

lemma sum_entries_Nil [simp]: "sum_entries f [] = 0"
  by (simp add: sum_entries_def)

lemma sum_entries_Cons [simp]: "sum_entries f ((k, v) # m) = f k v + sum_entries f m"
  by (simp add: sum_entries_def)

lemma sum_entries_insert_new:
  "map_of m k = None \<Longrightarrow> sum_entries f (AList.update k v m) = f k v + sum_entries f m"
  by (induction m) (auto simp: ac_simps split: if_splits)

lemma sum_entries_remove:
  assumes "distinct (map fst m)" and "map_of m k = Some v"
  shows "sum_entries f m = f k v + sum_entries f (AList.delete k m)"
  using assms
proof (induction m)
  case (Cons kv m)
  obtain k' v' where kv: "kv = (k', v')" by (cases kv)
  show ?case
  proof (cases "k' = k")
    case True
    then have "map_of m k = None"
      using Cons.prems(1) kv by (auto simp: map_of_eq_None_iff)
    then have "AList.delete k m = m"
      by (intro AList.delete_id) (simp add: map_of_eq_None_iff)
    then show ?thesis
      using True Cons.prems kv by simp
  next
    case False
    then show ?thesis
      using Cons kv by (simp add: ac_simps)
  qed
qed simp

lemma sum_entries_update:
  assumes "distinct (map fst m)" and "map_of m k = Some v0"
  shows "f k v0 + sum_entries f (AList.update k v m) = f k v + sum_entries f m"
  using assms
proof (induction m)
  case (Cons kv m)
  then show ?case
    by (cases kv) (auto simp: ac_simps)
qed simp

lemma sum_entries_dom:
  assumes "distinct (map fst m)"
  shows "sum_entries f m = (\<Sum>k\<in>dom (map_of m). f k (the (map_of m k)))"
  using assms
proof (induction m)
  case (Cons kv m)
  obtain k v where kv: "kv = (k, v)" by (cases kv)
  have k: "k \<notin> dom (map_of m)"
    using Cons.prems kv by (simp add: dom_map_of_conv_image_fst)
  have "(\<Sum>j\<in>dom (map_of m). f j (the (map_of (kv # m) j))) = sum_entries f m"
    using k kv Cons by (auto intro!: sum.cong)
  moreover have "dom (map_of (kv # m)) = insert k (dom (map_of m))"
    by (auto simp: kv)
  ultimately show ?case
    using k by (simp add: kv finite_dom_map_of sum.insert del: map_of.simps)
      (simp add: kv)
qed simp

lemma word_less_Suc: "(a :: 'a::len word) \<noteq> - 1 \<Longrightarrow> a < a + 1"
proof -
  assume a: "a \<noteq> - 1"
  have "unat a \<noteq> 2 ^ LENGTH('a) - 1"
    using a by (simp add: word_unat_eq_iff unsigned_minus_1_eq_mask mask_eq_exp_minus_1)
  then have "unat a + 1 < 2 ^ LENGTH('a)"
    using unsigned_less [where 'b = 'a and 'a = nat, of a] by linarith
  then have "unat (a + 1) = unat a + 1"
    by (simp add: unat_word_ariths)
  then show ?thesis
    by (simp add: word_less_nat_alt)
qed

end
