(* ===== verification/Proto_Frame.thy ===== *)
theory Proto_Frame
  imports Prelude
begin

text \<open>
  The native binary protocol's framing layer (\<open>crates/skeg-proto/src/{op,flags,frame,lib}.rs\<close>):
  op codes, frame flags, the 24-byte header, the streaming \<open>FrameParser\<close> and the frame encoder.
  The parser is a state machine over a header or a payload buffer; \<open>feed\<close> returns its result,
  the new parser and what is left of the input. The main facts are that a parser never holds more
  than its buffers allow, that \<open>feed\<close> is the inverse of the encoder, and that how the network cuts
  the byte stream into chunks never changes the frames that come out.
\<close>

subsection \<open>Op codes (op.rs)\<close>

datatype op =
    OpGet | OpSet | OpDel | OpMget | OpMset | OpExists | OpMexists
  | OpVindexCreate | OpVindexDrop | OpVset | OpVget | OpVdel | OpVsearch | OpVindexList
  | OpPing | OpStats | OpFlush | OpShards | OpNativeHello
  | OpOk | OpErr | OpContinued

text \<open>The \<open>repr(u8)\<close> discriminant, Rust's \<open>op as u8\<close>.\<close>

fun op_to_u8 :: "op \<Rightarrow> u8" where
  "op_to_u8 OpGet = 0x01"
| "op_to_u8 OpSet = 0x02"
| "op_to_u8 OpDel = 0x03"
| "op_to_u8 OpMget = 0x04"
| "op_to_u8 OpMset = 0x05"
| "op_to_u8 OpExists = 0x06"
| "op_to_u8 OpMexists = 0x07"
| "op_to_u8 OpVindexCreate = 0x10"
| "op_to_u8 OpVindexDrop = 0x11"
| "op_to_u8 OpVset = 0x12"
| "op_to_u8 OpVget = 0x13"
| "op_to_u8 OpVdel = 0x14"
| "op_to_u8 OpVsearch = 0x15"
| "op_to_u8 OpVindexList = 0x16"
| "op_to_u8 OpPing = 0x80"
| "op_to_u8 OpStats = 0x81"
| "op_to_u8 OpFlush = 0x82"
| "op_to_u8 OpShards = 0x83"
| "op_to_u8 OpNativeHello = 0x84"
| "op_to_u8 OpOk = 0xC0"
| "op_to_u8 OpErr = 0xC1"
| "op_to_u8 OpContinued = 0xC2"

definition op_from_u8 :: "u8 \<Rightarrow> op option" where
  "op_from_u8 v =
    (if v = 0x01 then Some OpGet
     else if v = 0x02 then Some OpSet
     else if v = 0x03 then Some OpDel
     else if v = 0x04 then Some OpMget
     else if v = 0x05 then Some OpMset
     else if v = 0x06 then Some OpExists
     else if v = 0x07 then Some OpMexists
     else if v = 0x10 then Some OpVindexCreate
     else if v = 0x11 then Some OpVindexDrop
     else if v = 0x12 then Some OpVset
     else if v = 0x13 then Some OpVget
     else if v = 0x14 then Some OpVdel
     else if v = 0x15 then Some OpVsearch
     else if v = 0x16 then Some OpVindexList
     else if v = 0x80 then Some OpPing
     else if v = 0x81 then Some OpStats
     else if v = 0x82 then Some OpFlush
     else if v = 0x83 then Some OpShards
     else if v = 0x84 then Some OpNativeHello
     else if v = 0xC0 then Some OpOk
     else if v = 0xC1 then Some OpErr
     else if v = 0xC2 then Some OpContinued
     else None)"

subsection \<open>Flags (flags.rs)\<close>

text \<open>
  A \<open>Flags\<close> value is its bits. \<open>from_bits\<close> accepts a value iff every set bit is a declared flag.
\<close>

definition WAIT_DURABLE :: u32 where "WAIT_DURABLE = push_bit 0 1"
definition NO_REPLY :: u32 where "NO_REPLY = push_bit 1 1"
definition BATCH :: u32 where "BATCH = push_bit 2 1"
definition BATCH_END :: u32 where "BATCH_END = push_bit 3 1"
definition COMPRESSED_LZ4 :: u32 where "COMPRESSED_LZ4 = push_bit 4 1"
definition CONTINUATION :: u32 where "CONTINUATION = push_bit 5 1"
definition SET_NX :: u32 where "SET_NX = push_bit 6 1"
definition SET_XX :: u32 where "SET_XX = push_bit 7 1"

definition flags_all :: u32 where
  "flags_all = WAIT_DURABLE OR NO_REPLY OR BATCH OR BATCH_END OR COMPRESSED_LZ4
     OR CONTINUATION OR SET_NX OR SET_XX"

definition flags_from_bits :: "u32 \<Rightarrow> u32 option" where
  "flags_from_bits bits = (if bits AND NOT flags_all = 0 then Some bits else None)"

definition flags_contains :: "u32 \<Rightarrow> u32 \<Rightarrow> bool" where
  "flags_contains self other \<longleftrightarrow> self AND other = other"

definition flags_empty :: u32 where "flags_empty = 0"

subsection \<open>Headers and frames (frame.rs)\<close>

datatype parse_error =
    InvalidMagic u16 u16
  | InvalidVersion u8
  | UnknownOp u8
  | FrameTooLarge u32 u32
  | InvalidFlags u32
  | InvalidPayload string

definition MAGIC :: u16 where "MAGIC = 0x564B"
definition VERSION_V1 :: u8 where "VERSION_V1 = 1"
definition VERSION_V2 :: u8 where "VERSION_V2 = 2"
definition HEADER_LEN :: nat where "HEADER_LEN = 24"
definition MAX_FRAME_SIZE :: u32 where "MAX_FRAME_SIZE = 16 * 1024 * 1024"

record frame_header =
  hdr_version :: u8
  hdr_op :: op
  hdr_flags :: u32
  hdr_req_id :: u64
  hdr_payload_len :: u32

record frame =
  header :: frame_header
  payload :: bytes

datatype parse_state =
    Header bytes nat
  | Payload frame_header bytes

definition parser_new :: parse_state where
  "parser_new = Header (replicate HEADER_LEN 0) 0"

definition parse_header :: "bytes \<Rightarrow> parse_error + frame_header" where
  "parse_header buf =
    (let magic = u16_from_le (bslice 0 2 buf) in
     if magic \<noteq> MAGIC then Inl (InvalidMagic MAGIC magic)
     else
     (let version = buf ! 2 in
     if version \<noteq> VERSION_V1 \<and> version \<noteq> VERSION_V2 then Inl (InvalidVersion version)
     else
     (let op_byte = buf ! 3 in
     and_then (ok_or (op_from_u8 op_byte) (UnknownOp op_byte)) (\<lambda>op.
     let flags_raw = u32_from_le (bslice 4 8 buf) in
     and_then (ok_or (flags_from_bits flags_raw) (InvalidFlags flags_raw)) (\<lambda>flags.
     let req_id = u64_from_le (bslice 8 16 buf);
         payload_len = u32_from_le (bslice 16 20 buf) in
     if payload_len > MAX_FRAME_SIZE then Inl (FrameTooLarge payload_len MAX_FRAME_SIZE)
     else Inr \<lparr>hdr_version = version, hdr_op = op, hdr_flags = flags, hdr_req_id = req_id,
               hdr_payload_len = payload_len\<rparr>)))))"

text \<open>
  One iteration of the loop of \<open>FrameParser::feed\<close> in the \<open>Payload\<close> state: it always returns.
\<close>

definition feed_payload ::
  "frame_header \<Rightarrow> bytes \<Rightarrow> bytes \<Rightarrow> (parse_error + frame option) \<times> parse_state \<times> bytes" where
  "feed_payload hdr buf input =
    (let need = unat (hdr_payload_len hdr) - length buf;
         n = min (length input) need;
         buf' = buf @ take n input;
         input' = drop n input in
     if length buf' < unat (hdr_payload_len hdr)
     then (Inr None, Payload hdr buf', input')
     else (Inr (Some \<lparr>header = hdr, payload = buf'\<rparr>), parser_new, input'))"

text \<open>
  \<open>FrameParser::feed\<close>. The \<open>Header\<close> iteration returns (more bytes needed, or a protocol error,
  which leaves the full header buffer in place) or falls through to the \<open>Payload\<close> iteration.
\<close>

fun feed :: "parse_state \<Rightarrow> bytes \<Rightarrow> (parse_error + frame option) \<times> parse_state \<times> bytes" where
  "feed (Header buf filled) input =
    (let need = HEADER_LEN - filled;
         n = min (length input) need;
         buf' = splice_at filled (take n input) buf;
         filled' = filled + n;
         input' = drop n input in
     if filled' < HEADER_LEN then (Inr None, Header buf' filled', input')
     else case parse_header buf' of
            Inl e \<Rightarrow> (Inl e, Header buf' filled', input')
          | Inr hdr \<Rightarrow> feed_payload hdr [] input')"
| "feed (Payload hdr buf) input = feed_payload hdr buf input"

definition encode_frame_versioned :: "u8 \<Rightarrow> op \<Rightarrow> u32 \<Rightarrow> u64 \<Rightarrow> bytes \<Rightarrow> bytes" where
  "encode_frame_versioned version op flags req_id pl =
    u16_to_le MAGIC @ [version] @ [op_to_u8 op] @ u32_to_le flags @ u64_to_le req_id
    @ u32_to_le (of_nat (length pl)) @ u32_to_le 0 @ pl"

definition encode_frame :: "op \<Rightarrow> u32 \<Rightarrow> u64 \<Rightarrow> bytes \<Rightarrow> bytes" where
  "encode_frame op flags req_id pl = encode_frame_versioned VERSION_V1 op flags req_id pl"

subsection \<open>The connection's read loop (skeg-server/src/handler.rs)\<close>

text \<open>
  \<open>handle_connection\<close> alternates \<open>parser.feed(&mut buf)\<close> with socket reads that append to \<open>buf\<close>.
  \<open>drain\<close> is the part between two reads: feed until the parser asks for more bytes or fails. It
  returns the frames handed to \<open>dispatch\<close>, the protocol error that ends the connection if any, and
  the parser and the buffer it leaves.
\<close>


text \<open>A parser is well formed when its buffers are within the bounds the code relies on.\<close>

fun parser_ok :: "parse_state \<Rightarrow> bool" where
  "parser_ok (Header buf filled) \<longleftrightarrow> length buf = HEADER_LEN \<and> filled < HEADER_LEN"
| "parser_ok (Payload hdr buf) \<longleftrightarrow>
     length buf < unat (hdr_payload_len hdr) \<and> hdr_payload_len hdr \<le> MAX_FRAME_SIZE"

lemma feed_payload_Some:
  "feed_payload hdr buf input = (Inr (Some f), p', input') \<Longrightarrow>
     p' = parser_new \<and> length input' \<le> length input"
  by (auto simp: feed_payload_def Let_def split: if_splits)

lemma feed_Some:
  assumes "feed p input = (Inr (Some f), p', input')"
  shows "p' = parser_new" and "length input' \<le> length input"
    and "p = parser_new \<Longrightarrow> length input' < length input"
proof -
  show "p' = parser_new" "length input' \<le> length input"
    using assms by (cases p; auto simp: Let_def split: if_splits sum.splits dest!: feed_payload_Some)+
  assume "p = parser_new"
  with assms show "length input' < length input"
    by (auto simp: parser_new_def Let_def HEADER_LEN_def min_def
        split: if_splits sum.splits dest!: feed_payload_Some)
qed

function drain :: "parse_state \<Rightarrow> bytes \<Rightarrow> frame list \<times> parse_error option \<times> parse_state \<times> bytes" where
  "drain p input =
    (case feed p input of
       (Inl e, p', input') \<Rightarrow> ([], Some e, p', input')
     | (Inr None, p', input') \<Rightarrow> ([], None, p', input')
     | (Inr (Some f), p', input') \<Rightarrow>
         (case drain p' input' of (fs, e, q, rest) \<Rightarrow> (f # fs, e, q, rest)))"
  by pat_completeness auto
termination
proof (relation "measure (\<lambda>(p, input). 2 * length input + (if p = parser_new then 0 else 1))")
  fix p input x y b f p' input'
  assume "(x, y) = feed p input" "x = Inr b" "b = Some f" "(p', input') = y"
  then have "feed p input = (Inr (Some f), p', input')"
    by simp
  note * = feed_Some [OF this]
  show "((p', input'), p, input)
     \<in> measure (\<lambda>(p, input). 2 * length input + (if p = parser_new then 0 else 1))"
    using * by (cases "p = parser_new") auto
qed simp

declare drain.simps [simp del]

text \<open>
  The frames a connection yields when its reads return the given chunks in turn; an empty read is
  the end of the stream and ends the connection.
\<close>

fun read_frames :: "parse_state \<Rightarrow> bytes \<Rightarrow> bytes list \<Rightarrow> frame list \<times> parse_error option" where
  "read_frames p buf chunks =
    (case drain p buf of
       (fs, Some e, p', buf') \<Rightarrow> (fs, Some e)
     | (fs, None, p', buf') \<Rightarrow>
         (case chunks of
            [] \<Rightarrow> (fs, None)
          | c # cs \<Rightarrow>
              if c = [] then (fs, None)
              else (case read_frames p' (buf' @ c) cs of (gs, e) \<Rightarrow> (fs @ gs, e))))"

declare read_frames.simps [simp del]

subsection \<open>Facts on op codes, flags and headers\<close>

lemma op_from_to_u8 [simp]: "op_from_u8 (op_to_u8 p) = Some p"
  by (cases p) (simp_all add: op_from_u8_def)

lemma op_from_u8_Some: "op_from_u8 v = Some p \<Longrightarrow> op_to_u8 p = v"
  by (auto simp: op_from_u8_def split: if_splits)

lemma flags_all_eq: "flags_all = 0xFF"
  by (simp add: flags_all_def WAIT_DURABLE_def NO_REPLY_def BATCH_def BATCH_END_def
      COMPRESSED_LZ4_def CONTINUATION_def SET_NX_def SET_XX_def)

lemmas header_consts = MAGIC_def VERSION_V1_def VERSION_V2_def HEADER_LEN_def

text \<open>The frames the encoder is meant for: a supported version, declared flags, a bounded payload.\<close>

definition frame_ok :: "frame \<Rightarrow> bool" where
  "frame_ok f \<longleftrightarrow>
     (hdr_version (header f) = VERSION_V1 \<or> hdr_version (header f) = VERSION_V2)
     \<and> flags_from_bits (hdr_flags (header f)) = Some (hdr_flags (header f))
     \<and> length (payload f) \<le> unat MAX_FRAME_SIZE
     \<and> hdr_payload_len (header f) = of_nat (length (payload f))"

definition encode_of :: "frame \<Rightarrow> bytes" where
  "encode_of f = encode_frame_versioned (hdr_version (header f)) (hdr_op (header f))
     (hdr_flags (header f)) (hdr_req_id (header f)) (payload f)"

definition header_bytes :: "frame_header \<Rightarrow> bytes \<Rightarrow> bytes" where
  "header_bytes h reserved = u16_to_le MAGIC @ [hdr_version h] @ [op_to_u8 (hdr_op h)]
     @ u32_to_le (hdr_flags h) @ u64_to_le (hdr_req_id h) @ u32_to_le (hdr_payload_len h) @ reserved"

lemma length_header_bytes [simp]: "length (header_bytes h r) = 20 + length r"
  by (simp add: header_bytes_def)

lemma unat_MAX_FRAME_SIZE: "unat MAX_FRAME_SIZE = 16777216"
  by (simp add: MAX_FRAME_SIZE_def)

lemma frame_ok_len:
  assumes "frame_ok f"
  shows "unat (hdr_payload_len (header f)) = length (payload f)"
    and "hdr_payload_len (header f) \<le> MAX_FRAME_SIZE"
proof -
  from assms have le: "length (payload f) \<le> 16777216"
    and eq: "hdr_payload_len (header f) = of_nat (length (payload f))"
    by (simp_all add: frame_ok_def unat_MAX_FRAME_SIZE)
  show 1: "unat (hdr_payload_len (header f)) = length (payload f)"
    using le by (simp add: eq unat_of_nat_small)
  show "hdr_payload_len (header f) \<le> MAX_FRAME_SIZE"
    using le by (simp add: word_le_nat_alt 1 unat_MAX_FRAME_SIZE)
qed

lemma encode_of_eq: "frame_ok f \<Longrightarrow> encode_of f = header_bytes (header f) (u32_to_le 0) @ payload f"
  by (simp add: encode_of_def encode_frame_versioned_def header_bytes_def frame_ok_def)

lemma parse_header_bytes:
  assumes "hdr_version h = VERSION_V1 \<or> hdr_version h = VERSION_V2"
    and "flags_from_bits (hdr_flags h) = Some (hdr_flags h)"
    and "hdr_payload_len h \<le> MAX_FRAME_SIZE"
  shows "parse_header (header_bytes h r) = Inr h"
proof -
  let ?b = "header_bytes h r"
  have 1: "bslice 0 2 ?b = u16_to_le MAGIC"
    by (simp add: header_bytes_def slice_simps)
  have 2: "?b ! 2 = hdr_version h" "?b ! 3 = op_to_u8 (hdr_op h)"
    by (simp_all add: header_bytes_def nth_append)
  have 3: "bslice 4 8 ?b = u32_to_le (hdr_flags h)"
    by (simp add: header_bytes_def bslice_def)
  have 4: "bslice 8 16 ?b = u64_to_le (hdr_req_id h)"
    by (simp add: header_bytes_def bslice_def)
  have 5: "bslice 16 20 ?b = u32_to_le (hdr_payload_len h)"
    by (simp add: header_bytes_def bslice_def)
  show ?thesis
    using assms by (auto simp: parse_header_def Let_def 1 2 3 4 5)
qed


subsection \<open>Feeding in pieces\<close>

lemma feed_payload_alt:
  assumes "length buf \<le> unat (hdr_payload_len hdr)"
  shows "feed_payload hdr buf input =
    (let n = unat (hdr_payload_len hdr) in
     if length buf + length input < n then (Inr None, Payload hdr (buf @ input), [])
     else (Inr (Some \<lparr>header = hdr, payload = buf @ take (n - length buf) input\<rparr>), parser_new,
           drop (n - length buf) input))"
proof (cases "length buf + length input < unat (hdr_payload_len hdr)")
  case True
  then have "min (length input) (unat (hdr_payload_len hdr) - length buf) = length input"
    by simp
  with True show ?thesis by (simp add: feed_payload_def Let_def)
next
  case False
  then have "min (length input) (unat (hdr_payload_len hdr) - length buf)
      = unat (hdr_payload_len hdr) - length buf"
    by simp
  with False assms show ?thesis by (simp add: feed_payload_def Let_def)
qed

lemma feed_header_alt:
  assumes "filled < HEADER_LEN"
  shows "feed (Header buf filled) input =
    (if filled + length input < HEADER_LEN
     then (Inr None, Header (splice_at filled input buf) (filled + length input), [])
     else let buf' = splice_at filled (take (HEADER_LEN - filled) input) buf;
              input' = drop (HEADER_LEN - filled) input in
          case parse_header buf' of
            Inl e \<Rightarrow> (Inl e, Header buf' HEADER_LEN, input')
          | Inr hdr \<Rightarrow> feed_payload hdr [] input')"
proof (cases "filled + length input < HEADER_LEN")
  case True
  then have "min (length input) (HEADER_LEN - filled) = length input"
    by simp
  with True show ?thesis by (simp add: Let_def)
next
  case False
  then have "min (length input) (HEADER_LEN - filled) = HEADER_LEN - filled"
    by simp
  with False assms show ?thesis by (simp add: Let_def split: sum.split)
qed

declare feed.simps(1) [simp del]

lemma feed_payload_append:
  assumes "length buf \<le> unat (hdr_payload_len hdr)"
    and "feed_payload hdr buf x = (r, p', x')"
  shows "if r = Inr None then x' = [] \<and> feed_payload hdr buf (x @ y) = feed p' y
         else feed_payload hdr buf (x @ y) = (r, p', x' @ y)"
  using assms by (auto simp: feed_payload_alt Let_def split: if_splits)

lemma splice_at_append:
  assumes "i + length xs \<le> length buf"
  shows "splice_at i (xs @ ys) buf = splice_at (i + length xs) ys (splice_at i xs buf)"
proof -
  have "drop (length ys + (i + length xs)) buf = drop (i + (length xs + length ys)) buf"
    by (simp add: ac_simps)
  then show ?thesis
    using assms by (simp add: splice_at_def)
qed

lemma feed_header_append:
  assumes ok: "parser_ok (Header buf filled)" and fd: "feed (Header buf filled) x = (r, p', x')"
  shows "if r = Inr None then x' = [] \<and> feed (Header buf filled) (x @ y) = feed p' y
         else feed (Header buf filled) (x @ y) = (r, p', x' @ y)"
proof (cases "filled + length x < HEADER_LEN")
  case True
  have "splice_at filled (x @ zs) buf = splice_at (filled + length x) zs (splice_at filled x buf)" for zs
    using True ok by (intro splice_at_append) simp
  then show ?thesis
    using fd ok True by (auto simp: feed_header_alt add.assoc Let_def)
next
  case False
  let ?b = "splice_at filled (take (HEADER_LEN - filled) x) buf"
  have tk: "take (HEADER_LEN - filled) (x @ y) = take (HEADER_LEN - filled) x"
    "drop (HEADER_LEN - filled) (x @ y) = drop (HEADER_LEN - filled) x @ y"
    using False by auto
  show ?thesis
  proof (cases "parse_header ?b")
    case (Inl e)
    then show ?thesis
      using fd ok False tk by (auto simp: feed_header_alt Let_def)
  next
    case (Inr hdr)
    then have "feed_payload hdr [] (drop (HEADER_LEN - filled) x) = (r, p', x')"
      using fd ok False by (auto simp: feed_header_alt Let_def)
    from feed_payload_append [OF _ this, of y] Inr show ?thesis
      using ok False tk by (auto simp: feed_header_alt Let_def)
  qed
qed

lemma feed_append:
  assumes "parser_ok p" and "feed p x = (r, p', x')"
  shows "if r = Inr None then x' = [] \<and> feed p (x @ y) = feed p' y
         else feed p (x @ y) = (r, p', x' @ y)"
proof (cases p)
  case (Header buf filled)
  then show ?thesis using assms feed_header_append by blast
next
  case (Payload hdr buf)
  then show ?thesis
    using assms feed_payload_append [of buf hdr x r p' x' y] by simp
qed

lemma parse_header_len:
  "parse_header buf = Inr hdr \<Longrightarrow> hdr_payload_len hdr \<le> MAX_FRAME_SIZE"
  by (auto simp: parse_header_def Let_def and_then_eq_Inr not_less split: if_splits)

lemma parser_ok_new [simp]: "parser_ok parser_new"
  by (simp add: parser_new_def HEADER_LEN_def)

lemma feed_payload_ok:
  assumes "hdr_payload_len hdr \<le> MAX_FRAME_SIZE" "feed_payload hdr buf x = (Inr r, p', x')"
  shows "parser_ok p'"
  using assms by (auto simp: feed_payload_def Let_def split: if_splits)

lemma feed_ok: "parser_ok p \<Longrightarrow> feed p x = (Inr r, p', x') \<Longrightarrow> parser_ok p'"
  by (cases p)
    (auto simp: feed_header_alt Let_def split: if_splits sum.splits dest: feed_payload_ok parse_header_len)

lemma drain_append:
  assumes "parser_ok p"
  shows "drain p (x @ y) =
    (case drain p x of
       (fs, Some e, p', x') \<Rightarrow> (fs, Some e, p', x' @ y)
     | (fs, None, p', x') \<Rightarrow> (case drain p' y of (gs, e, q, rest) \<Rightarrow> (fs @ gs, e, q, rest)))"
  using assms
proof (induction p x rule: drain.induct)
  case (1 p x)
  obtain r p' x' where fd: "feed p x = (r, p', x')"
    using prod_cases3 by blast
  show ?case
  proof (cases r)
    case (Inl e)
    then show ?thesis
      using feed_append [OF "1.prems" fd] fd by (simp add: drain.simps [of p])
  next
    case (Inr o')
    show ?thesis
    proof (cases o')
      case None
      then have "drain p (x @ y) = drain p' y"
        using feed_append [OF "1.prems" fd, of y] Inr
        by (simp add: drain.simps [of p] drain.simps [of p'])
      then show ?thesis
        using None Inr fd by (simp add: drain.simps [of p x] split: prod.split)
    next
      case (Some f)
      have "drain p (x @ y) = (case drain p' (x' @ y) of (fs, e, q, rest) \<Rightarrow> (f # fs, e, q, rest))"
        using feed_append [OF "1.prems" fd, of y] Inr Some by (simp add: drain.simps [of p "x @ y"])
      then show ?thesis
        using "1.IH" [of r "(p', x')" o' f p' x'] fd Inr Some feed_ok [OF "1.prems", of x o' p' x']
        by (simp add: drain.simps [of p x] split: prod.split option.split)
    qed
  qed
qed

lemma drain_None:
  "drain p x = (fs, None, p', x') \<Longrightarrow> parser_ok p \<Longrightarrow> x' = [] \<and> parser_ok p'"
proof (induction p x arbitrary: fs rule: drain.induct)
  case (1 p x)
  obtain r q y where fd: "feed p x = (r, q, y)"
    using prod_cases3 by blast
  with "1.prems" obtain o' where r: "r = Inr o'"
    by (cases r) (auto simp: drain.simps [of p x])
  show ?case
  proof (cases o')
    case None
    then show ?thesis
      using fd r "1.prems" feed_append [OF "1.prems"(2) fd] feed_ok [of p x None q y]
      by (simp add: drain.simps [of p x])
  next
    case (Some f)
    obtain gs where "drain q y = (gs, None, p', x')"
      using "1.prems"(1) fd r Some by (auto simp: drain.simps [of p x] split: prod.splits)
    then show ?thesis
      using "1.IH" [of r "(q, y)" o' f q y gs] fd r Some feed_ok [OF "1.prems"(2), of x o' q y] by simp
  qed
qed

lemma read_frames_drain:
  assumes "parser_ok p" and "[] \<notin> set chunks"
  shows "read_frames p buf chunks
    = (case drain p (buf @ concat chunks) of (fs, e, q, rest) \<Rightarrow> (fs, e))"
  using assms
proof (induction chunks arbitrary: p buf)
  case Nil
  then show ?case
    by (auto simp: read_frames.simps [of p buf] split: prod.split option.split)
next
  case (Cons c cs)
  obtain fs e p' buf' where d: "drain p buf = (fs, e, p', buf')"
    using prod_cases4 by blast
  show ?case
  proof (cases e)
    case (Some err)
    then show ?thesis
      using d Cons.prems by (simp add: read_frames.simps [of p buf] drain_append)
  next
    case None
    then have p': "parser_ok p'" and b': "buf' = []"
      using drain_None [of p buf fs p' buf'] d Cons.prems by auto
    have "read_frames p' c cs = (case drain p' (c @ concat cs) of (fs, e, q, rest) \<Rightarrow> (fs, e))"
      using Cons.IH [OF p', of c] Cons.prems by simp
    then show ?thesis
      using d None b' Cons.prems
      by (auto simp: read_frames.simps [of p buf] drain_append split: prod.split)
  qed
qed

lemma feed_encode_of:
  assumes "frame_ok f"
  shows "feed parser_new (encode_of f @ rest) = (Inr (Some f), parser_new, rest)"
proof -
  let ?h = "header_bytes (header f) (u32_to_le 0)"
  have sp: "splice_at 0 ?h (replicate HEADER_LEN 0) = ?h"
    by (simp add: splice_at_def HEADER_LEN_def)
  have ph: "parse_header ?h = Inr (header f)"
    using assms frame_ok_len(2) [OF assms] by (intro parse_header_bytes) (simp_all add: frame_ok_def)
  have "feed parser_new (encode_of f @ rest) = feed_payload (header f) [] (payload f @ rest)"
    unfolding parser_new_def
    by (subst feed_header_alt)
      (simp_all add: HEADER_LEN_def encode_of_eq [OF assms] Let_def ph sp [unfolded HEADER_LEN_def])
  also have "\<dots> = (Inr (Some f), parser_new, rest)"
    by (simp add: feed_payload_alt frame_ok_len(1) [OF assms] Let_def)
  finally show ?thesis .
qed

lemma drain_encode_of:
  assumes "list_all frame_ok fs"
  shows "drain parser_new (concat (map encode_of fs)) = (fs, None, parser_new, [])"
  using assms
proof (induction fs)
  case Nil
  have "splice_at 0 [] (replicate HEADER_LEN 0) = (replicate HEADER_LEN 0 :: bytes)"
    by (simp add: splice_at_def)
  then have "feed parser_new [] = (Inr None, parser_new, [])"
    by (simp add: parser_new_def feed_header_alt HEADER_LEN_def)
  then show ?case
    by (simp add: drain.simps [of parser_new])
next
  case (Cons f fs)
  then show ?case
    by (simp add: drain.simps [of parser_new "encode_of f @ _"] feed_encode_of)
qed

lemma parse_header_sound:
  assumes "length buf = HEADER_LEN" and "parse_header buf = Inr h"
  shows "buf = header_bytes h (drop 20 buf)"
    and "hdr_version h = VERSION_V1 \<or> hdr_version h = VERSION_V2"
    and "flags_from_bits (hdr_flags h) = Some (hdr_flags h)"
proof -
  have len: "length buf = 24"
    using assms(1) by (simp add: HEADER_LEN_def)
  from assms(2) have eqs: "u16_from_le (bslice 0 2 buf) = MAGIC" "buf ! 2 = hdr_version h"
    "op_from_u8 (buf ! 3) = Some (hdr_op h)" "u32_from_le (bslice 4 8 buf) = hdr_flags h"
    "u64_from_le (bslice 8 16 buf) = hdr_req_id h" "u32_from_le (bslice 16 20 buf) = hdr_payload_len h"
    and v: "hdr_version h = VERSION_V1 \<or> hdr_version h = VERSION_V2"
    and f: "flags_from_bits (hdr_flags h) = Some (hdr_flags h)"
    by (auto simp: parse_header_def Let_def and_then_eq_Inr flags_from_bits_def split: if_splits)
  show "hdr_version h = VERSION_V1 \<or> hdr_version h = VERSION_V2" by (rule v)
  show "flags_from_bits (hdr_flags h) = Some (hdr_flags h)" by (rule f)
  have "bslice 0 2 buf = u16_to_le MAGIC"
    using u16_to_from_le [of "bslice 0 2 buf"] len eqs(1) by simp
  moreover have "bslice 4 8 buf = u32_to_le (hdr_flags h)"
    using u32_to_from_le [of "bslice 4 8 buf"] len eqs(4) by simp
  moreover have "bslice 8 16 buf = u64_to_le (hdr_req_id h)"
    using u64_to_from_le [of "bslice 8 16 buf"] len eqs(5) by simp
  moreover have "bslice 16 20 buf = u32_to_le (hdr_payload_len h)"
    using u32_to_from_le [of "bslice 16 20 buf"] len eqs(6) by simp
  moreover have "bslice 2 4 buf = [hdr_version h, op_to_u8 (hdr_op h)]"
  proof -
    have "bslice 2 4 buf = bslice 2 3 buf @ bslice 3 4 buf"
      by (simp add: bslice_join)
    moreover have "bslice 2 3 buf = [buf ! 2]" "bslice 3 4 buf = [buf ! 3]"
      using bslice_single [of 2 buf] bslice_single [of 3 buf] len by simp_all
    ultimately show ?thesis
      using eqs(2) op_from_u8_Some [OF eqs(3)] by simp
  qed
  ultimately have "bslice 0 2 buf @ bslice 2 4 buf @ bslice 4 8 buf @ bslice 8 16 buf
      @ bslice 16 20 buf @ drop 20 buf = header_bytes h (drop 20 buf)"
    by (simp add: header_bytes_def)
  moreover have "bslice 0 2 buf @ bslice 2 4 buf @ bslice 4 8 buf @ bslice 8 16 buf
      @ bslice 16 20 buf @ drop 20 buf = buf"
    by (simp add: bslice_drop)
  ultimately show "buf = header_bytes h (drop 20 buf)"
    by argo
qed

lemma feed_sound:
  assumes "feed parser_new input = (Inr (Some f), p', rest)"
  shows "\<exists>reserved. length reserved = 4 \<and> input = header_bytes (header f) reserved @ payload f @ rest"
    and "length (payload f) = unat (hdr_payload_len (header f))"
    and "frame_ok f"
proof -
  let ?b = "take HEADER_LEN input"
  have sp: "splice_at 0 ?b (replicate HEADER_LEN 0) = ?b" if "HEADER_LEN \<le> length input"
    using that by (simp add: splice_at_def)
  from assms have len: "HEADER_LEN \<le> length input"
    by (auto simp: parser_new_def feed_header_alt HEADER_LEN_def split: if_splits)
  with assms sp obtain h where h: "parse_header ?b = Inr h"
    and fp: "feed_payload h [] (drop HEADER_LEN input) = (Inr (Some f), p', rest)"
    by (auto simp: parser_new_def feed_header_alt HEADER_LEN_def Let_def split: if_splits sum.splits)
  from fp have f: "header f = h" "payload f = take (unat (hdr_payload_len h)) (drop HEADER_LEN input)"
    "rest = drop (unat (hdr_payload_len h)) (drop HEADER_LEN input)"
    and enough: "unat (hdr_payload_len h) \<le> length (drop HEADER_LEN input)"
    by (auto simp: feed_payload_alt Let_def split: if_splits)
  have lb: "length ?b = HEADER_LEN"
    using len by simp
  note snd = parse_header_sound [OF lb h] parse_header_len [OF h]
  show plen: "length (payload f) = unat (hdr_payload_len (header f))"
    using f enough by simp
  have "input = ?b @ payload f @ rest"
    by (simp only: f(2,3) append_take_drop_id)
  also have "\<dots> = header_bytes (header f) (drop 20 ?b) @ payload f @ rest"
    unfolding f(1) by (rule arg_cong [OF snd(1), of "\<lambda>z. z @ payload f @ rest"])
  finally have "input = header_bytes (header f) (drop 20 ?b) @ payload f @ rest" .
  moreover have "length (drop 20 ?b) = 4"
    using lb by (simp add: HEADER_LEN_def)
  ultimately show "\<exists>reserved. length reserved = 4 \<and> input = header_bytes (header f) reserved @ payload f @ rest"
    by blast
  show "frame_ok f"
    using snd(2-4) f(1) plen by (simp add: frame_ok_def word_le_nat_alt)
qed

subsection \<open>Properties\<close>

text \<open>
  C15: A stream of well-formed frames is read back exactly: however the network cuts the
  concatenation of the encoded frames into non-empty reads, the connection's read loop hands
  \<open>dispatch\<close> those frames in order, with every header field and payload byte intact, and reports no
  protocol error.
\<close>

theorem read_frames_roundtrip:
  assumes "list_all frame_ok fs"
    and "concat chunks = concat (map encode_of fs)"
    and "[] \<notin> set chunks"
  shows "read_frames parser_new [] chunks = (fs, None)"
  using assms by (simp add: read_frames_drain drain_encode_of)

definition demo_frame :: frame where
  "demo_frame = \<lparr>header = \<lparr>hdr_version = 2, hdr_op = OpGet, hdr_flags = 2, hdr_req_id = 7,
     hdr_payload_len = 3\<rparr>, payload = [1, 0, 65]\<rparr>"

lemma demo_frame_ok: "frame_ok demo_frame"
  by (simp add: demo_frame_def frame_ok_def VERSION_V2_def flags_from_bits_def flags_all_eq
      unat_MAX_FRAME_SIZE)

theorem read_frames_roundtrip_witness:
  "list_all frame_ok [demo_frame, demo_frame]
   \<and> read_frames parser_new []
       [take 5 (encode_of demo_frame @ encode_of demo_frame),
        drop 5 (encode_of demo_frame @ encode_of demo_frame)] = ([demo_frame, demo_frame], None)"
proof -
  have len: "length (encode_of demo_frame) = 27"
    using encode_of_eq [OF demo_frame_ok] by (simp add: demo_frame_def)
  have "list_all frame_ok [demo_frame, demo_frame]"
    by (simp add: demo_frame_ok)
  then show ?thesis
    using len by (auto intro!: read_frames_roundtrip simp del: take_append drop_append)
qed

text \<open>
  C25: Chunking is irrelevant on every input, well formed or not: the frames and the protocol error
  of a connection depend only on the bytes received, not on how the reads divide them.
\<close>

theorem read_frames_chunking:
  assumes "[] \<notin> set chunks" and "[] \<notin> set chunks'" and "concat chunks = concat chunks'"
  shows "read_frames parser_new [] chunks = read_frames parser_new [] chunks'"
  using assms by (simp add: read_frames_drain)

theorem read_frames_chunking_witness:
  "read_frames parser_new [] [[1], [2, 3]] = read_frames parser_new [] [[1, 2], [3]]"
  by (rule read_frames_chunking) simp_all

text \<open>
  C26: The parser accepts nothing but well-formed frames: a frame it yields has a supported version,
  declared flags only and a payload of exactly the announced length, at most \<open>MAX_FRAME_SIZE\<close>, and
  the bytes consumed are that frame's encoding up to the four reserved header bytes.
\<close>

theorem feed_accepts_only_encodings:
  assumes "feed parser_new input = (Inr (Some f), p', rest)"
  shows "frame_ok f
    \<and> (\<exists>reserved. length reserved = 4 \<and> input = header_bytes (header f) reserved @ payload f @ rest)"
  using feed_sound [OF assms] by blast

theorem feed_accepts_only_encodings_witness:
  "feed parser_new (encode_of demo_frame) = (Inr (Some demo_frame), parser_new, [])
   \<and> frame_ok demo_frame"
proof -
  have f: "feed parser_new (encode_of demo_frame) = (Inr (Some demo_frame), parser_new, [])"
    using feed_encode_of [OF demo_frame_ok, of "[]"] by simp
  show ?thesis
    using f feed_accepts_only_encodings [OF f] by (intro conjI) simp_all
qed

text \<open>
  C27: Whatever bytes arrive, between two reads the parser keeps its invariant: the header buffer has
  24 bytes of which fewer than 24 are filled, a pending payload is shorter than its announced
  length and that length is at most 16 MiB, so the two length subtractions of \<open>feed\<close> never
  underflow and the parser never buffers more than \<open>MAX_FRAME_SIZE\<close> bytes; the input buffer is
  always consumed completely.
\<close>

theorem drain_bounded:
  assumes "drain parser_new input = (fs, None, p', rest)"
  shows "rest = [] \<and> parser_ok p'
    \<and> (\<forall>hdr buf. p' = Payload hdr buf \<longrightarrow> length buf < 16 * 1024 * 1024)"
proof -
  from drain_None [OF assms] have "rest = []" "parser_ok p'" by simp_all
  then show ?thesis
    by (auto simp: word_le_nat_alt unat_MAX_FRAME_SIZE)
qed

theorem drain_bounded_witness:
  "\<exists>p'. drain parser_new [0x4B] = ([], None, p', []) \<and> parser_ok p'"
proof -
  have "\<exists>p'. feed parser_new [0x4B] = (Inr None, p', [])"
    by (simp add: parser_new_def feed_header_alt HEADER_LEN_def)
  then obtain p' where d: "drain parser_new [0x4B] = ([], None, p', [])"
    by (auto simp: drain.simps [of parser_new])
  show ?thesis
    using d drain_bounded [OF d] by (intro exI [of _ p']) simp
qed

lemma feed_encode_frame:
  assumes "flags_from_bits flags = Some flags" and "length pl \<le> unat MAX_FRAME_SIZE"
  shows "feed parser_new (encode_frame op flags req_id pl @ rest) =
    (Inr (Some \<lparr>header = \<lparr>hdr_version = VERSION_V1, hdr_op = op, hdr_flags = flags,
       hdr_req_id = req_id, hdr_payload_len = of_nat (length pl)\<rparr>, payload = pl\<rparr>), parser_new, rest)"
    (is "_ = (Inr (Some ?f), _, _)")
proof -
  have "frame_ok ?f" "encode_frame op flags req_id pl = encode_of ?f"
    using assms by (simp_all add: frame_ok_def encode_frame_def encode_of_def)
  then show ?thesis
    using feed_encode_of [of ?f rest] by simp
qed

lemma flags_empty_ok [simp]: "flags_from_bits flags_empty = Some flags_empty"
  by (simp add: flags_empty_def flags_from_bits_def)

end
