(* ===== verification/Proto_Request.thy ===== *)
theory Proto_Request
  imports Proto_Frame
begin

text \<open>
  Request payloads of the native protocol (\<open>crates/skeg-proto/src/request.rs\<close>): the client-side
  encoders and the server-side decoders of GET, SET, DEL and MGET. Lengths are truncated by
  \<open>as u16\<close> / \<open>as u32\<close> exactly as in the source; the round trips carry the size bounds under which
  nothing is truncated.
\<close>

subsection \<open>Encoding\<close>

definition encode_ping :: "u64 \<Rightarrow> bytes" where
  "encode_ping req_id = encode_frame OpPing flags_empty req_id []"

definition encode_stats :: "u64 \<Rightarrow> bytes" where
  "encode_stats req_id = encode_frame OpStats flags_empty req_id []"

definition encode_shards :: "u64 \<Rightarrow> bytes" where
  "encode_shards req_id = encode_frame OpShards flags_empty req_id []"

definition encode_native_hello :: "u64 \<Rightarrow> bytes" where
  "encode_native_hello req_id = encode_frame_versioned VERSION_V2 OpNativeHello flags_empty req_id []"

definition put_key :: "bytes \<Rightarrow> bytes" where
  "put_key key = u16_to_le (of_nat (length key)) @ key"

definition encode_get :: "u64 \<Rightarrow> bytes \<Rightarrow> bytes" where
  "encode_get req_id key = encode_frame OpGet flags_empty req_id (put_key key)"

definition encode_set :: "u64 \<Rightarrow> bytes \<Rightarrow> bytes \<Rightarrow> u32 \<Rightarrow> bytes" where
  "encode_set req_id key val flags =
    encode_frame OpSet flags req_id
      (u16_to_le (of_nat (length key)) @ u32_to_le (of_nat (length val)) @ key @ val)"

definition encode_del :: "u64 \<Rightarrow> bytes \<Rightarrow> bytes" where
  "encode_del req_id key = encode_frame OpDel flags_empty req_id (put_key key)"

definition encode_mget :: "u64 \<Rightarrow> bytes list \<Rightarrow> bytes" where
  "encode_mget req_id keys =
    encode_frame OpMget flags_empty req_id
      (u32_to_le (of_nat (length keys)) @ concat (map put_key keys))"

subsection \<open>Decoding\<close>

definition decode_key_payload :: "bytes \<Rightarrow> parse_error + bytes" where
  "decode_key_payload pl =
    (if length pl < 2 then Inl (InvalidPayload ''key payload too short'')
     else let key_len = unat (u16_from_le (bslice 0 2 pl)) in
       if length pl < 2 + key_len then Inl (InvalidPayload ''key payload truncated'')
       else Inr (bslice 2 (2 + key_len) pl))"

definition decode_set_payload :: "bytes \<Rightarrow> parse_error + (bytes \<times> bytes)" where
  "decode_set_payload pl =
    (if length pl < 6 then Inl (InvalidPayload ''set payload too short'')
     else let key_len = unat (u16_from_le (bslice 0 2 pl));
              val_len = unat (u32_from_le (bslice 2 6 pl));
              needed = 6 + key_len + val_len in
       if length pl < needed then Inl (InvalidPayload ''set payload truncated'')
       else Inr (bslice 6 (6 + key_len) pl, bslice (6 + key_len) needed pl))"

text \<open>One iteration of the key loop of \<open>decode_mget_payload\<close> at cursor \<open>pos\<close>.\<close>

definition mget_key_at :: "bytes \<Rightarrow> nat \<Rightarrow> parse_error + (bytes \<times> nat)" where
  "mget_key_at pl pos =
    (if pos + 2 > length pl then Inl (InvalidPayload ''mget key header truncated'')
     else let key_len = unat (u16_from_le (bslice pos (pos + 2) pl)); pos = pos + 2 in
       if pos + key_len > length pl then Inl (InvalidPayload ''mget key truncated'')
       else Inr (bslice pos (pos + key_len) pl, pos + key_len))"

definition decode_mget_payload :: "bytes \<Rightarrow> parse_error + bytes list" where
  "decode_mget_payload pl =
    (if length pl < 4 then Inl (InvalidPayload ''mget payload too short'')
     else let n = unat (u32_from_le (bslice 0 4 pl)); max_n = (length pl - 4) div 2 in
       if n > max_n then Inl (InvalidPayload ''mget count exceeds payload'')
       else for_try n (mget_key_at pl) 4)"

subsection \<open>Round trips\<close>

lemma length_put_key [simp]: "length (put_key k) = 2 + length k"
  by (simp add: put_key_def)

lemma mget_key_at_put:
  assumes "length k < 65536"
  shows "mget_key_at (pre @ put_key k @ post) (length pre) = Inr (k, length pre + length (put_key k))"
proof -
  let ?pl = "pre @ u16_to_le (of_nat (length k)) @ k @ post"
  have h: "bslice (length pre) (length pre + 2) ?pl = u16_to_le (of_nat (length k))"
    by (rule bslice_at) simp_all
  have b: "bslice (length pre + 2) (length pre + 2 + length k) ?pl = k"
    using bslice_at [of "length pre + 2" "pre @ u16_to_le (of_nat (length k))"
        "length pre + 2 + length k" k post] by simp
  show ?thesis
    using assms by (simp add: mget_key_at_def put_key_def h b unat_of_nat_small Let_def)
qed

interpretation mget_codec: cursor_codec_try put_key mget_key_at "\<lambda>k. length k < 65536"
  by unfold_locales (rule mget_key_at_put)

lemma decode_key_put:
  assumes "length k < 65536"
  shows "decode_key_payload (put_key k @ extra) = Inr k"
  using assms
  by (simp add: decode_key_payload_def put_key_def bslice_prefix bslice_after bslice_prefix
      unat_of_nat_small)

lemma length_concat_put_key: "2 * length ks \<le> length (concat (map put_key ks))"
  by (induction ks) auto

lemma decode_mget_put:
  assumes "list_all (\<lambda>k. length k < 65536) keys" and "length keys < 2 ^ 32"
  shows "decode_mget_payload (u32_to_le (of_nat (length keys)) @ concat (map put_key keys)) = Inr keys"
proof -
  let ?h = "u32_to_le (of_nat (length keys))"
  have n: "unat (u32_from_le (bslice 0 4 (?h @ concat (map put_key keys)))) = length keys"
    using assms(2) by (simp add: bslice_prefix unat_of_nat_small)
  have "for_try (length keys) (mget_key_at (?h @ concat (map put_key keys) @ [])) 4 = Inr keys"
    by (rule mget_codec.for_try_put) (use assms in simp_all)
  then show ?thesis
    using length_concat_put_key [of keys] by (simp add: decode_mget_payload_def n Let_def)
qed

lemma decode_set_put:
  assumes "length k < 65536" and "length v < 2 ^ 32"
  shows "decode_set_payload (u16_to_le (of_nat (length k)) @ u32_to_le (of_nat (length v)) @ k @ v)
    = Inr (k, v)"
proof -
  let ?a = "u16_to_le (of_nat (length k))" and ?b = "u32_to_le (of_nat (length v))"
  have 1: "bslice 0 2 (?a @ ?b @ k @ v) = ?a" "bslice 2 6 (?a @ ?b @ k @ v) = ?b"
    by (simp_all add: bslice_prefix bslice_after)
  have 2: "bslice 6 (6 + length k) (?a @ ?b @ k @ v) = k"
    using bslice_at [of 6 "?a @ ?b" "6 + length k" k v] by simp
  have 3: "bslice (6 + length k) (6 + length k + length v) (?a @ ?b @ k @ v) = v"
    using bslice_at [of "6 + length k" "?a @ ?b @ k" "6 + length k + length v" v "[]"] by simp
  show ?thesis
    using assms by (simp add: decode_set_payload_def Let_def 1 2 3 unat_of_nat_small)
qed

subsection \<open>Properties\<close>

text \<open>
  A SET request survives the wire: for a key under 64 KiB and a frame within the size limit, what
  the server decodes from the frame of \<open>encode_set\<close> is the key, the value, the flags and the request
  id the client passed.
\<close>

theorem encode_set_roundtrip:
  assumes "length key < 65536" and "6 + length key + length val \<le> 16777216"
    and "flags_from_bits flags = Some flags"
  shows "\<exists>f. feed parser_new (encode_set req_id key val flags @ rest) = (Inr (Some f), parser_new, rest)
    \<and> hdr_op (header f) = OpSet \<and> hdr_flags (header f) = flags \<and> hdr_req_id (header f) = req_id
    \<and> decode_set_payload (payload f) = Inr (key, val)"
  using assms decode_set_put [of key val]
  by (simp add: encode_set_def feed_encode_frame unat_MAX_FRAME_SIZE)

theorem encode_set_roundtrip_witness:
  "\<exists>f. feed parser_new (encode_set 9 [107] [1, 2, 3] NO_REPLY @ []) = (Inr (Some f), parser_new, [])
    \<and> decode_set_payload (payload f) = Inr ([107], [1, 2, 3])"
proof -
  have "flags_from_bits NO_REPLY = Some NO_REPLY"
    by (simp add: flags_from_bits_def flags_all_eq NO_REPLY_def)
  from encode_set_roundtrip [OF _ _ this, of "[107]" "[1, 2, 3]" 9 "[]"] show ?thesis
    by auto
qed

text \<open>
  An MGET request survives the wire: any list of keys, each under 64 KiB, whose frame is within the
  size limit decodes to itself, in order and with duplicates.
\<close>

theorem encode_mget_roundtrip:
  assumes "list_all (\<lambda>k. length k < 65536) keys"
    and "4 + length (concat (map put_key keys)) \<le> 16777216"
  shows "\<exists>f. feed parser_new (encode_mget req_id keys @ rest) = (Inr (Some f), parser_new, rest)
    \<and> hdr_op (header f) = OpMget \<and> hdr_req_id (header f) = req_id
    \<and> decode_mget_payload (payload f) = Inr keys"
proof -
  have "length keys < 2 ^ 32"
    using assms(2) length_concat_put_key [of keys] by simp
  then show ?thesis
    using assms decode_mget_put [of keys]
    by (simp add: encode_mget_def feed_encode_frame unat_MAX_FRAME_SIZE)
qed

theorem encode_mget_roundtrip_witness:
  "\<exists>f. feed parser_new (encode_mget 1 [[97], [], [97]] @ [5]) = (Inr (Some f), parser_new, [5])
    \<and> decode_mget_payload (payload f) = Inr [[97], [], [97]]"
  using encode_mget_roundtrip [of "[[97], [], [97]]" 1 "[5]"] by (auto simp: put_key_def)

lemma mget_key_at_bounds:
  "mget_key_at pl pos = Inr (k, pos') \<Longrightarrow> pos' \<le> length pl \<and> pos' = pos + 2 + length k"
  by (auto simp: mget_key_at_def Let_def split: if_splits)

lemma for_try_mget_total:
  "for_try n (mget_key_at pl) pos = Inr ks \<Longrightarrow> pos \<le> length pl \<Longrightarrow>
     pos + sum_list (map (\<lambda>k. 2 + length k) ks) \<le> length pl"
proof (induction n arbitrary: pos ks)
  case (Suc n)
  then obtain k pos' ks' where k: "mget_key_at pl pos = Inr (k, pos')"
    and ks': "for_try n (mget_key_at pl) pos' = Inr ks'" and ks: "ks = k # ks'"
    by (auto simp: and_then_eq_Inr split: prod.splits)
  from mget_key_at_bounds [OF k] Suc.IH [OF ks'] show ?case
    by (simp add: ks)
qed simp

text \<open>
  No MGET payload makes the server reserve more than it received: whenever decoding starts the
  loop, the announced count is at most half the payload's bytes, and a successful decode returns
  exactly the announced number of keys, all of them pieces of the payload.
\<close>

theorem decode_mget_bounded:
  assumes "decode_mget_payload pl = Inr keys"
  shows "length keys = unat (u32_from_le (bslice 0 4 pl))
    \<and> length keys \<le> (length pl - 4) div 2
    \<and> 4 + sum_list (map (\<lambda>k. 2 + length k) keys) \<le> length pl"
  using assms for_try_length [of _ "mget_key_at pl" 4 keys] for_try_mget_total [of _ pl 4 keys]
  by (auto simp: decode_mget_payload_def Let_def split: if_splits)

theorem decode_mget_bounded_witness:
  "decode_mget_payload [1, 0, 0, 0, 1, 0, 65] = Inr [[65]]
   \<and> length [[65 :: u8]] \<le> (length [1, 0, 0, 0, 1, 0, 65 :: u8] - 4) div 2"
proof -
  have d: "decode_mget_payload [1, 0, 0, 0, 1, 0, 65] = Inr [[65]]"
    by code_simp
  show ?thesis
    using d decode_mget_bounded [OF d] by simp
qed

end
