(* ===== verification/Utf8.thy ===== *)
theory Utf8
  imports Prelude
begin

text \<open>
  The two UTF-8 entry points of Rust's standard library the sources call: \<open>str::from_utf8\<close>
  (validation) and \<open>String::from_utf8_lossy\<close> (every maximal invalid chunk becomes U+FFFD). Both
  walk the bytes one scalar value at a time; \<open>utf8_step\<close> is one step of that walk, giving how many
  bytes it takes and whether they form a scalar value. A string of the model is its UTF-8 bytes.
\<close>

definition get0 :: "bytes \<Rightarrow> nat \<Rightarrow> u8" where
  "get0 bs i = (if i < length bs then bs ! i else 0)"

definition is_cont :: "u8 \<Rightarrow> bool" where
  "is_cont b \<longleftrightarrow> b AND 192 = 128"

definition utf8_char_width :: "u8 \<Rightarrow> nat" where
  "utf8_char_width b =
    (if b < 0x80 then 1
     else if 0xC2 \<le> b \<and> b \<le> 0xDF then 2
     else if 0xE0 \<le> b \<and> b \<le> 0xEF then 3
     else if 0xF0 \<le> b \<and> b \<le> 0xF4 then 4
     else 0)"

definition second3_ok :: "u8 \<Rightarrow> u8 \<Rightarrow> bool" where
  "second3_ok b c \<longleftrightarrow>
     (b = 0xE0 \<and> 0xA0 \<le> c \<and> c \<le> 0xBF) \<or> (0xE1 \<le> b \<and> b \<le> 0xEC \<and> 0x80 \<le> c \<and> c \<le> 0xBF)
     \<or> (b = 0xED \<and> 0x80 \<le> c \<and> c \<le> 0x9F) \<or> (0xEE \<le> b \<and> b \<le> 0xEF \<and> 0x80 \<le> c \<and> c \<le> 0xBF)"

definition second4_ok :: "u8 \<Rightarrow> u8 \<Rightarrow> bool" where
  "second4_ok b c \<longleftrightarrow>
     (b = 0xF0 \<and> 0x90 \<le> c \<and> c \<le> 0xBF) \<or> (0xF1 \<le> b \<and> b \<le> 0xF3 \<and> 0x80 \<le> c \<and> c \<le> 0xBF)
     \<or> (b = 0xF4 \<and> 0x80 \<le> c \<and> c \<le> 0x8F)"

text \<open>One step on a non-empty input: \<open>(bytes taken, valid)\<close>.\<close>

definition utf8_step :: "bytes \<Rightarrow> nat \<times> bool" where
  "utf8_step bs =
    (let b = get0 bs 0 in
     case utf8_char_width b of
       0 \<Rightarrow> (1, False)
     | Suc 0 \<Rightarrow> (1, True)
     | Suc (Suc 0) \<Rightarrow> if is_cont (get0 bs 1) then (2, True) else (1, False)
     | Suc (Suc (Suc 0)) \<Rightarrow>
         if \<not> second3_ok b (get0 bs 1) then (1, False)
         else if \<not> is_cont (get0 bs 2) then (2, False) else (3, True)
     | _ \<Rightarrow>
         if \<not> second4_ok b (get0 bs 1) then (1, False)
         else if \<not> is_cont (get0 bs 2) then (2, False)
         else if \<not> is_cont (get0 bs 3) then (3, False) else (4, True))"

lemma utf8_step_pos: "0 < fst (utf8_step bs)"
  by (simp add: utf8_step_def Let_def split: nat.split)

lemma utf8_step_taken: "(n, ok) = utf8_step bs \<Longrightarrow> \<exists>m. n = Suc m"
  using utf8_step_pos [of bs] by (cases "utf8_step bs"; cases n) auto

function utf8_valid :: "bytes \<Rightarrow> bool" where
  "utf8_valid [] = True"
| "utf8_valid (b # bs) =
     (case utf8_step (b # bs) of (n, ok) \<Rightarrow> ok \<and> utf8_valid (drop n (b # bs)))"
  by pat_completeness auto
termination
  by (relation "measure length") (auto dest!: utf8_step_taken)

definition replacement_char :: bytes where
  "replacement_char = [0xEF, 0xBF, 0xBD]"

function from_utf8_lossy :: "bytes \<Rightarrow> bytes" where
  "from_utf8_lossy [] = []"
| "from_utf8_lossy (b # bs) =
     (case utf8_step (b # bs) of (n, ok) \<Rightarrow>
        (if ok then take n (b # bs) else replacement_char) @ from_utf8_lossy (drop n (b # bs)))"
  by pat_completeness auto
termination
  by (relation "measure length") (auto dest!: utf8_step_taken)

definition from_utf8 :: "bytes \<Rightarrow> bytes option" where
  "from_utf8 bs = (if utf8_valid bs then Some bs else None)"

lemma from_utf8_lossy_valid: "utf8_valid bs \<Longrightarrow> from_utf8_lossy bs = bs"
  by (induction bs rule: utf8_valid.induct) (auto split: prod.splits)

definition ascii :: "bytes \<Rightarrow> bool" where
  "ascii bs \<longleftrightarrow> list_all (\<lambda>b. b < 0x80) bs"

lemma utf8_step_ascii: "b < 0x80 \<Longrightarrow> utf8_step (b # bs) = (1, True)"
  by (simp add: utf8_step_def get0_def utf8_char_width_def)

lemma utf8_valid_ascii: "ascii bs \<Longrightarrow> utf8_valid bs"
  by (induction bs) (auto simp: ascii_def utf8_step_ascii)

end
