(* ===== verification/Proto_Vector.thy ===== *)
theory Proto_Vector
  imports Proto_Frame Utf8
begin

text \<open>
  Wire codecs of the vector ops (\<open>crates/skeg-proto/src/vector.rs\<close>). An \<open>f32\<close> travels as its 32
  bits, so a vector of the model is a list of 32-bit words and \<open>f32::to_le_bytes\<close> /
  \<open>f32::from_le_bytes\<close> are the \<open>u32\<close> codecs on those bits.
\<close>

type_synonym f32_bits = u32

datatype native_vector_kind = F32 | Int8 | Binary | Tq1 | Tq2 | Tq4

fun kind_to_u8 :: "native_vector_kind \<Rightarrow> u8" where
  "kind_to_u8 F32 = 0"
| "kind_to_u8 Int8 = 1"
| "kind_to_u8 Binary = 2"
| "kind_to_u8 Tq1 = 3"
| "kind_to_u8 Tq2 = 4"
| "kind_to_u8 Tq4 = 5"

definition kind_try_from :: "u8 \<Rightarrow> u8 + native_vector_kind" where
  "kind_try_from v =
    (if v = 0 then Inr F32
     else if v = 1 then Inr Int8
     else if v = 2 then Inr Binary
     else if v = 3 then Inr Tq1
     else if v = 4 then Inr Tq2
     else if v = 5 then Inr Tq4
     else Inl v)"

subsection \<open>Helpers\<close>

definition put_name :: "bytes \<Rightarrow> bytes" where
  "put_name name = u16_to_le (of_nat (length name)) @ name"

definition f32_vec_to_bytes :: "f32_bits list \<Rightarrow> bytes" where
  "f32_vec_to_bytes v = concat (map u32_to_le v)"

definition put_f32_vec :: "f32_bits list \<Rightarrow> bytes" where
  "put_f32_vec v = u32_to_le (of_nat (length v)) @ concat (map u32_to_le v)"

text \<open>\<open>chunks_exact(4)\<close> drops an incomplete last chunk.\<close>

fun bytes_to_f32_vec :: "bytes \<Rightarrow> f32_bits list" where
  "bytes_to_f32_vec (a # b # c # d # rest) = u32_from_le [a, b, c, d] # bytes_to_f32_vec rest"
| "bytes_to_f32_vec _ = []"

definition read_name :: "bytes \<Rightarrow> nat \<Rightarrow> parse_error + (bytes \<times> nat)" where
  "read_name pl pos =
    (if pos + 2 > length pl then Inl (InvalidPayload ''vector name header truncated'')
     else let len = unat (u16_from_le (bslice pos (pos + 2) pl)); start = pos + 2 in
       if start + len > length pl then Inl (InvalidPayload ''vector name truncated'')
       else Inr (bslice start (start + len) pl, start + len))"

definition read_f32_vec :: "bytes \<Rightarrow> nat \<Rightarrow> parse_error + (f32_bits list \<times> nat)" where
  "read_f32_vec pl pos =
    (if pos + 4 > length pl then Inl (InvalidPayload ''vector dim header truncated'')
     else let dim = unat (u32_from_le (bslice pos (pos + 4) pl)); start = pos + 4;
              end' = start + dim * 4 in
       if end' > length pl then Inl (InvalidPayload ''vector body truncated'')
       else Inr (bytes_to_f32_vec (bslice start end' pl), end'))"

definition read_u64 :: "bytes \<Rightarrow> nat \<Rightarrow> parse_error + u64" where
  "read_u64 pl pos =
    (if pos + 8 > length pl then Inl (InvalidPayload ''vector u64 field truncated'')
     else Inr (u64_from_le (bslice pos (pos + 8) pl)))"

definition read_u32 :: "bytes \<Rightarrow> nat \<Rightarrow> parse_error + u32" where
  "read_u32 pl pos =
    (if pos + 4 > length pl then Inl (InvalidPayload ''vector u32 field truncated'')
     else Inr (u32_from_le (bslice pos (pos + 4) pl)))"

subsection \<open>Encoding (client side)\<close>

definition encode_vindex_create :: "u64 \<Rightarrow> bytes \<Rightarrow> u32 \<Rightarrow> u8 \<Rightarrow> u8 \<Rightarrow> bytes" where
  "encode_vindex_create req_id name dim kind backend =
    encode_frame OpVindexCreate flags_empty req_id (put_name name @ u32_to_le dim @ [kind] @ [backend])"

definition encode_vindex_drop :: "u64 \<Rightarrow> bytes \<Rightarrow> bytes" where
  "encode_vindex_drop req_id name = encode_frame OpVindexDrop flags_empty req_id (put_name name)"

definition encode_vindex_list :: "u64 \<Rightarrow> bytes" where
  "encode_vindex_list req_id = encode_frame OpVindexList flags_empty req_id []"

definition encode_vset :: "u64 \<Rightarrow> bytes \<Rightarrow> u64 \<Rightarrow> f32_bits list \<Rightarrow> u32 \<Rightarrow> bytes" where
  "encode_vset req_id name vec_id vec flags =
    encode_frame OpVset flags req_id (put_name name @ u64_to_le vec_id @ put_f32_vec vec)"

definition encode_vget :: "u64 \<Rightarrow> bytes \<Rightarrow> u64 \<Rightarrow> bytes" where
  "encode_vget req_id name vec_id =
    encode_frame OpVget flags_empty req_id (put_name name @ u64_to_le vec_id)"

definition encode_vdel :: "u64 \<Rightarrow> bytes \<Rightarrow> u64 \<Rightarrow> bytes" where
  "encode_vdel req_id name vec_id =
    encode_frame OpVdel flags_empty req_id (put_name name @ u64_to_le vec_id)"

definition encode_vsearch :: "u64 \<Rightarrow> bytes \<Rightarrow> u32 \<Rightarrow> f32_bits list \<Rightarrow> bytes" where
  "encode_vsearch req_id name k query =
    encode_frame OpVsearch flags_empty req_id (put_name name @ u32_to_le k @ put_f32_vec query)"

definition put_hit :: "u64 \<times> f32_bits \<Rightarrow> bytes" where
  "put_hit h = u64_to_le (fst h) @ u32_to_le (snd h)"

definition encode_ok_vsearch :: "u64 \<Rightarrow> (u64 \<times> f32_bits) list \<Rightarrow> bytes" where
  "encode_ok_vsearch req_id hits =
    encode_frame OpOk flags_empty req_id (u32_to_le (of_nat (length hits)) @ concat (map put_hit hits))"

subsection \<open>Decoding (server side)\<close>

definition decode_vindex_create_payload :: "bytes \<Rightarrow> parse_error + (bytes \<times> u32 \<times> u8 \<times> u8)" where
  "decode_vindex_create_payload pl =
    and_then (read_name pl 0) (\<lambda>(name, pos).
    and_then (read_u32 pl pos) (\<lambda>dim.
    and_then (if pos + 4 < length pl then Inr (pl ! (pos + 4))
              else Inl (InvalidPayload ''vindex kind byte missing'')) (\<lambda>kind.
    and_then (if pos + 5 < length pl then Inr (pl ! (pos + 5))
              else Inl (InvalidPayload ''vindex backend byte missing'')) (\<lambda>backend.
    Inr (name, dim, kind, backend)))))"

definition decode_vname_payload :: "bytes \<Rightarrow> parse_error + bytes" where
  "decode_vname_payload pl = and_then (read_name pl 0) (\<lambda>(name, _). Inr name)"

definition decode_vname_id_payload :: "bytes \<Rightarrow> parse_error + (bytes \<times> u64)" where
  "decode_vname_id_payload pl =
    and_then (read_name pl 0) (\<lambda>(name, pos).
    and_then (read_u64 pl pos) (\<lambda>id. Inr (name, id)))"

definition decode_vset_payload :: "bytes \<Rightarrow> parse_error + (bytes \<times> u64 \<times> f32_bits list)" where
  "decode_vset_payload pl =
    and_then (read_name pl 0) (\<lambda>(name, pos).
    and_then (read_u64 pl pos) (\<lambda>id.
    and_then (read_f32_vec pl (pos + 8)) (\<lambda>(vec, _). Inr (name, id, vec))))"

definition decode_vsearch_payload :: "bytes \<Rightarrow> parse_error + (bytes \<times> u32 \<times> f32_bits list \<times> u32)" where
  "decode_vsearch_payload pl =
    and_then (read_name pl 0) (\<lambda>(name, pos).
    and_then (read_u32 pl pos) (\<lambda>k.
    and_then (read_f32_vec pl (pos + 4)) (\<lambda>(query, end').
    let l_search = (case read_u32 pl end' of Inl _ \<Rightarrow> 0 | Inr l \<Rightarrow> l) in
    Inr (name, k, query, l_search))))"

definition hit_at :: "bytes \<Rightarrow> nat \<Rightarrow> ((u64 \<times> f32_bits) \<times> nat) option" where
  "hit_at pl pos =
    (if pos + 12 > length pl then None
     else Some ((u64_from_le (bslice pos (pos + 8) pl), u32_from_le (bslice (pos + 8) (pos + 12) pl)),
                pos + 12))"

definition decode_vsearch_response :: "bytes \<Rightarrow> (u64 \<times> f32_bits) list" where
  "decode_vsearch_response pl =
    (if length pl < 4 then []
     else for_break (unat (u32_from_le (bslice 0 4 pl))) (hit_at pl) 4)"

subsection \<open>Round trips\<close>

lemma kind_try_from_to_u8 [simp]: "kind_try_from (kind_to_u8 k) = Inr k"
  by (cases k) (simp_all add: kind_try_from_def)

lemma length_put_name [simp]: "length (put_name n) = 2 + length n"
  by (simp add: put_name_def)

lemma length_f32_vec [simp]: "length (concat (map u32_to_le v)) = 4 * length v"
  by (induction v) simp_all

lemma length_put_f32_vec [simp]: "length (put_f32_vec v) = 4 + 4 * length v"
  by (simp add: put_f32_vec_def)

lemma length_4_exp: "length bs = 4 \<Longrightarrow> \<exists>a b c d. bs = [a, b, c, d]"
  by (auto simp: length_Suc_conv eval_nat_numeral)

lemma bytes_to_f32_vec_cons: "bytes_to_f32_vec (u32_to_le x @ rest) = x # bytes_to_f32_vec rest"
proof -
  obtain a b c d where e: "u32_to_le x = [a, b, c, d]"
    using length_4_exp [OF length_u32_to_le] by blast
  then show ?thesis
    using u32_from_to_le [of x] by simp
qed

lemma bytes_to_f32_vec_concat [simp]: "bytes_to_f32_vec (concat (map u32_to_le v)) = v"
  by (induction v) (simp_all add: bytes_to_f32_vec_cons)

lemma read_name_put:
  assumes "length n < 65536"
  shows "read_name (put_name n @ post) 0 = Inr (n, 2 + length n)"
  using assms
  by (simp add: read_name_def put_name_def bslice_prefix bslice_after unat_of_nat_small Let_def)

lemma read_u64_at:
  "pos = length pre \<Longrightarrow> read_u64 (pre @ u64_to_le w @ post) pos = Inr w"
  by (simp add: read_u64_def bslice_at)

lemma read_u32_at:
  "pos = length pre \<Longrightarrow> read_u32 (pre @ u32_to_le w @ post) pos = Inr w"
  by (simp add: read_u32_def bslice_at)

lemma read_f32_vec_at:
  assumes "pos = length pre" and "length v < 2 ^ 32"
  shows "read_f32_vec (pre @ put_f32_vec v @ post) pos = Inr (v, pos + 4 + 4 * length v)"
proof -
  let ?h = "u32_to_le (of_nat (length v))" and ?b = "concat (map u32_to_le v)"
  have 1: "bslice pos (pos + 4) (pre @ ?h @ ?b @ post) = ?h"
    using assms(1) by (simp add: bslice_at)
  have 2: "bslice (pos + 4) (pos + 4 + length v * 4) (pre @ ?h @ ?b @ post) = ?b"
    using bslice_at [of "pos + 4" "pre @ ?h" "pos + 4 + length v * 4" ?b post] assms(1) by simp
  show ?thesis
    using assms 1 2
    by (simp add: read_f32_vec_def put_f32_vec_def Let_def unat_of_nat_small)
qed

lemma length_put_hit [simp]: "length (put_hit h) = 12"
  by (simp add: put_hit_def)

lemma hit_at_put: "hit_at (pre @ put_hit h @ post) (length pre) = Some (h, length pre + length (put_hit h))"
proof -
  have "bslice (length pre) (length pre + 8) (pre @ put_hit h @ post) = u64_to_le (fst h)"
    by (simp add: put_hit_def bslice_at)
  moreover have "bslice (length pre + 8) (length pre + 12) (pre @ put_hit h @ post) = u32_to_le (snd h)"
    using bslice_at [of "length pre + 8" "pre @ u64_to_le (fst h)" "length pre + 12" "u32_to_le (snd h)" post]
    by (simp add: put_hit_def)
  ultimately show ?thesis
    by (simp add: hit_at_def)
qed

interpretation hit_codec: cursor_codec put_hit hit_at "\<lambda>_. True"
  by unfold_locales (rule hit_at_put)

lemma decode_vset_put:
  assumes "length n < 65536" and "length v < 2 ^ 32"
  shows "decode_vset_payload (put_name n @ u64_to_le i @ put_f32_vec v @ post) = Inr (n, i, v)"
  using assms read_name_put [of n "u64_to_le i @ put_f32_vec v @ post"]
    read_u64_at [of "2 + length n" "put_name n" i "put_f32_vec v @ post"]
    read_f32_vec_at [of "2 + length n + 8" "put_name n @ u64_to_le i" v post]
  by (simp add: decode_vset_payload_def)

lemma decode_vsearch_put:
  assumes "length n < 65536" and "length q < 2 ^ 32"
  shows "decode_vsearch_payload (put_name n @ u32_to_le k @ put_f32_vec q) = Inr (n, k, q, 0)"
    and "decode_vsearch_payload (put_name n @ u32_to_le k @ put_f32_vec q @ u32_to_le l) = Inr (n, k, q, l)"
proof -
  have *: "read_name (put_name n @ u32_to_le k @ put_f32_vec q @ post) 0 = Inr (n, 2 + length n)"
    "read_u32 (put_name n @ u32_to_le k @ put_f32_vec q @ post) (2 + length n) = Inr k"
    "read_f32_vec (put_name n @ u32_to_le k @ put_f32_vec q @ post) (2 + length n + 4)
       = Inr (q, 2 + length n + 4 + 4 + 4 * length q)" for post
    using assms read_name_put [of n "u32_to_le k @ put_f32_vec q @ post"]
      read_u32_at [of "2 + length n" "put_name n" k "put_f32_vec q @ post"]
      read_f32_vec_at [of "2 + length n + 4" "put_name n @ u32_to_le k" q post]
    by simp_all
  show "decode_vsearch_payload (put_name n @ u32_to_le k @ put_f32_vec q) = Inr (n, k, q, 0)"
    using * [of "[]"] by (simp add: decode_vsearch_payload_def read_u32_def)
  have "read_u32 (put_name n @ u32_to_le k @ put_f32_vec q @ u32_to_le l) (2 + length n + 4 + 4 + 4 * length q) = Inr l"
    using read_u32_at [of "2 + length n + 4 + 4 + 4 * length q" "put_name n @ u32_to_le k @ put_f32_vec q" l "[]"]
    by simp
  then show "decode_vsearch_payload (put_name n @ u32_to_le k @ put_f32_vec q @ u32_to_le l) = Inr (n, k, q, l)"
    using * [of "u32_to_le l"] by (simp add: decode_vsearch_payload_def)
qed

lemma decode_vindex_create_put:
  assumes "length n < 65536"
  shows "decode_vindex_create_payload (put_name n @ u32_to_le dim @ [kind] @ [backend]) = Inr (n, dim, kind, backend)"
proof -
  let ?pl = "put_name n @ u32_to_le dim @ [kind] @ [backend]"
  have "read_u32 ?pl (2 + length n) = Inr dim"
    using read_u32_at [of "2 + length n" "put_name n" dim "[kind] @ [backend]"] by simp
  moreover have "?pl ! (2 + length n + 4) = kind" "?pl ! (2 + length n + 5) = backend"
    by (simp_all add: nth_append)
  ultimately show ?thesis
    using read_name_put [OF assms, of "u32_to_le dim @ [kind] @ [backend]"]
    by (simp add: decode_vindex_create_payload_def)
qed

lemma decode_vname_id_put:
  assumes "length n < 65536"
  shows "decode_vname_id_payload (put_name n @ u64_to_le i) = Inr (n, i)"
  using assms read_name_put [of n "u64_to_le i"] read_u64_at [of "2 + length n" "put_name n" i "[]"]
  by (simp add: decode_vname_id_payload_def)

subsection \<open>Properties\<close>

text \<open>
  C28: A VSET request survives the wire bit for bit: within the frame limit, the server decodes the
  index name, the vector id and every component's 32 bits (NaN payloads and signed zeros included).
\<close>

theorem encode_vset_roundtrip:
  assumes "length name < 65536" and "14 + length name + 4 * length vec \<le> 16777216"
    and "flags_from_bits flags = Some flags"
  shows "\<exists>f. feed parser_new (encode_vset req_id name vec_id vec flags @ rest) = (Inr (Some f), parser_new, rest)
    \<and> hdr_op (header f) = OpVset \<and> hdr_req_id (header f) = req_id
    \<and> decode_vset_payload (payload f) = Inr (name, vec_id, vec)"
  using assms decode_vset_put [of name vec vec_id "[]"]
  by (simp add: encode_vset_def feed_encode_frame unat_MAX_FRAME_SIZE)

theorem encode_vset_roundtrip_witness:
  "\<exists>f. feed parser_new (encode_vset 3 [100] 42 [0x3F800000, 0x7FC00001] 0 @ []) = (Inr (Some f), parser_new, [])
    \<and> decode_vset_payload (payload f) = Inr ([100], 42, [0x3F800000, 0x7FC00001])"
proof -
  have "flags_from_bits 0 = Some 0"
    by (simp add: flags_from_bits_def)
  from encode_vset_roundtrip [OF _ _ this, of "[100]" "[0x3F800000, 0x7FC00001]" 3 42 "[]"]
  show ?thesis by auto
qed

text \<open>
  VSEARCH is backward compatible and its extension is honoured: a frame without the trailing field
  (what \<open>encode_vsearch\<close> sends) decodes to \<open>l_search = 0\<close>, the same payload with four more bytes
  decodes to those bytes, and everything else is read back unchanged in both cases.
\<close>

theorem decode_vsearch_l_search:
  assumes "length name < 65536" and "length query < 2 ^ 32"
  shows "decode_vsearch_payload (put_name name @ u32_to_le k @ put_f32_vec query) = Inr (name, k, query, 0)
    \<and> decode_vsearch_payload (put_name name @ u32_to_le k @ put_f32_vec query @ u32_to_le l)
      = Inr (name, k, query, l)"
  using decode_vsearch_put [OF assms] by blast

theorem decode_vsearch_l_search_witness:
  "decode_vsearch_payload (put_name [100] @ u32_to_le 10 @ put_f32_vec [1, 2] @ u32_to_le 64)
    = Inr ([100], 10, [1, 2], 64)"
  using decode_vsearch_l_search [of "[100]" "[1, 2]" 10 64] by simp

end
