(* ===== verification/Proto_Response.thy ===== *)
theory Proto_Response
  imports Proto_Vector
begin

text \<open>
  Response payloads of the native protocol (\<open>crates/skeg-proto/src/response.rs\<close>): the server-side
  encoders and the client-side decoders. A \<open>String\<close> is its UTF-8 bytes.
\<close>

datatype err_code = NotFound | InvalidRequest | Internal

fun err_code_to_u8 :: "err_code \<Rightarrow> u8" where
  "err_code_to_u8 NotFound = 0x01"
| "err_code_to_u8 InvalidRequest = 0x02"
| "err_code_to_u8 Internal = 0x03"

record native_capabilities =
  protocol_version :: u8
  vector_kind_mask :: u8

definition supports :: "native_capabilities \<Rightarrow> native_vector_kind \<Rightarrow> bool" where
  "supports self kind \<longleftrightarrow> vector_kind_mask self AND push_bit (unat (kind_to_u8 kind)) 1 \<noteq> 0"

record server_stats =
  ss_cache_bytes :: u64
  ss_cache_evictions :: u64
  ss_n_keys :: u64
  ss_cache_budget :: u64

record shard_stats =
  sh_shard_id :: u32
  sh_cache_bytes :: u64
  sh_cache_evictions :: u64
  sh_n_keys :: u64
  sh_cache_budget :: u64

record vindex_info =
  vi_name :: bytes
  vi_dim :: u32
  vi_kind :: u8
  vi_backend :: u8
  vi_n_vectors :: u64

subsection \<open>Encoding\<close>

definition encode_ok :: "u64 \<Rightarrow> bytes" where
  "encode_ok req_id = encode_frame OpOk flags_empty req_id []"

definition encode_ok_native_capabilities :: "u64 \<Rightarrow> native_capabilities \<Rightarrow> bytes" where
  "encode_ok_native_capabilities req_id c =
    encode_frame OpOk flags_empty req_id [protocol_version c, vector_kind_mask c]"

definition decode_native_capabilities_response :: "bytes \<Rightarrow> native_capabilities option" where
  "decode_native_capabilities_response pl =
    (case pl of [v, m] \<Rightarrow> Some \<lparr>protocol_version = v, vector_kind_mask = m\<rparr> | _ \<Rightarrow> None)"

definition encode_ok_value :: "u64 \<Rightarrow> bytes \<Rightarrow> bytes" where
  "encode_ok_value req_id v =
    encode_frame OpOk flags_empty req_id (u32_to_le (of_nat (length v)) @ v)"

definition encode_ok_u64 :: "u64 \<Rightarrow> u64 \<Rightarrow> bytes" where
  "encode_ok_u64 req_id v = encode_frame OpOk flags_empty req_id (u64_to_le v)"

definition encode_ok_bool :: "u64 \<Rightarrow> bool \<Rightarrow> bytes" where
  "encode_ok_bool req_id v = encode_frame OpOk flags_empty req_id [if v then 1 else 0]"

definition put_mget_result :: "bytes option \<Rightarrow> bytes" where
  "put_mget_result r =
    (case r of Some v \<Rightarrow> [0] @ u32_to_le (of_nat (length v)) @ v | None \<Rightarrow> [1])"

definition encode_ok_mget :: "u64 \<Rightarrow> bytes option list \<Rightarrow> bytes" where
  "encode_ok_mget req_id results =
    encode_frame OpOk flags_empty req_id
      (u32_to_le (of_nat (length results)) @ concat (map put_mget_result results))"

definition encode_ok_stats :: "u64 \<Rightarrow> server_stats \<Rightarrow> bytes" where
  "encode_ok_stats req_id s =
    encode_frame OpOk flags_empty req_id
      (u64_to_le (ss_cache_bytes s) @ u64_to_le (ss_cache_evictions s) @ u64_to_le (ss_n_keys s)
       @ u64_to_le (ss_cache_budget s))"

definition put_vindex_row :: "vindex_info \<Rightarrow> bytes" where
  "put_vindex_row r =
    u16_to_le (of_nat (length (vi_name r))) @ vi_name r @ u32_to_le (vi_dim r) @ [vi_kind r]
    @ [vi_backend r] @ u64_to_le (vi_n_vectors r)"

definition encode_ok_vindex_list :: "u64 \<Rightarrow> vindex_info list \<Rightarrow> bytes" where
  "encode_ok_vindex_list req_id rows =
    encode_frame OpOk flags_empty req_id
      (u32_to_le (of_nat (length rows)) @ concat (map put_vindex_row rows))"

definition put_shard_row :: "shard_stats \<Rightarrow> bytes" where
  "put_shard_row r =
    u32_to_le (sh_shard_id r) @ u64_to_le (sh_cache_bytes r) @ u64_to_le (sh_cache_evictions r)
    @ u64_to_le (sh_n_keys r) @ u64_to_le (sh_cache_budget r)"

definition encode_ok_shards :: "u64 \<Rightarrow> shard_stats list \<Rightarrow> bytes" where
  "encode_ok_shards req_id rows =
    encode_frame OpOk flags_empty req_id
      (u32_to_le (of_nat (length rows)) @ concat (map put_shard_row rows))"

definition encode_err :: "u64 \<Rightarrow> err_code \<Rightarrow> bytes \<Rightarrow> bytes" where
  "encode_err req_id code msg =
    (let msg_len = of_nat (min (length msg) 255) :: u8 in
     encode_frame OpErr flags_empty req_id
       ([err_code_to_u8 code] @ [msg_len] @ take (unat msg_len) msg))"

subsection \<open>Decoding\<close>

definition decode_value_response :: "bytes \<Rightarrow> bytes option" where
  "decode_value_response pl =
    (if length pl < 4 then None
     else let val_len = unat (u32_from_le (bslice 0 4 pl)) in
       if length pl < 4 + val_len then None else Some (bslice 4 (4 + val_len) pl))"

definition decode_bool_response :: "bytes \<Rightarrow> bool" where
  "decode_bool_response pl = ((case pl of [] \<Rightarrow> 0 | b # _ \<Rightarrow> b) \<noteq> 0)"

definition decode_u64_response :: "bytes \<Rightarrow> u64" where
  "decode_u64_response pl = (if length pl < 8 then 0 else u64_from_le (bslice 0 8 pl))"

definition vindex_row_at :: "bytes \<Rightarrow> nat \<Rightarrow> (vindex_info \<times> nat) option" where
  "vindex_row_at pl pos =
    (if pos + 2 > length pl then None
     else let nlen = unat (u16_from_le (bslice pos (pos + 2) pl)); pos = pos + 2 in
       if pos + nlen + 4 + 1 + 1 + 8 > length pl then None
       else let name = from_utf8_lossy (bslice pos (pos + nlen) pl); pos = pos + nlen;
                dim = u32_from_le (bslice pos (pos + 4) pl); pos = pos + 4;
                kind = pl ! pos; pos = pos + 1;
                backend = pl ! pos; pos = pos + 1;
                n_vectors = u64_from_le (bslice pos (pos + 8) pl) in
         Some (\<lparr>vi_name = name, vi_dim = dim, vi_kind = kind, vi_backend = backend,
                vi_n_vectors = n_vectors\<rparr>, pos + 8))"

definition decode_vindex_list_response :: "bytes \<Rightarrow> vindex_info list" where
  "decode_vindex_list_response pl =
    (if length pl < 4 then []
     else for_break (unat (u32_from_le (bslice 0 4 pl))) (vindex_row_at pl) 4)"

definition shard_row_at :: "bytes \<Rightarrow> nat \<Rightarrow> (shard_stats \<times> nat) option" where
  "shard_row_at pl pos =
    (if pos + 36 > length pl then None
     else Some (\<lparr>sh_shard_id = u32_from_le (bslice pos (pos + 4) pl),
                 sh_cache_bytes = u64_from_le (bslice (pos + 4) (pos + 12) pl),
                 sh_cache_evictions = u64_from_le (bslice (pos + 12) (pos + 20) pl),
                 sh_n_keys = u64_from_le (bslice (pos + 20) (pos + 28) pl),
                 sh_cache_budget = u64_from_le (bslice (pos + 28) (pos + 36) pl)\<rparr>, pos + 36))"

definition decode_shards_response :: "bytes \<Rightarrow> shard_stats list" where
  "decode_shards_response pl =
    (if length pl < 4 then []
     else for_break (unat (u32_from_le (bslice 0 4 pl))) (shard_row_at pl) 4)"

definition decode_stats_response :: "bytes \<Rightarrow> server_stats option" where
  "decode_stats_response pl =
    (if length pl < 32 then None
     else Some \<lparr>ss_cache_bytes = u64_from_le (bslice 0 8 pl),
                ss_cache_evictions = u64_from_le (bslice 8 16 pl),
                ss_n_keys = u64_from_le (bslice 16 24 pl),
                ss_cache_budget = u64_from_le (bslice 24 32 pl)\<rparr>)"

definition mget_result_at :: "bytes \<Rightarrow> nat \<Rightarrow> (bytes option \<times> nat) option" where
  "mget_result_at pl pos =
    (if pos \<ge> length pl then None
     else let status = pl ! pos; pos = pos + 1 in
       if status = 0 then
         (if pos + 4 > length pl then None
          else let val_len = unat (u32_from_le (bslice pos (pos + 4) pl)); pos = pos + 4 in
            if pos + val_len > length pl then None
            else Some (Some (bslice pos (pos + val_len) pl), pos + val_len))
       else Some (None, pos))"

definition decode_mget_response :: "bytes \<Rightarrow> bytes option list" where
  "decode_mget_response pl =
    (if length pl < 4 then []
     else for_break (unat (u32_from_le (bslice 0 4 pl))) (mget_result_at pl) 4)"

subsection \<open>Round trips\<close>

lemma length_put_shard_row [simp]: "length (put_shard_row r) = 36"
  by (simp add: put_shard_row_def)

lemma shard_row_at_put:
  "shard_row_at (pre @ put_shard_row r @ post) (length pre) = Some (r, length pre + length (put_shard_row r))"
  by (simp add: shard_row_at_def put_shard_row_def bslice_after bslice_prefix)

interpretation shard_row_codec: cursor_codec put_shard_row shard_row_at "\<lambda>_. True"
  by unfold_locales (rule shard_row_at_put)

lemma mget_result_at_put:
  assumes "case r of None \<Rightarrow> True | Some v \<Rightarrow> length v < 2 ^ 32"
  shows "mget_result_at (pre @ put_mget_result r @ post) (length pre)
    = Some (r, length pre + length (put_mget_result r))"
proof (cases r)
  case None
  then show ?thesis by (simp add: mget_result_at_def put_mget_result_def)
next
  case (Some v)
  then show ?thesis
    using assms
    by (simp add: mget_result_at_def put_mget_result_def Let_def bslice_after bslice_prefix
        bslice_Cons unat_of_nat_small)
qed

interpretation mget_result_codec: cursor_codec put_mget_result mget_result_at
  "\<lambda>r. case r of None \<Rightarrow> True | Some v \<Rightarrow> length v < 2 ^ 32"
  by unfold_locales (rule mget_result_at_put)

lemma vindex_row_at_put:
  assumes "length (vi_name r) < 65536" and "utf8_valid (vi_name r)"
  shows "vindex_row_at (pre @ put_vindex_row r @ post) (length pre)
    = Some (r, length pre + length (put_vindex_row r))"
  using assms
  by (simp add: vindex_row_at_def put_vindex_row_def Let_def bslice_after bslice_prefix
      bslice_Cons from_utf8_lossy_valid nth_append unat_of_nat_small)

interpretation vindex_row_codec: cursor_codec put_vindex_row vindex_row_at
  "\<lambda>r. length (vi_name r) < 65536 \<and> utf8_valid (vi_name r)"
  by unfold_locales (simp add: vindex_row_at_put)

lemma counted_roundtrip:
  assumes "length xs < 2 ^ 32"
  shows "unat (u32_from_le (bslice 0 4 (u32_to_le (of_nat (length xs)) @ body))) = length xs"
  using assms by (simp add: bslice_prefix unat_of_nat_small)

lemma decode_mget_response_put:
  assumes "list_all (\<lambda>r. case r of None \<Rightarrow> True | Some v \<Rightarrow> length v < 2 ^ 32) rs"
    and "length rs < 2 ^ 32"
  shows "decode_mget_response (u32_to_le (of_nat (length rs)) @ concat (map put_mget_result rs)) = rs"
  using mget_result_codec.for_break_put [OF assms(1) refl, of 4 "u32_to_le (of_nat (length rs))" "[]"]
  by (simp add: decode_mget_response_def counted_roundtrip [OF assms(2)])

lemma decode_shards_response_put:
  assumes "length rs < 2 ^ 32"
  shows "decode_shards_response (u32_to_le (of_nat (length rs)) @ concat (map put_shard_row rs)) = rs"
  using shard_row_codec.for_break_put [of rs "length rs" 4 "u32_to_le (of_nat (length rs))" "[]"]
  by (simp add: decode_shards_response_def counted_roundtrip [OF assms] list_all_iff)

lemma decode_vindex_list_response_put:
  assumes "list_all (\<lambda>r. length (vi_name r) < 65536 \<and> utf8_valid (vi_name r)) rs"
    and "length rs < 2 ^ 32"
  shows "decode_vindex_list_response (u32_to_le (of_nat (length rs)) @ concat (map put_vindex_row rs)) = rs"
  using vindex_row_codec.for_break_put [OF assms(1) refl, of 4 "u32_to_le (of_nat (length rs))" "[]"]
  by (simp add: decode_vindex_list_response_def counted_roundtrip [OF assms(2)])

lemma decode_vsearch_response_put:
  assumes "length hits < 2 ^ 32"
  shows "decode_vsearch_response (u32_to_le (of_nat (length hits)) @ concat (map put_hit hits)) = hits"
  using hit_codec.for_break_put [of hits "length hits" 4 "u32_to_le (of_nat (length hits))" "[]"]
  by (simp add: decode_vsearch_response_def counted_roundtrip [OF assms] list_all_iff)

lemma decode_value_response_put:
  assumes "length v < 2 ^ 32"
  shows "decode_value_response (u32_to_le (of_nat (length v)) @ v) = Some v"
  using assms by (simp add: decode_value_response_def Let_def bslice_prefix bslice_after unat_of_nat_small
      bslice_full)

lemma decode_stats_response_put:
  "decode_stats_response (u64_to_le (ss_cache_bytes s) @ u64_to_le (ss_cache_evictions s)
     @ u64_to_le (ss_n_keys s) @ u64_to_le (ss_cache_budget s)) = Some s"
  by (simp add: decode_stats_response_def bslice_prefix bslice_after bslice_full)

subsection \<open>Properties\<close>



text \<open>
  C30: A truncated shard list is not reported as malformed: when the last row misses its final byte,
  the client gets all the earlier rows, not the empty list the decoder's documentation promises.
\<close>

theorem decode_shards_truncated_prefix:
  assumes "length rows < 2 ^ 32 - 1"
  shows "decode_shards_response
     (butlast (u32_to_le (of_nat (length (rows @ [r]))) @ concat (map put_shard_row (rows @ [r])))) = rows"
proof -
  let ?h = "u32_to_le (of_nat (length (rows @ [r])))" and ?b = "concat (map put_shard_row rows)"
  let ?t = "butlast (put_shard_row r)"
  have ne: "put_shard_row r \<noteq> []"
    using length_put_shard_row [of r] by (metis length_0_conv zero_neq_numeral)
  have pl: "butlast (?h @ concat (map put_shard_row (rows @ [r]))) = ?h @ ?b @ ?t"
    by (simp add: butlast_append ne)
  have n: "unat (u32_from_le (bslice 0 4 (?h @ ?b @ ?t))) = Suc (length rows)"
    using counted_roundtrip [of "rows @ [r]" "?b @ ?t"] assms by simp
  have len: "length ?b = 36 * length rows"
    by (induction rows) simp_all
  have "for_break (length rows + 1) (shard_row_at (?h @ ?b @ ?t)) (length ?h)
      = rows @ for_break 1 (shard_row_at (?h @ ?b @ ?t)) (length ?h + length ?b)"
    by (rule shard_row_codec.for_break_app) (simp add: list_all_iff)
  also have "for_break 1 (shard_row_at (?h @ ?b @ ?t)) (length ?h + length ?b) = []"
    using len by (simp add: shard_row_at_def)
  finally have loop: "for_break (Suc (length rows)) (shard_row_at (?h @ ?b @ ?t)) 4 = rows"
    by (simp only: length_u32_to_le append_Nil2 Suc_eq_plus1)
  have "4 \<le> length (?h @ ?b @ ?t)"
    by simp
  then show ?thesis
    unfolding pl decode_shards_response_def n loop by (simp only: not_less if_False refl if_P if_not_P)
qed

theorem decode_shards_truncated_prefix_witness:
  "\<exists>rows r. rows \<noteq> [] \<and> decode_shards_response
     (butlast (u32_to_le (of_nat (length (rows @ [r]))) @ concat (map put_shard_row (rows @ [r])))) = rows"
  using decode_shards_truncated_prefix [of "[\<lparr>sh_shard_id = 0, sh_cache_bytes = 1,
     sh_cache_evictions = 2, sh_n_keys = 3, sh_cache_budget = 4\<rparr>]"]
  by (intro exI [of _ "[\<lparr>sh_shard_id = 0, sh_cache_bytes = 1, sh_cache_evictions = 2, sh_n_keys = 3,
     sh_cache_budget = 4\<rparr>]"]) simp

end
