(* ===== verification/Core_Record.thy ===== *)
theory Core_Record
  imports Prelude
begin

text \<open>
  vLog records (\<open>crates/skeg-core/src/record.rs\<close>): the record kinds, the padded on-disk layout
  \<open>[crc32c 4B][ts 8B][ksz 4B][vsz 4B][kind 1B][key][value][zero padding]\<close>, the encoder and the
  checking decoder. The CRC-32C function comes from an external crate and is the parameter \<open>crc\<close>.
\<close>

datatype error =
    Io
  | CrcMismatch u32 u32
  | InvalidRecord string
  | UnknownKind u8
  | DiskQuota

datatype record_kind = Scalar | Tombstone | VecF32 | VecInt8 | VecBinary | BatchBegin

fun record_kind_to_u8 :: "record_kind \<Rightarrow> u8" where
  "record_kind_to_u8 Scalar = 0"
| "record_kind_to_u8 Tombstone = 1"
| "record_kind_to_u8 VecF32 = 2"
| "record_kind_to_u8 VecInt8 = 3"
| "record_kind_to_u8 VecBinary = 4"
| "record_kind_to_u8 BatchBegin = 5"

definition record_kind_from_u8 :: "u8 \<Rightarrow> error + record_kind" where
  "record_kind_from_u8 k =
    (if k = 0 then Inr Scalar
     else if k = 1 then Inr Tombstone
     else if k = 2 then Inr VecF32
     else if k = 3 then Inr VecInt8
     else if k = 4 then Inr VecBinary
     else if k = 5 then Inr BatchBegin
     else Inl (UnknownKind k))"

record log_record =
  rec_ts :: u64
  rec_kind :: record_kind
  rec_key :: bytes
  rec_value :: bytes

definition HEADER_SIZE :: nat where
  "HEADER_SIZE = 21"

text \<open>\<open>(HEADER_SIZE + ksz + vsz + 127) & !127\<close>: clearing the low seven bits.\<close>

definition padded_record_size :: "nat \<Rightarrow> nat \<Rightarrow> nat" where
  "padded_record_size ksz vsz =
    (let n = HEADER_SIZE + ksz + vsz + 127 in n - n mod 128)"

definition record_body :: "bytes \<Rightarrow> bytes \<Rightarrow> record_kind \<Rightarrow> u64 \<Rightarrow> bytes" where
  "record_body key val kind ts =
    u64_to_le ts @ u32_to_le (of_nat (length key)) @ u32_to_le (of_nat (length val))
    @ [record_kind_to_u8 kind] @ key @ val"

definition encode_record :: "(bytes \<Rightarrow> u32) \<Rightarrow> bytes \<Rightarrow> bytes \<Rightarrow> record_kind \<Rightarrow> u64 \<Rightarrow> bytes" where
  "encode_record crc key val kind ts =
    (let padded = padded_record_size (length key) (length val);
         body = record_body key val kind ts in
     u32_to_le (crc body) @ body @ replicate (padded - (4 + length body)) 0)"

definition decode_record :: "(bytes \<Rightarrow> u32) \<Rightarrow> bytes \<Rightarrow> error + log_record" where
  "decode_record crc buf =
    (if length buf < HEADER_SIZE then Inl (InvalidRecord ''buffer too short for header'')
     else let stored_crc = u32_from_le (bslice 0 4 buf);
              ts = u64_from_le (bslice 4 12 buf);
              ksz = unat (u32_from_le (bslice 12 16 buf));
              vsz = unat (u32_from_le (bslice 16 20 buf)) in
       and_then (record_kind_from_u8 (buf ! 20)) (\<lambda>kind.
       let payload_end = HEADER_SIZE + ksz + vsz in
       if length buf < payload_end then Inl (InvalidRecord ''buffer too short for key/value'')
       else let computed = crc (bslice 4 payload_end buf) in
         if computed \<noteq> stored_crc then Inl (CrcMismatch computed stored_crc)
         else let key_start = HEADER_SIZE; val_start = key_start + ksz in
           Inr \<lparr>rec_ts = ts, rec_kind = kind, rec_key = bslice key_start (key_start + ksz) buf,
                rec_value = bslice val_start (val_start + vsz) buf\<rparr>))"

subsection \<open>Sizes\<close>

lemma length_record_body [simp]: "length (record_body k v kd ts) = 17 + length k + length v"
  by (simp add: record_body_def)

lemma padded_record_size_bounds:
  "HEADER_SIZE + ksz + vsz \<le> padded_record_size ksz vsz"
  "padded_record_size ksz vsz < HEADER_SIZE + ksz + vsz + 128"
proof -
  have "(HEADER_SIZE + ksz + vsz + 127) mod 128 < 128"
    by simp
  then show "HEADER_SIZE + ksz + vsz \<le> padded_record_size ksz vsz"
    unfolding padded_record_size_def Let_def by linarith
  show "padded_record_size ksz vsz < HEADER_SIZE + ksz + vsz + 128"
    unfolding padded_record_size_def Let_def by linarith
qed

lemma padded_record_size_dvd: "128 dvd padded_record_size ksz vsz"
  by (simp add: padded_record_size_def Let_def minus_mod_eq_mult_div)

lemma padded_record_size_ge: "128 \<le> padded_record_size ksz vsz"
  using padded_record_size_bounds(1) [of ksz vsz]
  by (intro dvd_imp_le padded_record_size_dvd) (simp add: HEADER_SIZE_def)

lemma length_encode_record [simp]:
  "length (encode_record crc k v kd ts) = padded_record_size (length k) (length v)"
  using padded_record_size_bounds(1) [of "length k" "length v"]
  by (simp add: encode_record_def Let_def HEADER_SIZE_def)

text \<open>The mask form of the source on 64-bit words.\<close>

lemma word_and_not_eq: "(w :: 'a::len word) AND NOT m = w - (w AND m)"
  by (simp add: bit.conj_disj_distrib disjunctive_diff_eq_and_not word_bw_comms(1) word_bw_lcs(1))

lemma unat_and_not_127: "unat ((w :: u64) AND NOT 127) = unat w - unat w mod 128"
proof -
  have "w AND 127 = take_bit 7 w"
    by (simp add: take_bit_eq_mask mask_eq_exp_minus_1)
  then have m: "unat (w AND 127) = unat w mod 128"
    by (simp add: take_bit_eq_mod unat_mod_distrib)
  have "w AND 127 \<le> w"
    by (rule word_and_le2)
  then have "unat (w - (w AND 127)) = unat w - unat (w AND 127)"
    by (rule unat_sub)
  then show ?thesis
    by (simp only: word_and_not_eq m)
qed

lemma padded_record_size_word:
  assumes "HEADER_SIZE + ksz + vsz + 127 < 2 ^ 64"
  shows "unat ((of_nat (HEADER_SIZE + ksz + vsz + 127) :: u64) AND NOT 127) = padded_record_size ksz vsz"
proof -
  have "unat (of_nat (HEADER_SIZE + ksz + vsz + 127) :: u64) = HEADER_SIZE + ksz + vsz + 127"
    using assms by (intro unat_of_nat_small) simp
  then show ?thesis
    by (simp only: unat_and_not_127 padded_record_size_def Let_def)
qed

subsection \<open>Round trip and soundness\<close>

definition record_of :: "bytes \<Rightarrow> bytes \<Rightarrow> record_kind \<Rightarrow> u64 \<Rightarrow> log_record" where
  "record_of k v kd ts = \<lparr>rec_ts = ts, rec_kind = kd, rec_key = k, rec_value = v\<rparr>"

lemma record_kind_from_to [simp]: "record_kind_from_u8 (record_kind_to_u8 k) = Inr k"
  by (cases k) (simp_all add: record_kind_from_u8_def)

lemma record_kind_from_u8_Inr: "record_kind_from_u8 b = Inr k \<Longrightarrow> record_kind_to_u8 k = b"
  by (auto simp: record_kind_from_u8_def split: if_splits)

text \<open>The header fields of an encoded record, wherever it is followed by other bytes.\<close>

lemma encode_record_fields:
  assumes "length k < 2 ^ 32" and "length v < 2 ^ 32"
  shows "bslice 0 4 (encode_record crc k v kd ts @ rest) = u32_to_le (crc (record_body k v kd ts))"
    and "bslice 4 12 (encode_record crc k v kd ts @ rest) = u64_to_le ts"
    and "unat (u32_from_le (bslice 12 16 (encode_record crc k v kd ts @ rest))) = length k"
    and "unat (u32_from_le (bslice 16 20 (encode_record crc k v kd ts @ rest))) = length v"
    and "(encode_record crc k v kd ts @ rest) ! 20 = record_kind_to_u8 kd"
    and "bslice 21 (21 + length k) (encode_record crc k v kd ts @ rest) = k"
    and "bslice (21 + length k) (21 + length k + length v) (encode_record crc k v kd ts @ rest) = v"
    and "bslice 4 (21 + length k + length v) (encode_record crc k v kd ts @ rest) = record_body k v kd ts"
  using assms
  by (simp_all add: encode_record_def record_body_def Let_def bslice_after bslice_prefix bslice_Cons
      unat_of_nat_small nth_append)
    (simp add: bslice_def)?

lemma decode_encode_record:
  assumes "length k < 2 ^ 32" and "length v < 2 ^ 32"
  shows "decode_record crc (encode_record crc k v kd ts @ rest) = Inr (record_of k v kd ts)"
proof -
  have len: "21 + length k + length v \<le> length (encode_record crc k v kd ts)"
    using padded_record_size_bounds(1) [of "length k" "length v"] by (simp add: HEADER_SIZE_def)
  show ?thesis
    using assms len encode_record_fields [OF assms, of crc kd ts rest]
    by (simp add: decode_record_def HEADER_SIZE_def record_of_def Let_def del: length_encode_record)
qed

end
