(* ===== verification/Core_Segment.thy ===== *)
theory Core_Segment
  imports Core_Record
begin

text \<open>
  The recovery scan over one segment file (\<open>crates/skeg-core/src/segment.rs\<close>, \<open>scan_file\<close>). A file is
  its byte list; \<open>pread_sync\<close> at an offset returns what is there, at most the requested length. The
  callback's calls are the returned list of offsets and records, in order, and the returned offset is
  the truncation point.
\<close>

definition MAX_SEGMENT_SIZE :: nat where
  "MAX_SEGMENT_SIZE = 512 * 1024 * 1024"

definition pread :: "bytes \<Rightarrow> nat \<Rightarrow> nat \<Rightarrow> bytes" where
  "pread fb offset n = bslice offset (offset + n) fb"

function scan_from :: "(bytes \<Rightarrow> u32) \<Rightarrow> bytes \<Rightarrow> nat \<Rightarrow> (nat \<times> log_record) list \<times> nat" where
  "scan_from crc fb offset =
    (let header = pread fb offset HEADER_SIZE in
     if length header < HEADER_SIZE then ([], offset)
     else
      (let ksz = unat (u32_from_le (bslice 12 16 header));
           vsz = unat (u32_from_le (bslice 16 20 header));
           padded = padded_record_size ksz vsz;
           buf = pread fb offset padded in
       if length buf < padded then ([], offset)
       else (case decode_record crc buf of
               Inl _ \<Rightarrow> ([], offset)
             | Inr rec \<Rightarrow>
                 (case scan_from crc fb (offset + padded) of (rs, e) \<Rightarrow> ((offset, rec) # rs, e)))))"
  by pat_completeness auto
termination
proof (relation "measure (\<lambda>(crc, fb, offset). length fb - offset)")
  fix crc :: "bytes \<Rightarrow> u32" and fb :: bytes and offset :: nat
    and header ksz vsz padded buf and rec :: log_record
  assume "header = pread fb offset HEADER_SIZE" and "\<not> length header < HEADER_SIZE"
    and "padded = padded_record_size ksz vsz"
  then show "((crc, fb, offset + padded), crc, fb, offset)
      \<in> measure (\<lambda>(crc, fb, offset). length fb - offset)"
    using padded_record_size_ge [of ksz vsz] by (auto simp: pread_def HEADER_SIZE_def)
qed simp

declare scan_from.simps [simp del]

definition scan_file :: "(bytes \<Rightarrow> u32) \<Rightarrow> bytes \<Rightarrow> (nat \<times> log_record) list \<times> nat" where
  "scan_file crc fb = scan_from crc fb 0"

subsection \<open>One step of the scan\<close>

text \<open>\<open>record_at\<close> is what one iteration finds at an offset, if it finds a record.\<close>

definition record_at :: "(bytes \<Rightarrow> u32) \<Rightarrow> bytes \<Rightarrow> nat \<Rightarrow> log_record option" where
  "record_at crc fb offset =
    (let header = pread fb offset HEADER_SIZE in
     if length header < HEADER_SIZE then None
     else
      (let padded = padded_record_size (unat (u32_from_le (bslice 12 16 header)))
                      (unat (u32_from_le (bslice 16 20 header)));
           buf = pread fb offset padded in
       if length buf < padded then None
       else (case decode_record crc buf of Inl _ \<Rightarrow> None | Inr rec \<Rightarrow> Some rec)))"

definition record_size :: "log_record \<Rightarrow> nat" where
  "record_size r = padded_record_size (length (rec_key r)) (length (rec_value r))"

lemma record_size_pos: "0 < record_size r"
  using padded_record_size_ge [of "length (rec_key r)" "length (rec_value r)"]
  by (simp add: record_size_def)

lemma bslice_bslice:
  "b \<le> n \<Longrightarrow> bslice a b (bslice p (p + n) xs) = bslice (p + a) (p + b) xs"
  by (cases "a \<le> b") (auto simp: bslice_def add.commute take_drop min_def)

lemma length_pread: "length (pread fb off n) = min n (length fb - off)"
  by (simp add: pread_def)

lemma decode_record_lengths:
  assumes "decode_record crc buf = Inr r"
  shows "length (rec_key r) = unat (u32_from_le (bslice 12 16 buf))"
    and "length (rec_value r) = unat (u32_from_le (bslice 16 20 buf))"
    and "HEADER_SIZE + length (rec_key r) + length (rec_value r) \<le> length buf"
  using assms
  by (auto simp: decode_record_def Let_def and_then_eq_Inr HEADER_SIZE_def min_def split: if_splits)

lemma scan_from_record:
  "scan_from crc fb off =
    (case record_at crc fb off of
       None \<Rightarrow> ([], off)
     | Some r \<Rightarrow> (case scan_from crc fb (off + record_size r) of (rs, e) \<Rightarrow> ((off, r) # rs, e)))"
proof (cases "length (pread fb off HEADER_SIZE) < HEADER_SIZE")
  case True
  then show ?thesis by (simp add: scan_from.simps [of crc fb off] record_at_def)
next
  case hdr: False
  let ?h = "pread fb off HEADER_SIZE"
  let ?padded = "padded_record_size (unat (u32_from_le (bslice 12 16 ?h))) (unat (u32_from_le (bslice 16 20 ?h)))"
  show ?thesis
  proof (cases "decode_record crc (pread fb off ?padded)")
    case (Inl e)
    then show ?thesis
      using hdr by (simp add: scan_from.simps [of crc fb off] record_at_def Let_def)
  next
    case (Inr r)
    have "bslice 12 16 (pread fb off ?padded) = bslice 12 16 ?h"
      "bslice 16 20 (pread fb off ?padded) = bslice 16 20 ?h"
      using padded_record_size_ge [of "unat (u32_from_le (bslice 12 16 ?h))" "unat (u32_from_le (bslice 16 20 ?h))"]
      by (simp_all add: pread_def bslice_bslice HEADER_SIZE_def)
    then have "record_size r = ?padded"
      using decode_record_lengths(1,2) [OF Inr] by (simp add: record_size_def)
    then show ?thesis
      using hdr Inr by (simp add: scan_from.simps [of crc fb off] record_at_def Let_def)
  qed
qed

lemma record_atD:
  assumes "record_at crc fb off = Some r"
  shows "decode_record crc (pread fb off (record_size r)) = Inr r"
    and "off + record_size r \<le> length fb"
    and "length (rec_key r) < 2 ^ 32" and "length (rec_value r) < 2 ^ 32"
proof -
  let ?h = "pread fb off HEADER_SIZE"
  let ?padded = "padded_record_size (unat (u32_from_le (bslice 12 16 ?h))) (unat (u32_from_le (bslice 16 20 ?h)))"
  from assms have len: "\<not> length (pread fb off ?padded) < ?padded"
    and dec: "decode_record crc (pread fb off ?padded) = Inr r"
    by (auto simp: record_at_def Let_def split: if_splits sum.splits)
  have ge: "128 \<le> ?padded"
    by (rule padded_record_size_ge)
  have "bslice 12 16 (pread fb off ?padded) = bslice 12 16 ?h"
    "bslice 16 20 (pread fb off ?padded) = bslice 16 20 ?h"
    using ge by (simp_all add: pread_def bslice_bslice HEADER_SIZE_def)
  then have sz: "record_size r = ?padded"
    using decode_record_lengths(1,2) [OF dec] by (simp add: record_size_def)
  show "decode_record crc (pread fb off (record_size r)) = Inr r"
    using dec sz by simp
  show "off + record_size r \<le> length fb"
    using len ge sz by (auto simp: length_pread)
  show "length (rec_key r) < 2 ^ 32" "length (rec_value r) < 2 ^ 32"
    using decode_record_lengths(1,2) [OF dec] unat_lt [where 'a = 32] by simp_all
qed

text \<open>What is found at an offset depends only on the bytes of that record.\<close>

lemma pread_of_bslice: "n \<le> m \<Longrightarrow> pread fb off n = bslice 0 n (bslice off (off + m) fb)"
  by (simp add: pread_def bslice_bslice)

lemma record_at_via:
  "record_at crc fb off = Some r \<longleftrightarrow>
     length (pread fb off (record_size r)) = record_size r
     \<and> decode_record crc (pread fb off (record_size r)) = Inr r"
proof
  assume r: "record_at crc fb off = Some r"
  show "length (pread fb off (record_size r)) = record_size r
     \<and> decode_record crc (pread fb off (record_size r)) = Inr r"
    using record_atD(1,2) [OF r] by (auto simp: length_pread)
next
  assume a: "length (pread fb off (record_size r)) = record_size r
     \<and> decode_record crc (pread fb off (record_size r)) = Inr r"
  let ?h = "pread fb off HEADER_SIZE"
  have sz: "HEADER_SIZE \<le> record_size r"
    using padded_record_size_bounds(1) [of "length (rec_key r)" "length (rec_value r)"]
    by (simp add: record_size_def)
  have "length (pread fb off (record_size r)) = record_size r"
    using a by blast
  then have len: "length ?h = HEADER_SIZE"
    using sz unfolding length_pread by linarith
  have "bslice 12 16 (pread fb off (record_size r)) = bslice 12 16 ?h"
    "bslice 16 20 (pread fb off (record_size r)) = bslice 16 20 ?h"
    using sz by (simp_all add: pread_def bslice_bslice HEADER_SIZE_def)
  then have p: "padded_record_size (unat (u32_from_le (bslice 12 16 ?h)))
      (unat (u32_from_le (bslice 16 20 ?h))) = record_size r"
    using decode_record_lengths(1,2) [of crc "pread fb off (record_size r)" r] a
    unfolding record_size_def by simp
  show "record_at crc fb off = Some r"
    unfolding record_at_def Let_def p using a len by simp
qed

lemma record_at_cong:
  assumes "record_at crc fb off = Some r"
    and "bslice off (off + record_size r) fb' = bslice off (off + record_size r) fb"
  shows "record_at crc fb' off = Some r"
  using assms(1) unfolding record_at_via pread_def assms(2) .

subsection \<open>Scans of extended files\<close>

text \<open>
  A scan that ends at \<open>e\<close> is not affected by what the file holds past \<open>e\<close>: on any file that agrees up
  to \<open>e\<close>, the same records are found and the scan continues from \<open>e\<close>.
\<close>

lemma bslice_of_take: "b \<le> e \<Longrightarrow> bslice a b (take e xs) = bslice a b xs"
  by (cases "a \<le> b") (auto simp: bslice_def drop_take)

lemma scan_induct [case_names step]:
  assumes "\<And>off. (\<And>r. record_at crc fb off = Some r \<Longrightarrow> P (off + record_size r)) \<Longrightarrow> P off"
  shows "P off"
proof (induction "length fb - off" arbitrary: off rule: less_induct)
  case less
  show ?case
  proof (rule assms)
    fix r assume r: "record_at crc fb off = Some r"
    show "P (off + record_size r)"
      using record_atD(2) [OF r] record_size_pos [of r] by (intro less) simp
  qed
qed

lemma scan_from_Some:
  assumes "record_at crc fb off = Some r" and "scan_from crc fb off = (rs, e)"
  obtains rs' where "rs = (off, r) # rs'" and "scan_from crc fb (off + record_size r) = (rs', e)"
  using assms by (auto simp: scan_from_record [of crc fb off] split: prod.splits)

lemma scan_from_bounds:
  "scan_from crc fb off = (rs, e) \<Longrightarrow> off \<le> length fb \<Longrightarrow> off \<le> e \<and> e \<le> length fb"
proof (induction off arbitrary: rs rule: scan_induct [where crc = crc and fb = fb])
  case (step off)
  show ?case
  proof (cases "record_at crc fb off")
    case None
    then show ?thesis using step.prems by (simp add: scan_from_record [of crc fb off])
  next
    case (Some r)
    then obtain rs' where "scan_from crc fb (off + record_size r) = (rs', e)"
      using scan_from_Some step.prems(1) by blast
    from step.IH [OF Some this] record_atD(2) [OF Some] show ?thesis by simp
  qed
qed

lemma scan_from_extend:
  assumes "scan_from crc fb off = (rs, e)" and "off \<le> length fb" and "take e fb' = take e fb"
  shows "scan_from crc fb' off = (case scan_from crc fb' e of (rs', e') \<Rightarrow> (rs @ rs', e'))"
  using assms
proof (induction off arbitrary: rs rule: scan_induct [where crc = crc and fb = fb])
  case (step off)
  show ?case
  proof (cases "record_at crc fb off")
    case None
    then show ?thesis using step.prems by (simp add: scan_from_record [of crc fb off] split: prod.split)
  next
    case (Some r)
    then obtain rs' where rs: "rs = (off, r) # rs'"
      and sc: "scan_from crc fb (off + record_size r) = (rs', e)"
      using scan_from_Some step.prems(1) by blast
    note d = record_atD(2) [OF Some]
    have "off + record_size r \<le> e"
      using scan_from_bounds [OF sc d] by simp
    then have "bslice off (off + record_size r) fb' = bslice off (off + record_size r) fb"
      using step.prems(3) by (metis bslice_of_take)
    then have "record_at crc fb' off = Some r"
      using record_at_cong Some by blast
    then show ?thesis
      using step.IH [OF Some sc d step.prems(3)] rs
      by (simp add: scan_from_record [of crc fb' off] split: prod.split)
  qed
qed

lemma scan_from_entry:
  assumes "scan_from crc fb off = (rs, e)" and "(o', r) \<in> set rs"
  shows "record_at crc fb o' = Some r \<and> off \<le> o' \<and> o' + record_size r \<le> e"
  using assms
proof (induction off arbitrary: rs rule: scan_induct [where crc = crc and fb = fb])
  case (step off)
  then obtain r0 where Some: "record_at crc fb off = Some r0"
    by (cases "record_at crc fb off") (auto simp: scan_from_record [of crc fb off])
  then obtain rs' where rs: "rs = (off, r0) # rs'"
    and sc: "scan_from crc fb (off + record_size r0) = (rs', e)"
    using scan_from_Some step.prems(1) by blast
  have "off + record_size r0 \<le> e"
    using scan_from_bounds [OF sc record_atD(2) [OF Some]] by simp
  then show ?case
    using step.IH [OF Some sc] step.prems(2) rs Some by auto
qed

text \<open>Where the scan stopped, there is no record.\<close>

lemma scan_from_end: "scan_from crc fb off = (rs, e) \<Longrightarrow> record_at crc fb e = None"
proof (induction off arbitrary: rs rule: scan_induct [where crc = crc and fb = fb])
  case (step off)
  show ?case
  proof (cases "record_at crc fb off")
    case None
    then show ?thesis using step.prems by (simp add: scan_from_record [of crc fb off])
  next
    case (Some r)
    then show ?thesis using step.IH scan_from_Some step.prems by metis
  qed
qed

subsection \<open>Scanning what the encoder wrote\<close>

definition encode_rec :: "(bytes \<Rightarrow> u32) \<Rightarrow> log_record \<Rightarrow> bytes" where
  "encode_rec crc r = encode_record crc (rec_key r) (rec_value r) (rec_kind r) (rec_ts r)"

definition rec_ok :: "log_record \<Rightarrow> bool" where
  "rec_ok r \<longleftrightarrow> length (rec_key r) < 2 ^ 32 \<and> length (rec_value r) < 2 ^ 32"

lemma length_encode_rec [simp]: "length (encode_rec crc r) = record_size r"
  by (simp add: encode_rec_def record_size_def)

lemma decode_encode_rec: "rec_ok r \<Longrightarrow> decode_record crc (encode_rec crc r @ rest) = Inr r"
  by (simp add: encode_rec_def rec_ok_def decode_encode_record record_of_def)

lemma pread_at: "n \<le> length xs \<Longrightarrow> pread (pre @ xs @ post) (length pre) n = take n xs"
  by (simp add: pread_def bslice_def)

lemma record_at_encode:
  assumes "rec_ok r"
  shows "record_at crc (pre @ encode_rec crc r @ post) (length pre) = Some r"
proof -
  have sz: "HEADER_SIZE \<le> record_size r"
    using padded_record_size_bounds(1) [of "length (rec_key r)" "length (rec_value r)"]
    by (simp add: record_size_def)
  have h: "pread (pre @ encode_rec crc r @ post) (length pre) HEADER_SIZE = take HEADER_SIZE (encode_rec crc r)"
    using sz by (simp add: pread_at)
  have "bslice 12 16 (take HEADER_SIZE (encode_rec crc r)) = bslice 12 16 (encode_rec crc r @ [])"
    "bslice 16 20 (take HEADER_SIZE (encode_rec crc r)) = bslice 16 20 (encode_rec crc r @ [])"
    by (simp_all add: bslice_of_take HEADER_SIZE_def)
  then have p: "padded_record_size (unat (u32_from_le (bslice 12 16 (take HEADER_SIZE (encode_rec crc r)))))
      (unat (u32_from_le (bslice 16 20 (take HEADER_SIZE (encode_rec crc r))))) = record_size r"
    using assms encode_record_fields(3,4) [of "rec_key r" "rec_value r" crc "rec_kind r" "rec_ts r" "[]"]
    by (simp only: rec_ok_def encode_rec_def record_size_def)
  show ?thesis
    using sz decode_encode_rec [OF assms, of crc "[]"]
    by (simp add: record_at_def Let_def h p pread_at)
qed

text \<open>
  Preallocated space is zeros. The scan stops there because the CRC of the seventeen zero bytes it
  would check is not the zero it would find stored.
\<close>

definition crc_zero_ok :: "(bytes \<Rightarrow> u32) \<Rightarrow> bool" where
  "crc_zero_ok crc \<longleftrightarrow> crc (replicate 17 0) \<noteq> 0"

lemma le_get_zeros [simp]: "le_get (replicate n 0) = 0"
  by (induction n) simp_all

lemma bslice_replicate: "bslice a b (replicate n x) = replicate (min (b - a) (n - a)) x"
  by (simp add: bslice_def)

lemma record_at_zeros:
  assumes "crc_zero_ok crc" and "drop off fb = replicate n 0"
  shows "record_at crc fb off = None"
proof -
  have pr: "pread fb off m = replicate (min m n) 0" for m
    using assms(2) by (simp add: pread_def bslice_def)
  have z: "u32_from_le (replicate m 0) = 0" for m
    by (simp add: u32_from_le_def)
  have p: "padded_record_size 0 0 = 128"
    by (simp add: padded_record_size_def HEADER_SIZE_def)
  have d: "decode_record crc (replicate 128 0) = Inl (CrcMismatch (crc (replicate 17 0)) 0)"
    using assms(1)
    by (simp add: decode_record_def crc_zero_ok_def bslice_replicate z record_kind_from_u8_def HEADER_SIZE_def)
  show ?thesis
    by (auto simp: record_at_def pr Let_def bslice_replicate z p d min_def split: if_splits)
qed

subsection \<open>File names\<close>

definition digit_char :: "nat \<Rightarrow> char" where
  "digit_char d = char_of (48 + d)"

fun decimal :: "nat \<Rightarrow> string" where
  "decimal n = (if n < 10 then [digit_char n] else decimal (n div 10) @ [digit_char (n mod 10)])"

declare decimal.simps [simp del]

text \<open>\<open>format!("{id:010}.seg")\<close>.\<close>

definition segment_name :: "u16 \<Rightarrow> string" where
  "segment_name sid =
    (let s = decimal (unat sid) in replicate (10 - length s) (CHR ''0'') @ s @ ''.seg'')"

definition strip_suffix :: "string \<Rightarrow> string \<Rightarrow> string option" where
  "strip_suffix suf s =
    (if length suf \<le> length s \<and> drop (length s - length suf) s = suf
     then Some (take (length s - length suf) s) else None)"

definition to_digit :: "char \<Rightarrow> nat option" where
  "to_digit c = (let k = of_char c in if 48 \<le> k \<and> k \<le> (57 :: nat) then Some (k - 48) else None)"

fun parse_digits :: "nat \<Rightarrow> nat \<Rightarrow> string \<Rightarrow> nat option" where
  "parse_digits bound acc [] = Some acc"
| "parse_digits bound acc (c # cs) =
    (case to_digit c of
       None \<Rightarrow> None
     | Some d \<Rightarrow> if acc * 10 + d > bound then None else parse_digits bound (acc * 10 + d) cs)"

text \<open>
  \<open>str::parse::<u16>\<close>: an optional plus sign, then at least one digit, no overflow.
\<close>

definition parse_u16 :: "string \<Rightarrow> u16 option" where
  "parse_u16 s =
    (let body = (case s of c # cs \<Rightarrow> if c = CHR ''+'' then cs else s | [] \<Rightarrow> []) in
     if body = [] then None else map_option of_nat (parse_digits 65535 0 body))"

definition segment_of_name :: "string \<Rightarrow> u16 option" where
  "segment_of_name name = Option.bind (strip_suffix ''.seg'' name) parse_u16"

definition list_segments :: "string list \<Rightarrow> u16 list" where
  "list_segments names = sort (List.map_filter segment_of_name names)"

lemma to_digit_digit_char: "d < 10 \<Longrightarrow> to_digit (digit_char d) = Some d"
  by (simp add: to_digit_def digit_char_def Let_def)

lemma digit_char_not_plus: "d < 10 \<Longrightarrow> digit_char d \<noteq> CHR ''+''"
proof
  assume "d < 10" and "digit_char d = CHR ''+''"
  then have "to_digit CHR ''+'' = Some d"
    using to_digit_digit_char [of d] by simp
  then show False
    by (simp add: to_digit_def)
qed

lemma parse_digits_append:
  "parse_digits b acc (xs @ ys) = Option.bind (parse_digits b acc xs) (\<lambda>a. parse_digits b a ys)"
  by (induction xs arbitrary: acc) (simp_all split: option.split)

lemma parse_digits_decimal: "n \<le> b \<Longrightarrow> parse_digits b 0 (decimal n) = Some n"
proof (induction n rule: decimal.induct)
  case (1 n)
  show ?case
  proof (cases "n < 10")
    case True
    then show ?thesis
      using 1(2) by (simp add: decimal.simps [of n] to_digit_digit_char)
  next
    case False
    then have "parse_digits b 0 (decimal (n div 10)) = Some (n div 10)"
      using 1 by simp
    then show ?thesis
      using False 1(2) by (simp add: decimal.simps [of n] parse_digits_append to_digit_digit_char)
  qed
qed

lemma parse_digits_zeros: "parse_digits b 0 (replicate n (CHR ''0'') @ s) = parse_digits b 0 s"
  by (induction n) (simp_all add: to_digit_def)

lemma decimal_digits: "\<exists>d cs. d < 10 \<and> decimal n = digit_char d # cs"
proof (induction n rule: decimal.induct)
  case (1 n)
  then show ?case
    by (cases "n < 10") (auto simp: decimal.simps [of n])
qed

lemma parse_u16_zeros:
  assumes "d < 10"
  shows "parse_u16 (replicate n (CHR ''0'') @ digit_char d # cs) = map_option of_nat (parse_digits 65535 0 (digit_char d # cs))"
proof (cases n)
  case 0
  then show ?thesis
    using digit_char_not_plus [OF assms] by (simp add: parse_u16_def del: parse_digits.simps)
next
  case (Suc m)
  have "parse_u16 (replicate n (CHR ''0'') @ digit_char d # cs) =
      map_option of_nat (parse_digits 65535 0 (replicate n (CHR ''0'') @ digit_char d # cs))"
    by (simp add: parse_u16_def Suc del: parse_digits.simps)
  then show ?thesis
    by (simp only: parse_digits_zeros)
qed

lemma segment_of_segment_name [simp]: "segment_of_name (segment_name sid) = Some sid"
proof -
  have "unat sid \<le> 65535"
    using unat_lt [of sid] by simp
  then have "parse_digits 65535 0 (decimal (unat sid)) = Some (unat sid)"
    by (rule parse_digits_decimal)
  moreover obtain d cs where "d < 10" "decimal (unat sid) = digit_char d # cs"
    using decimal_digits by blast
  ultimately have "parse_u16 (replicate n (CHR ''0'') @ decimal (unat sid)) = Some sid" for n
    by (simp only: parse_u16_zeros) simp
  then show ?thesis
    by (simp add: segment_of_name_def segment_name_def Let_def strip_suffix_def)
qed

lemma list_segments_names: "list_segments (map segment_name ids) = sort ids"
  by (simp add: list_segments_def List.map_filter_def comp_def)

lemma segment_name_inj: "inj segment_name"
  by (metis injI option.inject segment_of_segment_name)

subsection \<open>Appending to a segment\<close>

fun place :: "nat \<Rightarrow> log_record list \<Rightarrow> (nat \<times> log_record) list" where
  "place off [] = []"
| "place off (r # rs) = (off, r) # place (off + record_size r) rs"

definition log_bytes :: "(bytes \<Rightarrow> u32) \<Rightarrow> log_record list \<Rightarrow> bytes" where
  "log_bytes crc rs = concat (map (encode_rec crc) rs)"

lemma log_bytes_simps [simp]:
  "log_bytes crc [] = []" "log_bytes crc (r # rs) = encode_rec crc r @ log_bytes crc rs"
  by (simp_all add: log_bytes_def)

lemma length_log_bytes: "length (log_bytes crc rs) = sum_list (map record_size rs)"
  by (induction rs) simp_all

lemma place_append: "place off (xs @ ys) = place off xs @ place (off + sum_list (map record_size xs)) ys"
  by (induction xs arbitrary: off) (simp_all add: add.assoc)

lemma map_snd_place [simp]: "map snd (place off rs) = rs"
  by (induction rs arbitrary: off) simp_all

lemma record_at_shift: "record_at crc (pre @ xs) (length pre) = record_at crc xs 0"
proof -
  have "pread (pre @ xs) (length pre) n = pread xs 0 n" for n
    by (simp add: pread_def bslice_def)
  then show ?thesis
    by (simp add: record_at_def Let_def)
qed

lemma scan_from_log:
  assumes "list_all rec_ok rs" and "record_at crc rest 0 = None"
  shows "scan_from crc (pre @ log_bytes crc rs @ rest) (length pre)
    = (place (length pre) rs, length pre + length (log_bytes crc rs))"
  using assms
proof (induction rs arbitrary: pre)
  case Nil
  then show ?case
    by (subst scan_from_record) (simp add: record_at_shift)
next
  case (Cons r rs)
  have "record_at crc (pre @ encode_rec crc r @ log_bytes crc rs @ rest) (length pre) = Some r"
    using Cons.prems by (intro record_at_encode) simp
  then show ?case
    using Cons.IH [of "pre @ encode_rec crc r"] Cons.prems by (subst scan_from_record) simp
qed

text \<open>A file written up to \<open>e\<close> and zero after it, as preallocation leaves it.\<close>

definition zero_tail :: "nat \<Rightarrow> bytes \<Rightarrow> bool" where
  "zero_tail e fb \<longleftrightarrow> e \<le> length fb \<and> drop e fb = replicate (length fb - e) 0"

lemma zero_tail_splice:
  assumes "zero_tail e fb"
  shows "splice_at e d fb = take e fb @ d @ replicate (length fb - (e + length d)) 0"
    and "zero_tail (e + length d) (splice_at e d fb)"
proof -
  have "drop (e + length d) fb = drop (length d) (drop e fb)"
    by (simp add: add.commute)
  also have "\<dots> = replicate (length fb - (e + length d)) 0"
    using assms by (simp only: zero_tail_def drop_replicate diff_diff_left)
  finally show eq: "splice_at e d fb = take e fb @ d @ replicate (length fb - (e + length d)) 0"
    by (simp add: splice_at_def)
  show "zero_tail (e + length d) (splice_at e d fb)"
    using assms unfolding eq zero_tail_def by simp
qed

lemma scan_file_append:
  assumes "scan_file crc fb = (recs, e)" and "zero_tail e fb" and "list_all rec_ok rs" and "crc_zero_ok crc"
  shows "scan_file crc (splice_at e (log_bytes crc rs) fb) = (recs @ place e rs, e + length (log_bytes crc rs))"
proof -
  let ?fb = "splice_at e (log_bytes crc rs) fb"
  have e: "e \<le> length fb"
    using assms(2) by (simp add: zero_tail_def)
  have eq: "?fb = take e fb @ log_bytes crc rs @ replicate (length fb - (e + length (log_bytes crc rs))) 0"
    by (rule zero_tail_splice(1) [OF assms(2)])
  have "record_at crc (replicate n 0) 0 = None" for n
    by (rule record_at_zeros [OF assms(4), of _ _ n]) simp
  then have "scan_from crc ?fb e = (place e rs, e + length (log_bytes crc rs))"
    using scan_from_log [OF assms(3), of crc _ "take e fb"] e by (simp add: eq)
  moreover have "take e ?fb = take e fb"
    using e by (simp add: splice_at_def)
  ultimately show ?thesis
    using scan_from_extend [OF assms(1) [unfolded scan_file_def], of ?fb] by (simp add: scan_file_def)
qed

lemma scan_file_bounds: "scan_file crc fb = (rs, e) \<Longrightarrow> e \<le> length fb"
  using scan_from_bounds [of crc fb 0 rs e] by (simp add: scan_file_def)

lemma scan_file_entry:
  assumes "scan_file crc fb = (rs, e)" and "(o', r) \<in> set rs"
  shows "record_at crc fb o' = Some r" and "o' + record_size r \<le> e"
  using scan_from_entry [of crc fb 0 rs e o' r] assms by (simp_all add: scan_file_def)

text \<open>Truncating at the end of the scan and preallocating again changes no record.\<close>

lemma scan_file_truncate:
  assumes "scan_file crc fb = (recs, e)" and "crc_zero_ok crc"
  shows "scan_file crc (take e fb @ replicate n 0) = (recs, e)" and "zero_tail e (take e fb @ replicate n 0)"
proof -
  let ?fb = "take e fb @ replicate n 0"
  have e: "e \<le> length fb"
    by (rule scan_file_bounds [OF assms(1)])
  have "record_at crc ?fb e = None"
    by (rule record_at_zeros [OF assms(2), of _ _ n]) (use e in simp)
  then have "scan_from crc ?fb e = ([], e)"
    by (subst scan_from_record) simp
  moreover have "take e ?fb = take e fb"
    using e by simp
  ultimately show "scan_file crc ?fb = (recs, e)"
    using scan_from_extend [OF assms(1) [unfolded scan_file_def], of ?fb] by (simp add: scan_file_def)
  show "zero_tail e ?fb"
    using e by (simp add: zero_tail_def)
qed

lemma scan_file_zeros: "crc_zero_ok crc \<Longrightarrow> scan_file crc (replicate n 0) = ([], 0)"
  using record_at_zeros [of crc 0 "replicate n 0" n] by (simp add: scan_file_def scan_from_record [of crc _ 0])

text \<open>
  C16: Recovery reads back what was logged: on a file that holds any records back to back, followed by
  bytes in which no record can be decoded (a torn record, garbage, preallocated zeros or nothing), the
  scan reports exactly those records at their offsets and returns the end of the last one.
\<close>

theorem scan_recovers_log:
  assumes "list_all rec_ok rs" and "record_at crc rest 0 = None"
  shows "scan_file crc (concat (map (encode_rec crc) rs) @ rest) = (place 0 rs, sum_list (map record_size rs))"
  using scan_from_log [OF assms, of "[]"] by (simp add: scan_file_def length_log_bytes) (simp add: log_bytes_def)

definition demo_rec :: log_record where
  "demo_rec = \<lparr>rec_ts = 1, rec_kind = Scalar, rec_key = [7], rec_value = [8, 9]\<rparr>"

theorem scan_recovers_log_witness:
  "scan_file (\<lambda>_. 5) (concat (map (encode_rec (\<lambda>_. 5)) [demo_rec, demo_rec]) @ replicate 256 0) = ([(0, demo_rec), (128, demo_rec)], 256)"
proof -
  have "list_all rec_ok [demo_rec, demo_rec]" and "record_at (\<lambda>_. 5) (replicate 256 0) 0 = None"
    by (simp_all add: rec_ok_def demo_rec_def) (rule record_at_zeros [of _ _ _ 256], simp_all add: crc_zero_ok_def)
  from scan_recovers_log [OF this] show ?thesis
    by (simp add: record_size_def demo_rec_def padded_record_size_def HEADER_SIZE_def)
qed

end
