(* ===== verification/Core_Index.thy ===== *)
theory Core_Index
  imports Core_Record
begin

text \<open>
  The in-RAM index (\<open>crates/skeg-core/src/index.rs\<close>) and its snapshot file
  (\<open>crates/skeg-core/src/snapshot.rs\<close>). The hash \<open>xxh3_64\<close> and the CRC come from external crates and
  are parameters. A store directory, as far as snapshots are concerned, is the pair of the committed
  file and the temporary file.
\<close>

subsection \<open>Index (index.rs)\<close>

record index_entry =
  fingerprint :: u32
  segment_id :: u16
  entry_pad :: u16
  entry_offset :: u32
  entry_size :: u32

type_synonym index = "(bytes \<times> index_entry) list"

definition index_new :: index where
  "index_new = []"

definition index_set :: "index \<Rightarrow> bytes \<Rightarrow> index_entry \<Rightarrow> index" where
  "index_set self key entry = AList.update key entry self"

definition index_get :: "index \<Rightarrow> bytes \<Rightarrow> index_entry option" where
  "index_get self key = map_of self key"

definition index_remove :: "index \<Rightarrow> bytes \<Rightarrow> index \<times> bool" where
  "index_remove self key = (AList.delete key self, map_of self key \<noteq> None)"

definition index_len :: "index \<Rightarrow> nat" where
  "index_len self = length self"

definition index_is_empty :: "index \<Rightarrow> bool" where
  "index_is_empty self = (self = [])"

definition index_iter :: "index \<Rightarrow> (bytes \<times> index_entry) list" where
  "index_iter self = self"

text \<open>\<open>xxh3_64(key) as u32\<close>.\<close>

definition fingerprint_of :: "(bytes \<Rightarrow> u64) \<Rightarrow> bytes \<Rightarrow> u32" where
  "fingerprint_of xxh3 key = ucast (xxh3 key)"

definition index_ok :: "index \<Rightarrow> bool" where
  "index_ok self \<longleftrightarrow> distinct (map fst self)"

lemma index_get_set [simp]: "index_get (index_set m k e) = (index_get m)(k \<mapsto> e)"
  by (simp add: index_get_def index_set_def amap.lookup_insert fun_eq_iff)

lemma index_get_remove [simp]: "index_get (fst (index_remove m k)) = (index_get m)(k := None)"
  by (simp add: index_get_def index_remove_def amap.lookup_remove fun_eq_iff)

lemma index_ok_new [simp]: "index_ok index_new"
  by (simp add: index_ok_def index_new_def)

lemma index_ok_set [simp]: "index_ok m \<Longrightarrow> index_ok (index_set m k e)"
  by (simp add: index_ok_def index_set_def amap.invar_insert)

lemma index_ok_remove [simp]: "index_ok m \<Longrightarrow> index_ok (fst (index_remove m k))"
  by (simp add: index_ok_def index_remove_def amap.invar_remove)

lemma index_get_new [simp]: "index_get index_new = Map.empty"
  by (simp add: index_get_def index_new_def fun_eq_iff)

subsection \<open>Snapshot encoding (snapshot.rs)\<close>

definition SNAP_MAGIC :: u32 where "SNAP_MAGIC = 0x534B5350"
definition SNAP_VERSION :: u8 where "SNAP_VERSION = 1"
definition SNAP_HEADER_LEN :: nat where "SNAP_HEADER_LEN = 4 + 1 + 2 + 8 + 4"

record snapshot =
  snap_hwm :: u16
  snap_max_ts :: u64
  snap_entries :: "(bytes \<times> index_entry) list"

definition put_snap_entry :: "bytes \<times> index_entry \<Rightarrow> bytes" where
  "put_snap_entry ke =
    (case ke of (key, e) \<Rightarrow>
       u32_to_le (of_nat (length key)) @ key @ u32_to_le (fingerprint e) @ u16_to_le (segment_id e)
       @ u32_to_le (entry_offset e) @ u32_to_le (entry_size e))"

definition snap_body :: "u16 \<Rightarrow> u64 \<Rightarrow> (bytes \<times> index_entry) list \<Rightarrow> bytes" where
  "snap_body hwm max_ts entries =
    u32_to_le SNAP_MAGIC @ [SNAP_VERSION] @ u16_to_le hwm @ u64_to_le max_ts
    @ u32_to_le (of_nat (length entries)) @ concat (map put_snap_entry entries)"

definition snap_encode :: "(bytes \<Rightarrow> u32) \<Rightarrow> u16 \<Rightarrow> u64 \<Rightarrow> (bytes \<times> index_entry) list \<Rightarrow> bytes" where
  "snap_encode crc hwm max_ts entries =
    (let buf = snap_body hwm max_ts entries in buf @ u32_to_le (crc buf))"

text \<open>One iteration of the entry loop of \<open>decode\<close>; \<open>en\<close> is the end of the entries.\<close>

definition snap_entry_at :: "nat \<Rightarrow> bytes \<Rightarrow> nat \<Rightarrow> ((bytes \<times> index_entry) \<times> nat) option" where
  "snap_entry_at en buf pos =
    (if pos + 4 > en then None
     else let klen = unat (u32_from_le (bslice pos (pos + 4) buf)); pos = pos + 4 in
       if pos + klen + 14 > en then None
       else let key = bslice pos (pos + klen) buf; pos = pos + klen in
         Some ((key, \<lparr>fingerprint = u32_from_le (bslice pos (pos + 4) buf),
                      segment_id = u16_from_le (bslice (pos + 4) (pos + 6) buf),
                      entry_pad = 0,
                      entry_offset = u32_from_le (bslice (pos + 6) (pos + 10) buf),
                      entry_size = u32_from_le (bslice (pos + 10) (pos + 14) buf)\<rparr>), pos + 14))"

definition snap_decode :: "(bytes \<Rightarrow> u32) \<Rightarrow> bytes \<Rightarrow> snapshot option" where
  "snap_decode crc buf =
    (if length buf < SNAP_HEADER_LEN + 4 then None
     else let en = length buf - 4; crc_stored = u32_from_le (bslice en (length buf) buf) in
       if crc (bslice 0 en buf) \<noteq> crc_stored then None
       else if u32_from_le (bslice 0 4 buf) \<noteq> SNAP_MAGIC then None
       else if buf ! 4 \<noteq> SNAP_VERSION then None
       else let hwm = u16_from_le (bslice 5 7 buf);
                max_ts = u64_from_le (bslice 7 15 buf);
                n = unat (u32_from_le (bslice 15 19 buf)) in
         (case for_opt n (snap_entry_at en buf) SNAP_HEADER_LEN of
            None \<Rightarrow> None
          | Some entries \<Rightarrow> Some \<lparr>snap_hwm = hwm, snap_max_ts = max_ts, snap_entries = entries\<rparr>))"

subsection \<open>Snapshot files\<close>

record snap_dir =
  snap_file :: "bytes option"
  snap_tmp :: "bytes option"

text \<open>
  \<open>write\<close> as the sequence of directory states a crash can leave: the temporary file created, holding
  more and more of the data, then renamed over the committed file.
\<close>

definition snap_write_states :: "(bytes \<Rightarrow> u32) \<Rightarrow> snap_dir \<Rightarrow> u16 \<Rightarrow> u64 \<Rightarrow> (bytes \<times> index_entry) list \<Rightarrow> snap_dir list" where
  "snap_write_states crc d hwm max_ts entries =
    (let buf = snap_encode crc hwm max_ts entries in
     map (\<lambda>n. d\<lparr>snap_tmp := Some (take n buf)\<rparr>) [0..<Suc (length buf)]
     @ [d\<lparr>snap_file := Some buf, snap_tmp := None\<rparr>])"

definition snap_write :: "(bytes \<Rightarrow> u32) \<Rightarrow> snap_dir \<Rightarrow> u16 \<Rightarrow> u64 \<Rightarrow> (bytes \<times> index_entry) list \<Rightarrow> snap_dir" where
  "snap_write crc d hwm max_ts entries = last (snap_write_states crc d hwm max_ts entries)"

definition snap_read :: "(bytes \<Rightarrow> u32) \<Rightarrow> snap_dir \<Rightarrow> snapshot option" where
  "snap_read crc d = (case snap_file d of None \<Rightarrow> None | Some raw \<Rightarrow> snap_decode crc raw)"

definition snap_remove :: "snap_dir \<Rightarrow> snap_dir" where
  "snap_remove d = d\<lparr>snap_file := None\<rparr>"

subsection \<open>Round trip\<close>

lemma length_put_snap_entry [simp]: "length (put_snap_entry ke) = 18 + length (fst ke)"
  by (simp add: put_snap_entry_def split: prod.split)

lemma length_snap_body [simp]:
  "length (snap_body h t es) = 19 + length (concat (map put_snap_entry es))"
  by (simp add: snap_body_def)

definition snap_entry_ok :: "bytes \<times> index_entry \<Rightarrow> bool" where
  "snap_entry_ok ke \<longleftrightarrow> length (fst ke) < 2 ^ 32 \<and> entry_pad (snd ke) = 0"

lemma snap_entry_at_put:
  assumes "snap_entry_ok ke"
  shows "snap_entry_at (length (pre @ put_snap_entry ke @ post)) (pre @ put_snap_entry ke @ post) (length pre)
    = Some (ke, length pre + length (put_snap_entry ke))"
  using assms
  by (cases ke) (simp add: snap_entry_at_def put_snap_entry_def snap_entry_ok_def Let_def bslice_after
      bslice_prefix unat_of_nat_small)

interpretation snap_codec: cursor_codec put_snap_entry "\<lambda>buf. snap_entry_at (length buf) buf" snap_entry_ok
  by unfold_locales (rule snap_entry_at_put)

text \<open>The trailing CRC lies past the end of the entries and is never read as one.\<close>

lemma snap_entry_at_append: "snap_entry_at (length b) (b @ c) = snap_entry_at (length b) b"
  by (rule ext) (simp add: snap_entry_at_def Let_def bslice_append_left)

lemma snap_decode_encode:
  assumes "list_all snap_entry_ok es" and "length es < 2 ^ 32"
  shows "snap_decode crc (snap_encode crc h t es) = Some \<lparr>snap_hwm = h, snap_max_ts = t, snap_entries = es\<rparr>"
proof -
  let ?b = "snap_body h t es" and ?c = "u32_to_le (crc (snap_body h t es))"
  let ?e = "concat (map put_snap_entry es)"
  let ?h = "u32_to_le SNAP_MAGIC @ [SNAP_VERSION] @ u16_to_le h @ u64_to_le t @ u32_to_le (of_nat (length es))"
  have b: "?b = ?h @ ?e"
    by (simp add: snap_body_def)
  have f: "bslice 0 4 (?b @ ?c) = u32_to_le SNAP_MAGIC" "(?b @ ?c) ! 4 = SNAP_VERSION"
    "bslice 5 7 (?b @ ?c) = u16_to_le h" "bslice 7 15 (?b @ ?c) = u64_to_le t"
    "bslice 15 19 (?b @ ?c) = u32_to_le (of_nat (length es))"
    by (simp_all add: snap_body_def bslice_after bslice_prefix bslice_Cons nth_append)
  have c: "bslice (length ?b) (length ?b + 4) (?b @ ?c) = ?c" "bslice 0 (length ?b) (?b @ ?c) = ?b"
    using bslice_at [of "length ?b" ?b "length ?b + 4" ?c "[]"] by (simp_all add: bslice_prefix)
  have loop: "for_opt (length es) (snap_entry_at (length ?b) (?b @ ?c)) 19 = Some es"
  proof -
    have "for_opt (length es) (snap_entry_at (length ?b) ?b) 19 = Some es"
      using snap_codec.for_opt_put [OF assms(1) refl, of 19 ?h "[]"] by (simp add: b)
    then show ?thesis
      by (simp only: snap_entry_at_append)
  qed
  have len: "length (?b @ ?c) = length ?b + 4"
    by simp
  have n: "unat (of_nat (length es) :: u32) = length es"
    using assms(2) by (simp add: unat_of_nat_small)
  show ?thesis
    unfolding snap_encode_def snap_decode_def Let_def len
    using f c loop n by (simp add: SNAP_HEADER_LEN_def del: append_assoc)
qed

subsection \<open>Properties\<close>

text \<open>
  C23: An index snapshot reads back as written: for entries with keys under 4 GiB, decoding the encoded
  bytes yields the high-water mark, the clock value and every entry in order.
\<close>

theorem snapshot_roundtrip:
  assumes "list_all snap_entry_ok es" and "length es < 2 ^ 32"
  shows "snap_read crc (snap_write crc d h t es) = Some \<lparr>snap_hwm = h, snap_max_ts = t, snap_entries = es\<rparr>"
  using snap_decode_encode [OF assms]
  by (simp add: snap_read_def snap_write_def snap_write_states_def Let_def)

definition demo_entry :: index_entry where
  "demo_entry = \<lparr>fingerprint = 7, segment_id = 2, entry_pad = 0, entry_offset = 128, entry_size = 256\<rparr>"

theorem snapshot_roundtrip_witness:
  "snap_read (\<lambda>_. 5) (snap_write (\<lambda>_. 5) \<lparr>snap_file = None, snap_tmp = None\<rparr> 2 9 [([107], demo_entry)])
    = Some \<lparr>snap_hwm = 2, snap_max_ts = 9, snap_entries = [([107], demo_entry)]\<rparr>"
  by (rule snapshot_roundtrip) (simp_all add: snap_entry_ok_def demo_entry_def)



end
