(* ===== verification/Core_Cache.thy ===== *)
theory Core_Cache
  imports Prelude
begin

text \<open>
  The S3-FIFO hot-key cache (\<open>crates/skeg-core/src/cache.rs\<close>). Counters are \<open>usize\<close> on a 64-bit
  target and wrap as the release profile does. The hash \<open>xxh3_64\<close> comes from an external crate and is
  the parameter \<open>xxh3\<close>. The loop of \<open>insert_for\<close> that evicts until the new entry fits has no bound in
  the source, so \<open>make_room\<close> is a partial function: \<open>None\<close> is "never returns".
\<close>

definition ENTRY_OVERHEAD :: u64 where "ENTRY_OVERHEAD = 64"
definition GHOST_CAPACITY :: nat where "GHOST_CAPACITY = 65536"
definition MAX_FAIR_SKIPS :: nat where "MAX_FAIR_SKIPS = 16"

record 'v cache_entry =
  ce_value :: 'v
  ce_size :: u64
  ce_freq :: u8
  ce_in_small :: bool
  ce_tenant :: u64

record 'v s3fifo =
  cmap :: "(bytes \<times> 'v cache_entry) list"
  small :: "bytes list"
  main :: "bytes list"
  ghost :: "u64 list"
  ghost_set :: "u64 set"
  tenant0_bytes :: u64
  per_tenant :: "(u64 \<times> u64) list"
  budget_bytes :: u64
  small_budget :: u64
  total_bytes :: u64
  small_bytes :: u64
  hits :: u64
  misses :: u64
  evictions :: u64

text \<open>\<open>S3Fifo::new\<close>; the assertion on the budget is the panic \<open>None\<close>.\<close>

definition cache_new :: "u64 \<Rightarrow> 'v s3fifo option" where
  "cache_new budget =
    (if budget < 1 then None
     else Some \<lparr>cmap = [], small = [], main = [], ghost = [], ghost_set = {}, tenant0_bytes = 0,
       per_tenant = [], budget_bytes = budget, small_budget = max (budget div 10) 1,
       total_bytes = 0, small_bytes = 0, hits = 0, misses = 0, evictions = 0\<rparr>)"

definition cache_get :: "'v s3fifo \<Rightarrow> bytes \<Rightarrow> 'v option \<times> 'v s3fifo" where
  "cache_get self key =
    (case map_of (cmap self) key of
       Some e \<Rightarrow>
         (Some (ce_value e),
          self\<lparr>cmap := AList.update key (e\<lparr>ce_freq := min (ce_freq e + 1) 3\<rparr>) (cmap self),
               hits := hits self + 1\<rparr>)
     | None \<Rightarrow> (None, self\<lparr>misses := misses self + 1\<rparr>))"

subsection \<open>Per-tenant accounting\<close>

definition add_tenant_bytes :: "'v s3fifo \<Rightarrow> u64 \<Rightarrow> u64 \<Rightarrow> 'v s3fifo" where
  "add_tenant_bytes self tenant n =
    (if tenant = 0 then self\<lparr>tenant0_bytes := tenant0_bytes self + n\<rparr>
     else self\<lparr>per_tenant := AList.update tenant
            ((case map_of (per_tenant self) tenant of None \<Rightarrow> 0 | Some b \<Rightarrow> b) + n) (per_tenant self)\<rparr>)"

definition sub_tenant_bytes :: "'v s3fifo \<Rightarrow> u64 \<Rightarrow> u64 \<Rightarrow> 'v s3fifo" where
  "sub_tenant_bytes self tenant n =
    (if tenant = 0 then self\<lparr>tenant0_bytes := tenant0_bytes self - n\<rparr>
     else (case map_of (per_tenant self) tenant of
             None \<Rightarrow> self
           | Some b \<Rightarrow>
               if b - n = 0 then self\<lparr>per_tenant := AList.delete tenant (per_tenant self)\<rparr>
               else self\<lparr>per_tenant := AList.update tenant (b - n) (per_tenant self)\<rparr>))"

definition tenant_charged :: "'v s3fifo \<Rightarrow> u64 \<Rightarrow> u64" where
  "tenant_charged self tenant =
    (if tenant = 0 then tenant0_bytes self
     else (case map_of (per_tenant self) tenant of None \<Rightarrow> 0 | Some b \<Rightarrow> b))"

definition charged_bytes :: "'v s3fifo \<Rightarrow> u128 \<Rightarrow> u64" where
  "charged_bytes self tenant = tenant_charged self (ucast tenant)"

definition share_target :: "'v s3fifo \<Rightarrow> u64" where
  "share_target self =
    (let active = of_nat (length (per_tenant self)) + (if tenant0_bytes self > 0 then 1 else 0) in
     budget_bytes self div max active 1)"

definition has_over_share :: "'v s3fifo \<Rightarrow> u64 \<Rightarrow> bool" where
  "has_over_share self target \<longleftrightarrow>
     tenant0_bytes self > target \<or> list_ex (\<lambda>(t, b). b > target) (per_tenant self)"

definition cache_remove :: "'v s3fifo \<Rightarrow> bytes \<Rightarrow> 'v s3fifo \<times> bool" where
  "cache_remove self key =
    (case map_of (cmap self) key of
       Some e \<Rightarrow>
         (let self = self\<lparr>cmap := AList.delete key (cmap self), total_bytes := total_bytes self - ce_size e\<rparr>;
              self = (if ce_in_small e then self\<lparr>small_bytes := small_bytes self - ce_size e\<rparr> else self) in
          (sub_tenant_bytes self (ce_tenant e) (ce_size e), True))
     | None \<Rightarrow> (self, False))"

subsection \<open>Eviction\<close>

text \<open>The ghost queue; its loop pops at most what one push can put over the capacity.\<close>

fun ghost_trim :: "u64 list \<Rightarrow> u64 set \<Rightarrow> u64 list \<times> u64 set" where
  "ghost_trim [] gs = ([], gs)"
| "ghost_trim (g # q) gs =
     (if length (g # q) > GHOST_CAPACITY then ghost_trim q (gs - {g}) else (g # q, gs))"

definition ghost_push :: "'v s3fifo \<Rightarrow> u64 \<Rightarrow> 'v s3fifo" where
  "ghost_push self kh =
    (let (q, gs) = (if kh \<notin> ghost_set self then (ghost self @ [kh], insert kh (ghost_set self))
                    else (ghost self, ghost_set self));
         (q, gs) = ghost_trim q gs in
     self\<lparr>ghost := q, ghost_set := gs\<rparr>)"

text \<open>The loop of \<open>evict_from_small\<close>, over what is left of the queue.\<close>

fun small_loop :: "(bytes \<Rightarrow> u64) \<Rightarrow> bytes list \<Rightarrow> 'v s3fifo \<Rightarrow> 'v s3fifo \<times> bool" where
  "small_loop xxh3 [] self = (self\<lparr>small := []\<rparr>, False)"
| "small_loop xxh3 (key # rest) self =
    (let self = self\<lparr>small := rest\<rparr> in
     case map_of (cmap self) key of
       None \<Rightarrow> small_loop xxh3 rest self
     | Some e \<Rightarrow>
         if ce_freq e > 1
         then small_loop xxh3 rest
           (self\<lparr>cmap := AList.update key (e\<lparr>ce_freq := 0, ce_in_small := False\<rparr>) (cmap self),
                 small_bytes := small_bytes self - ce_size e,
                 main := main self @ [key]\<rparr>)
         else
           (let self = self\<lparr>cmap := AList.delete key (cmap self),
                            total_bytes := total_bytes self - ce_size e,
                            small_bytes := small_bytes self - ce_size e\<rparr>;
                self = sub_tenant_bytes self (ce_tenant e) (ce_size e);
                self = ghost_push self (xxh3 key) in
            (self\<lparr>evictions := evictions self + 1\<rparr>, True)))"

definition evict_from_small :: "(bytes \<Rightarrow> u64) \<Rightarrow> 'v s3fifo \<Rightarrow> 'v s3fifo \<times> bool" where
  "evict_from_small xxh3 self = small_loop xxh3 (small self) self"

lemma sum_entries_freq_less:
  assumes "map_of m k = Some e" and "f k e' < (f k e :: nat)"
  shows "sum_entries f (AList.update k e' m) < sum_entries f m"
  using assms by (induction m) auto

text \<open>
  The loop of \<open>evict_from_main\<close>. It ends: a stale key shortens the queue, a second chance lowers a
  frequency, a fairness skip uses one of at most sixteen.
\<close>

function main_loop :: "u64 \<Rightarrow> bool \<Rightarrow> nat \<Rightarrow> 'v s3fifo \<Rightarrow> 'v s3fifo" where
  "main_loop target over_exists skips self =
    (case main self of
       [] \<Rightarrow> self
     | key # rest \<Rightarrow>
         (case map_of (cmap self) key of
            None \<Rightarrow> main_loop target over_exists skips (self\<lparr>main := rest\<rparr>)
          | Some e \<Rightarrow>
              if ce_freq e > 0
              then main_loop target over_exists skips
                (self\<lparr>cmap := AList.update key (e\<lparr>ce_freq := ce_freq e - 1\<rparr>) (cmap self),
                      main := rest @ [key]\<rparr>)
              else if over_exists \<and> skips < MAX_FAIR_SKIPS \<and> tenant_charged self (ce_tenant e) \<le> target
              then main_loop target over_exists (skips + 1) (self\<lparr>main := rest @ [key]\<rparr>)
              else
                (let self = self\<lparr>main := rest, cmap := AList.delete key (cmap self),
                                 total_bytes := total_bytes self - ce_size e\<rparr>;
                     self = sub_tenant_bytes self (ce_tenant e) (ce_size e) in
                 self\<lparr>evictions := evictions self + 1\<rparr>)))"
  by pat_completeness auto
termination
proof (relation "measures [\<lambda>(t, ov, s, c). sum_entries (\<lambda>k e. unat (ce_freq e)) (cmap c),
    \<lambda>(t, ov, s, c). MAX_FAIR_SKIPS - s, \<lambda>(t, ov, s, c). length (main c)]", goal_cases)
  case (3 t ov s c key rest e)
  then have "unat (ce_freq e - 1) < unat (ce_freq e)"
    by (simp add: unat_minus_one word_gt_0 unat_gt_0)
  then show ?case
    using 3 by (auto intro!: sum_entries_freq_less)
qed auto

declare main_loop.simps [simp del]

definition evict_from_main :: "'v s3fifo \<Rightarrow> 'v s3fifo" where
  "evict_from_main self =
    (let (target, over_exists) =
       (if per_tenant self = [] then (0, False)
        else let t = share_target self in (t, has_over_share self t)) in
     main_loop target over_exists 0 self)"

definition evict_one :: "(bytes \<Rightarrow> u64) \<Rightarrow> 'v s3fifo \<Rightarrow> 'v s3fifo" where
  "evict_one xxh3 self =
    (if small_bytes self \<ge> small_budget self
     then (case evict_from_small xxh3 self of
             (self', True) \<Rightarrow> self'
           | (self', False) \<Rightarrow> evict_from_main self')
     else evict_from_main self)"

subsection \<open>Insertion\<close>

partial_function (option) make_room :: "(bytes \<Rightarrow> u64) \<Rightarrow> u64 \<Rightarrow> 'v s3fifo \<Rightarrow> 'v s3fifo option" where
  "make_room xxh3 entry_size self =
    (if total_bytes self + entry_size > budget_bytes self \<and> cmap self \<noteq> []
     then make_room xxh3 entry_size (evict_one xxh3 self)
     else Some self)"

definition overwrite_entry :: "'v s3fifo \<Rightarrow> bytes \<Rightarrow> 'v cache_entry \<Rightarrow> 'v \<Rightarrow> u64 \<Rightarrow> u64 \<Rightarrow> 'v s3fifo" where
  "overwrite_entry self key e val entry_size tenant =
    (let old = ce_size e;
         self = self\<lparr>cmap := AList.update key
                  (e\<lparr>ce_value := val, ce_size := entry_size, ce_tenant := tenant\<rparr>) (cmap self),
                total_bytes := total_bytes self + entry_size - old\<rparr>;
         self = (if ce_in_small e then self\<lparr>small_bytes := small_bytes self + entry_size - old\<rparr> else self);
         self = sub_tenant_bytes self (ce_tenant e) old in
     add_tenant_bytes self tenant entry_size)"

definition admit_entry :: "(bytes \<Rightarrow> u64) \<Rightarrow> 'v s3fifo \<Rightarrow> bytes \<Rightarrow> 'v \<Rightarrow> u64 \<Rightarrow> u64 \<Rightarrow> 'v s3fifo" where
  "admit_entry xxh3 self key val entry_size tenant =
    (let kh = xxh3 key;
         in_small = (kh \<notin> ghost_set self);
         self = self\<lparr>ghost_set := ghost_set self - {kh}\<rparr>;
         self = (if in_small
                 then self\<lparr>small := small self @ [key], small_bytes := small_bytes self + entry_size\<rparr>
                 else self\<lparr>main := main self @ [key]\<rparr>);
         self = self\<lparr>cmap := AList.update key \<lparr>ce_value = val, ce_size = entry_size, ce_freq = 0,
                               ce_in_small = in_small, ce_tenant = tenant\<rparr> (cmap self),
                total_bytes := total_bytes self + entry_size\<rparr> in
     add_tenant_bytes self tenant entry_size)"

definition insert_for ::
  "(bytes \<Rightarrow> u64) \<Rightarrow> 'v s3fifo \<Rightarrow> bytes \<Rightarrow> 'v \<Rightarrow> u64 \<Rightarrow> u128 \<Rightarrow> 'v s3fifo option" where
  "insert_for xxh3 self key val value_bytes tenant128 =
    (let tenant = ucast tenant128 :: u64;
         entry_size = of_nat (length key) + value_bytes + ENTRY_OVERHEAD in
     case map_of (cmap self) key of
       Some e \<Rightarrow> Some (overwrite_entry self key e val entry_size tenant)
     | None \<Rightarrow>
         (case make_room xxh3 entry_size self of
            None \<Rightarrow> None
          | Some self \<Rightarrow> Some (admit_entry xxh3 self key val entry_size tenant)))"

definition cache_insert :: "(bytes \<Rightarrow> u64) \<Rightarrow> 'v s3fifo \<Rightarrow> bytes \<Rightarrow> 'v \<Rightarrow> u64 \<Rightarrow> 'v s3fifo option" where
  "cache_insert xxh3 self key val value_bytes = insert_for xxh3 self key val value_bytes 0"

definition cache_len :: "'v s3fifo \<Rightarrow> nat" where
  "cache_len self = length (cmap self)"

definition cache_is_empty :: "'v s3fifo \<Rightarrow> bool" where
  "cache_is_empty self \<longleftrightarrow> cmap self = []"

definition current_bytes :: "'v s3fifo \<Rightarrow> u64" where
  "current_bytes self = total_bytes self"

subsection \<open>Byte accounting\<close>

definition entry_sum :: "(bytes \<times> 'v cache_entry) list \<Rightarrow> nat" where
  "entry_sum m = sum_entries (\<lambda>k e. unat (ce_size e)) m"

definition tenant_sum :: "u64 \<Rightarrow> (bytes \<times> 'v cache_entry) list \<Rightarrow> nat" where
  "tenant_sum t m = sum_entries (\<lambda>k e. if ce_tenant e = t then unat (ce_size e) else 0) m"

definition charged_sum :: "'v s3fifo \<Rightarrow> nat" where
  "charged_sum c = unat (tenant0_bytes c) + sum_entries (\<lambda>t b. unat b) (per_tenant c)"

text \<open>
  The counters are exact: the total is the sum of the entry sizes, every tenant is charged the sizes
  of its own entries, the charges add up to the total, and only tenants with residency are listed.
\<close>

definition acct :: "'v s3fifo \<Rightarrow> bool" where
  "acct c \<longleftrightarrow> distinct (map fst (cmap c)) \<and> distinct (map fst (per_tenant c)) \<and>
     unat (total_bytes c) = entry_sum (cmap c) \<and>
     (\<forall>t. unat (tenant_charged c t) = tenant_sum t (cmap c)) \<and>
     charged_sum c = entry_sum (cmap c) \<and>
     (\<forall>t b. map_of (per_tenant c) t = Some b \<longrightarrow> t \<noteq> 0 \<and> b \<noteq> 0)"

lemma charges_cong:
  assumes "per_tenant c' = per_tenant c" "tenant0_bytes c' = tenant0_bytes c"
  shows "tenant_charged c' = tenant_charged c" "charged_sum c' = charged_sum c"
  using assms by (simp_all add: tenant_charged_def charged_sum_def fun_eq_iff)

lemma acct_cong:
  assumes "acct c" "cmap c' = cmap c" "per_tenant c' = per_tenant c"
    "tenant0_bytes c' = tenant0_bytes c" "total_bytes c' = total_bytes c"
  shows "acct c'"
  using assms charges_cong [of c' c] by (simp add: acct_def)

lemma acct_map_cong:
  assumes "acct c" "per_tenant c' = per_tenant c"
    "tenant0_bytes c' = tenant0_bytes c" "total_bytes c' = total_bytes c"
    and "cmap c' = AList.update k e' (cmap c)" "map_of (cmap c) k = Some e"
    and "ce_size e' = ce_size e" "ce_tenant e' = ce_tenant e"
  shows "acct c'"
proof -
  have d: "distinct (map fst (cmap c))"
    using assms(1) by (simp add: acct_def)
  have "entry_sum (cmap c') = entry_sum (cmap c)" "tenant_sum t (cmap c') = tenant_sum t (cmap c)" for t
    using sum_entries_update [OF d assms(6), of "\<lambda>k e. unat (ce_size e)" e']
      sum_entries_update [OF d assms(6), of "\<lambda>k e. if ce_tenant e = t then unat (ce_size e) else 0" e']
    by (auto simp: entry_sum_def tenant_sum_def assms(5,7,8) split: if_splits)
  then show ?thesis
    using assms(1-4) d charges_cong [of c' c] by (simp add: acct_def assms(5) AList.distinct_update)
qed

lemma tenant_sum_le_entry_sum: "tenant_sum t m \<le> entry_sum m"
proof (induction m)
  case (Cons a m)
  then show ?case
    by (cases a) (auto simp: tenant_sum_def entry_sum_def)
qed (simp add: tenant_sum_def entry_sum_def)

lemma tenant_charged_sub:
  assumes "n \<le> tenant_charged c t"
  shows "tenant_charged (sub_tenant_bytes c t n) u
    = (if u = t then tenant_charged c t - n else tenant_charged c u)"
  using assms
  by (auto simp: tenant_charged_def sub_tenant_bytes_def amap.lookup_insert amap.lookup_remove
      split: option.splits if_splits)

lemma charged_sum_sub:
  assumes "n \<le> tenant_charged c t" and "distinct (map fst (per_tenant c))"
  shows "charged_sum (sub_tenant_bytes c t n) + unat n = charged_sum c"
proof (cases "t = 0 \<or> map_of (per_tenant c) t = None")
  case True
  then show ?thesis
    using assms(1)
    by (auto simp: charged_sum_def sub_tenant_bytes_def tenant_charged_def unat_sub word_le_nat_alt)
next
  case False
  then obtain b where b: "map_of (per_tenant c) t = Some b" "t \<noteq> 0" by auto
  then have n: "n \<le> b"
    using assms(1) by (simp add: tenant_charged_def)
  then have u: "unat (b - n) + unat n = unat b"
    by (simp add: unat_sub word_le_nat_alt)
  show ?thesis
    using b n u sum_entries_remove [OF assms(2) b(1), of "\<lambda>t b. unat b"]
      sum_entries_update [OF assms(2) b(1), of "\<lambda>t b. unat b" "b - n"]
    by (auto simp: charged_sum_def sub_tenant_bytes_def)
qed

lemma tenant_charged_add:
  "tenant_charged (add_tenant_bytes c t n) u
    = (if u = t then tenant_charged c t + n else tenant_charged c u)"
  by (auto simp: tenant_charged_def add_tenant_bytes_def amap.lookup_insert split: option.splits)

lemma charged_sum_add:
  assumes "unat (tenant_charged c t) + unat n < 2 ^ 64" and "distinct (map fst (per_tenant c))"
  shows "charged_sum (add_tenant_bytes c t n) = charged_sum c + unat n"
proof -
  have u: "unat (tenant_charged c t + n) = unat (tenant_charged c t) + unat n"
    using assms(1) by (simp add: unat_word_ariths)
  show ?thesis
  proof (cases "map_of (per_tenant c) t")
    case None
    then show ?thesis
      using u by (auto simp: charged_sum_def add_tenant_bytes_def tenant_charged_def sum_entries_insert_new)
  next
    case (Some b)
    then show ?thesis
      using u sum_entries_update [OF assms(2) Some, of "\<lambda>t b. unat b" "b + n"]
      by (auto simp: charged_sum_def add_tenant_bytes_def tenant_charged_def split: if_splits)
  qed
qed

lemma tenant_bytes_frame [simp]:
  "cmap (sub_tenant_bytes c t n) = cmap c" "cmap (add_tenant_bytes c t n) = cmap c"
  "total_bytes (sub_tenant_bytes c t n) = total_bytes c" "total_bytes (add_tenant_bytes c t n) = total_bytes c"
  "small (sub_tenant_bytes c t n) = small c" "small (add_tenant_bytes c t n) = small c"
  "main (sub_tenant_bytes c t n) = main c" "main (add_tenant_bytes c t n) = main c"
  "small_bytes (sub_tenant_bytes c t n) = small_bytes c" "small_bytes (add_tenant_bytes c t n) = small_bytes c"
  "budget_bytes (sub_tenant_bytes c t n) = budget_bytes c" "budget_bytes (add_tenant_bytes c t n) = budget_bytes c"
  "small_budget (sub_tenant_bytes c t n) = small_budget c" "small_budget (add_tenant_bytes c t n) = small_budget c"
  by (simp_all add: sub_tenant_bytes_def add_tenant_bytes_def split: option.split)

lemma ghost_push_frame [simp]:
  "cmap (ghost_push c h) = cmap c" "total_bytes (ghost_push c h) = total_bytes c"
  "small (ghost_push c h) = small c" "main (ghost_push c h) = main c"
  "small_bytes (ghost_push c h) = small_bytes c" "budget_bytes (ghost_push c h) = budget_bytes c"
  "small_budget (ghost_push c h) = small_budget c" "per_tenant (ghost_push c h) = per_tenant c"
  "tenant0_bytes (ghost_push c h) = tenant0_bytes c"
  by (simp_all add: ghost_push_def Let_def split: prod.splits)

lemma per_tenant_sub:
  assumes "distinct (map fst (per_tenant c))" and "(\<forall>t b. map_of (per_tenant c) t = Some b \<longrightarrow> t \<noteq> 0 \<and> b \<noteq> 0)"
  shows "distinct (map fst (per_tenant (sub_tenant_bytes c t n)))"
    and "\<forall>u b. map_of (per_tenant (sub_tenant_bytes c t n)) u = Some b \<longrightarrow> u \<noteq> 0 \<and> b \<noteq> 0"
proof -
  show "distinct (map fst (per_tenant (sub_tenant_bytes c t n)))"
    using assms(1) by (auto simp: sub_tenant_bytes_def AList.distinct_update AList.distinct_delete split: option.split)
  show "\<forall>u b. map_of (per_tenant (sub_tenant_bytes c t n)) u = Some b \<longrightarrow> u \<noteq> 0 \<and> b \<noteq> 0"
    using assms(2-)
    by (auto simp: sub_tenant_bytes_def amap.lookup_insert amap.lookup_remove
        split: option.splits if_splits)
qed

lemma per_tenant_add:
  assumes "distinct (map fst (per_tenant c))" and "(\<forall>t b. map_of (per_tenant c) t = Some b \<longrightarrow> t \<noteq> 0 \<and> b \<noteq> 0)"
    and "tenant_charged c t + n \<noteq> 0"
  shows "distinct (map fst (per_tenant (add_tenant_bytes c t n)))"
    and "\<forall>u b. map_of (per_tenant (add_tenant_bytes c t n)) u = Some b \<longrightarrow> u \<noteq> 0 \<and> b \<noteq> 0"
proof -
  show "distinct (map fst (per_tenant (add_tenant_bytes c t n)))"
    using assms(1) by (auto simp: add_tenant_bytes_def AList.distinct_update)
  show "\<forall>u b. map_of (per_tenant (add_tenant_bytes c t n)) u = Some b \<longrightarrow> u \<noteq> 0 \<and> b \<noteq> 0"
    using assms(2-)
    by (auto simp: add_tenant_bytes_def tenant_charged_def amap.lookup_insert
        split: option.splits if_splits)
qed

text \<open>Dropping an entry and refunding its tenant keeps the accounting; so does charging a new one.\<close>

lemma acct_sizes:
  assumes "acct c" and "map_of (cmap c) k = Some e"
  shows "ce_size e \<le> total_bytes c" and "ce_size e \<le> tenant_charged c (ce_tenant e)"
    and "entry_sum (AList.delete k (cmap c)) + unat (ce_size e) = entry_sum (cmap c)"
    and "tenant_sum t (AList.delete k (cmap c)) + (if ce_tenant e = t then unat (ce_size e) else 0)
      = tenant_sum t (cmap c)"
proof -
  have d: "distinct (map fst (cmap c))"
    using assms(1) by (simp add: acct_def)
  show e: "entry_sum (AList.delete k (cmap c)) + unat (ce_size e) = entry_sum (cmap c)"
    using sum_entries_remove [OF d assms(2), of "\<lambda>k e. unat (ce_size e)"] by (simp add: entry_sum_def)
  have t: "tenant_sum t (AList.delete k (cmap c)) + (if ce_tenant e = t then unat (ce_size e) else 0)
      = tenant_sum t (cmap c)" for t
    using sum_entries_remove [OF d assms(2), of "\<lambda>k e. if ce_tenant e = t then unat (ce_size e) else 0"]
    by (simp add: tenant_sum_def)
  show "tenant_sum t (AList.delete k (cmap c)) + (if ce_tenant e = t then unat (ce_size e) else 0)
      = tenant_sum t (cmap c)"
    by (rule t)
  show "ce_size e \<le> total_bytes c"
    using e assms(1) by (simp add: acct_def word_le_nat_alt)
  show "ce_size e \<le> tenant_charged c (ce_tenant e)"
    using t [of "ce_tenant e"] assms(1) by (simp add: acct_def word_le_nat_alt)
qed

definition drop_entry :: "'v s3fifo \<Rightarrow> bytes \<Rightarrow> 'v cache_entry \<Rightarrow> 'v s3fifo" where
  "drop_entry c k e = sub_tenant_bytes
     (c\<lparr>cmap := AList.delete k (cmap c), total_bytes := total_bytes c - ce_size e\<rparr>) (ce_tenant e) (ce_size e)"

lemma unat_add_fits: "unat a + unat (b :: u64) < 2 ^ 64 \<Longrightarrow> unat (a + b) = unat a + unat b"
  by (simp add: unat_word_ariths)

lemma unat_diff_le: "n \<le> (b :: 'a::len word) \<Longrightarrow> unat (b - n) = unat b - unat n"
  by (simp add: unat_sub)

lemma acct_drop_entry:
  assumes "acct c" and "map_of (cmap c) k = Some e"
  shows "acct (drop_entry c k e)"
proof -
  note s = acct_sizes [OF assms]
  let ?c = "c\<lparr>cmap := AList.delete k (cmap c), total_bytes := total_bytes c - ce_size e\<rparr>"
  have eq: "tenant_charged ?c = tenant_charged c" "charged_sum ?c = charged_sum c"
    using charges_cong [of ?c c] by simp_all
  have a: "distinct (map fst (per_tenant ?c))"
    "\<forall>t b. map_of (per_tenant ?c) t = Some b \<longrightarrow> t \<noteq> 0 \<and> b \<noteq> 0"
    using assms(1) by (simp_all add: acct_def)
  have le: "ce_size e \<le> tenant_charged ?c (ce_tenant e)"
    using s(2) by (simp add: eq)
  have ch: "unat (tenant_charged (drop_entry c k e) t) = tenant_sum t (AList.delete k (cmap c))" for t
    using s(2) s(4) [of t] assms(1)
    by (auto simp: drop_entry_def tenant_charged_sub [OF le] eq unat_diff_le acct_def split: if_splits)
  have tot: "charged_sum (drop_entry c k e) = entry_sum (AList.delete k (cmap c))"
    using charged_sum_sub [OF le a(1)] s(3) assms(1) by (simp add: drop_entry_def eq acct_def)
  show ?thesis
    using per_tenant_sub [OF a, of "ce_tenant e" "ce_size e"] ch tot s(1,3) assms(1)
    by (simp add: acct_def drop_entry_def unat_diff_le AList.distinct_delete)
qed

definition charge_entry :: "'v s3fifo \<Rightarrow> bytes \<Rightarrow> 'v cache_entry \<Rightarrow> 'v s3fifo" where
  "charge_entry c k e = add_tenant_bytes
     (c\<lparr>cmap := AList.update k e (cmap c), total_bytes := total_bytes c + ce_size e\<rparr>) (ce_tenant e) (ce_size e)"

lemma acct_charge_entry:
  assumes "acct c" and "map_of (cmap c) k = None" and "ce_size e \<noteq> 0"
    and "entry_sum (cmap c) + unat (ce_size e) < 2 ^ 64"
  shows "acct (charge_entry c k e)"
proof -
  let ?c = "c\<lparr>cmap := AList.update k e (cmap c), total_bytes := total_bytes c + ce_size e\<rparr>"
  have eq: "tenant_charged ?c = tenant_charged c" "charged_sum ?c = charged_sum c"
    using charges_cong [of ?c c] by simp_all
  have a: "distinct (map fst (per_tenant ?c))"
    "\<forall>t b. map_of (per_tenant ?c) t = Some b \<longrightarrow> t \<noteq> 0 \<and> b \<noteq> 0"
    using assms(1) by (simp_all add: acct_def)
  have lt: "unat (tenant_charged ?c (ce_tenant e)) + unat (ce_size e) < 2 ^ 64"
    using assms(1,4) tenant_sum_le_entry_sum [of "ce_tenant e" "cmap c"] by (simp add: eq acct_def)
  then have u: "unat (tenant_charged ?c (ce_tenant e) + ce_size e)
      = unat (tenant_charged ?c (ce_tenant e)) + unat (ce_size e)"
    by (simp add: unat_word_ariths)
  then have nz: "tenant_charged ?c (ce_tenant e) + ce_size e \<noteq> 0"
    using assms(3) by (metis add_is_0 unat_eq_zero)
  have es: "entry_sum (AList.update k e (cmap c)) = entry_sum (cmap c) + unat (ce_size e)"
    using assms(2) by (simp add: entry_sum_def sum_entries_insert_new)
  have ch: "unat (tenant_charged (charge_entry c k e) t) = tenant_sum t (AList.update k e (cmap c))" for t
    using assms(1,2) u
    by (auto simp: charge_entry_def tenant_charged_add eq acct_def tenant_sum_def sum_entries_insert_new)
  have tot: "unat (total_bytes c + ce_size e) = entry_sum (cmap c) + unat (ce_size e)"
    using assms(1,4) by (simp add: acct_def unat_word_ariths)
  show ?thesis
    using per_tenant_add [OF a nz] ch tot es charged_sum_add [OF lt a(1)] assms(1)
    by (simp add: acct_def charge_entry_def eq AList.distinct_update)
qed

lemma acct_overwrite_entry:
  assumes "acct c" and "map_of (cmap c) k = Some e" and "sz \<noteq> 0"
    and "entry_sum (cmap c) + unat sz < 2 ^ 64 + unat (ce_size e)"
  shows "acct (overwrite_entry c k e v sz tenant)"
proof -
  let ?e = "e\<lparr>ce_value := v, ce_size := sz, ce_tenant := tenant\<rparr>"
  let ?c = "drop_entry c k e"
  have "acct ?c"
    by (rule acct_drop_entry [OF assms(1,2)])
  moreover have "map_of (cmap ?c) k = None"
    by (simp add: drop_entry_def amap.lookup_remove)
  moreover have "entry_sum (cmap ?c) + unat (ce_size ?e) < 2 ^ 64"
    using acct_sizes(3) [OF assms(1,2)] assms(4) by (simp add: drop_entry_def)
  ultimately have a: "acct (charge_entry ?c k ?e)"
    using acct_charge_entry [of ?c k ?e] assms(3) by simp
  have d: "distinct (map fst (cmap c))"
    using assms(1) by (simp add: acct_def)
  have s: "sum_entries f (cmap (charge_entry ?c k ?e)) = sum_entries f (AList.update k ?e (cmap c))"
    for f :: "bytes \<Rightarrow> _ \<Rightarrow> nat"
    using sum_entries_update [OF d assms(2), of f ?e] sum_entries_remove [OF d assms(2), of f]
    by (simp add: charge_entry_def drop_entry_def sum_entries_insert_new amap.lookup_remove)
  have same: "total_bytes (overwrite_entry c k e v sz tenant) = total_bytes (charge_entry ?c k ?e)"
    "per_tenant (overwrite_entry c k e v sz tenant) = per_tenant (charge_entry ?c k ?e)"
    "tenant0_bytes (overwrite_entry c k e v sz tenant) = tenant0_bytes (charge_entry ?c k ?e)"
    "cmap (overwrite_entry c k e v sz tenant) = AList.update k ?e (cmap c)"
    by (simp_all add: overwrite_entry_def charge_entry_def drop_entry_def sub_tenant_bytes_def
        add_tenant_bytes_def Let_def algebra_simps split: option.split)
  show ?thesis
    using a charges_cong [OF same(2,3)] d
    by (simp add: acct_def same entry_sum_def tenant_sum_def s AList.distinct_update)
qed

subsection \<open>Eviction only removes\<close>

text \<open>
  \<open>sub_cache c c'\<close>: every entry left in \<open>c'\<close> was in \<open>c\<close> with the same value, size and owner, and the
  budgets are those of \<open>c\<close>.
\<close>

definition sub_cache :: "'v s3fifo \<Rightarrow> 'v s3fifo \<Rightarrow> bool" where
  "sub_cache c c' \<longleftrightarrow> budget_bytes c' = budget_bytes c \<and> small_budget c' = small_budget c \<and>
     (\<forall>k e'. map_of (cmap c') k = Some e' \<longrightarrow>
        (\<exists>e. map_of (cmap c) k = Some e \<and> ce_value e' = ce_value e \<and> ce_size e' = ce_size e \<and>
             ce_tenant e' = ce_tenant e))"

lemma sub_cache_refl [simp]: "sub_cache c c"
  by (simp add: sub_cache_def)

lemma sub_cache_trans: "sub_cache a b \<Longrightarrow> sub_cache b c \<Longrightarrow> sub_cache a c"
  unfolding sub_cache_def by metis

lemma sub_cache_same_map:
  "cmap c' = cmap c \<Longrightarrow> budget_bytes c' = budget_bytes c \<Longrightarrow> small_budget c' = small_budget c \<Longrightarrow> sub_cache c c'"
  by (simp add: sub_cache_def)

lemma sub_cache_delete:
  "cmap c' = AList.delete k (cmap c) \<Longrightarrow> budget_bytes c' = budget_bytes c \<Longrightarrow>
     small_budget c' = small_budget c \<Longrightarrow> sub_cache c c'"
  by (auto simp: sub_cache_def amap.lookup_remove split: if_splits)

lemma sub_cache_update:
  "cmap c' = AList.update k e' (cmap c) \<Longrightarrow> map_of (cmap c) k = Some e \<Longrightarrow> ce_value e' = ce_value e \<Longrightarrow>
     ce_size e' = ce_size e \<Longrightarrow> ce_tenant e' = ce_tenant e \<Longrightarrow>
     budget_bytes c' = budget_bytes c \<Longrightarrow> small_budget c' = small_budget c \<Longrightarrow> sub_cache c c'"
  by (auto simp: sub_cache_def amap.lookup_insert split: if_splits)

lemma acct_drop_cong:
  assumes "acct c" "map_of (cmap c) k = Some e" "cmap c' = AList.delete k (cmap c)"
    "per_tenant c' = per_tenant (sub_tenant_bytes c (ce_tenant e) (ce_size e))"
    "tenant0_bytes c' = tenant0_bytes (sub_tenant_bytes c (ce_tenant e) (ce_size e))"
    "total_bytes c' = total_bytes c - ce_size e"
  shows "acct c'"
  by (rule acct_cong [OF acct_drop_entry [OF assms(1,2)]])
    (simp_all add: assms(3-) drop_entry_def sub_tenant_bytes_def split: option.split)

lemma sub_tenant_bytes_frame [simp]:
  "per_tenant (sub_tenant_bytes (c\<lparr>cmap := x_cmap\<rparr>) t n) = per_tenant (sub_tenant_bytes c t n)"
  "tenant0_bytes (sub_tenant_bytes (c\<lparr>cmap := x_cmap\<rparr>) t n) = tenant0_bytes (sub_tenant_bytes c t n)"
  "per_tenant (sub_tenant_bytes (c\<lparr>total_bytes := x_total_bytes\<rparr>) t n) = per_tenant (sub_tenant_bytes c t n)"
  "tenant0_bytes (sub_tenant_bytes (c\<lparr>total_bytes := x_total_bytes\<rparr>) t n) = tenant0_bytes (sub_tenant_bytes c t n)"
  "per_tenant (sub_tenant_bytes (c\<lparr>small_bytes := x_small_bytes\<rparr>) t n) = per_tenant (sub_tenant_bytes c t n)"
  "tenant0_bytes (sub_tenant_bytes (c\<lparr>small_bytes := x_small_bytes\<rparr>) t n) = tenant0_bytes (sub_tenant_bytes c t n)"
  "per_tenant (sub_tenant_bytes (c\<lparr>small := x_small\<rparr>) t n) = per_tenant (sub_tenant_bytes c t n)"
  "tenant0_bytes (sub_tenant_bytes (c\<lparr>small := x_small\<rparr>) t n) = tenant0_bytes (sub_tenant_bytes c t n)"
  "per_tenant (sub_tenant_bytes (c\<lparr>main := x_main\<rparr>) t n) = per_tenant (sub_tenant_bytes c t n)"
  "tenant0_bytes (sub_tenant_bytes (c\<lparr>main := x_main\<rparr>) t n) = tenant0_bytes (sub_tenant_bytes c t n)"
  by (simp_all add: sub_tenant_bytes_def split: option.split)

text \<open>
  One turn of an eviction loop. Both loops, \<open>evict_one\<close> and the loop of \<open>insert_for\<close> are sequences of
  these steps, so what every step keeps they keep.
\<close>

inductive evict_step :: "(bytes \<Rightarrow> u64) \<Rightarrow> 'v s3fifo \<Rightarrow> 'v s3fifo \<Rightarrow> bool" for xxh3 where
  stale_small: "small c = k # q \<Longrightarrow> map_of (cmap c) k = None \<Longrightarrow> evict_step xxh3 c (c\<lparr>small := q\<rparr>)"
| promote: "small c = k # q \<Longrightarrow> map_of (cmap c) k = Some e \<Longrightarrow> ce_freq e > 1 \<Longrightarrow>
    evict_step xxh3 c (c\<lparr>small := q,
      cmap := AList.update k (e\<lparr>ce_freq := 0, ce_in_small := False\<rparr>) (cmap c),
      small_bytes := small_bytes c - ce_size e, main := main c @ [k]\<rparr>)"
| evict_small: "small c = k # q \<Longrightarrow> map_of (cmap c) k = Some e \<Longrightarrow> \<not> ce_freq e > 1 \<Longrightarrow>
    evict_step xxh3 c ((ghost_push (sub_tenant_bytes (c\<lparr>small := q, cmap := AList.delete k (cmap c),
      total_bytes := total_bytes c - ce_size e, small_bytes := small_bytes c - ce_size e\<rparr>)
      (ce_tenant e) (ce_size e)) (xxh3 k))\<lparr>evictions := n\<rparr>)"
| stale_main: "main c = k # q \<Longrightarrow> map_of (cmap c) k = None \<Longrightarrow> evict_step xxh3 c (c\<lparr>main := q\<rparr>)"
| second_chance: "main c = k # q \<Longrightarrow> map_of (cmap c) k = Some e \<Longrightarrow> ce_freq e > 0 \<Longrightarrow>
    evict_step xxh3 c (c\<lparr>cmap := AList.update k (e\<lparr>ce_freq := ce_freq e - 1\<rparr>) (cmap c), main := q @ [k]\<rparr>)"
| fair_skip: "main c = k # q \<Longrightarrow> map_of (cmap c) k = Some e \<Longrightarrow> evict_step xxh3 c (c\<lparr>main := q @ [k]\<rparr>)"
| evict_main: "main c = k # q \<Longrightarrow> map_of (cmap c) k = Some e \<Longrightarrow>
    evict_step xxh3 c ((sub_tenant_bytes (c\<lparr>main := q, cmap := AList.delete k (cmap c),
      total_bytes := total_bytes c - ce_size e\<rparr>) (ce_tenant e) (ce_size e))\<lparr>evictions := n\<rparr>)"

lemma small_loop_steps:
  assumes "small_loop xxh3 q c = (c', b)" and "small c = q"
  shows "(evict_step xxh3)\<^sup>*\<^sup>* c c'"
  using assms
proof (induction xxh3 q c rule: small_loop.induct)
  case (1 xxh3 c)
  then have "c' = c" by (cases c) auto
  then show ?case by simp
next
  case (2 xxh3 key rest c)
  show ?case
  proof (cases "map_of (cmap (c\<lparr>small := rest\<rparr>)) key")
    case None
    have "evict_step xxh3 c (c\<lparr>small := rest\<rparr>)"
      using 2(4) None by (simp add: stale_small)
    moreover have "small_loop xxh3 rest (c\<lparr>small := rest\<rparr>) = (c', b)"
      using 2(3) None by simp
    ultimately show ?thesis
      using 2(1) [OF refl None] by (simp add: converse_rtranclp_into_rtranclp)
  next
    case (Some e)
    show ?thesis
    proof (cases "ce_freq e > 1")
      case True
      then show ?thesis
        using 2(2) [OF refl Some True] 2(3) promote [OF 2(4), of e xxh3] Some
        by (simp add: converse_rtranclp_into_rtranclp)
    next
      case False
      then show ?thesis
        using 2(3) evict_small [OF 2(4), of e xxh3] Some by (auto simp: Let_def)
    qed
  qed
qed

lemma main_loop_steps: "(evict_step xxh3)\<^sup>*\<^sup>* c (main_loop t ov s c)"
proof (induction t ov s c rule: main_loop.induct)
  case (1 t ov s c)
  show ?case
  proof (cases "main c")
    case (Cons key rest)
    show ?thesis
    proof (cases "map_of (cmap c) key")
      case None
      then show ?thesis
        using 1(1) [OF Cons None] stale_main [OF Cons None, of xxh3]
        by (subst main_loop.simps) (simp add: Cons converse_rtranclp_into_rtranclp)
    next
      case (Some e)
      then show ?thesis
        using 1(2,3) [OF Cons Some] second_chance [OF Cons Some, of xxh3] fair_skip [OF Cons Some, of xxh3]
          evict_main [OF Cons Some, of xxh3]
        by (subst main_loop.simps) (auto simp: Cons Let_def intro: converse_rtranclp_into_rtranclp)
    qed
  qed (simp add: main_loop.simps)
qed

lemma evict_one_steps: "(evict_step xxh3)\<^sup>*\<^sup>* c (evict_one xxh3 c)"
proof -
  obtain c' b where cb: "small_loop xxh3 (small c) c = (c', b)" by (cases "small_loop xxh3 (small c) c")
  have m: "(evict_step xxh3)\<^sup>*\<^sup>* d (evict_from_main d)" for d :: "'a s3fifo"
    by (simp add: evict_from_main_def Let_def main_loop_steps split: prod.split)
  show ?thesis
    using small_loop_steps [OF cb refl] m [of c] m [of c'] cb
    unfolding evict_one_def evict_from_small_def by (auto split: bool.split)
qed

lemma make_room_induct [consumes 1, case_names fits evict]:
  assumes "make_room xxh3 n c = Some c'"
    and "\<And>c. total_bytes c + n \<le> budget_bytes c \<or> cmap c = [] \<Longrightarrow> P c c"
    and "\<And>c c'. budget_bytes c < total_bytes c + n \<Longrightarrow> cmap c \<noteq> [] \<Longrightarrow> P (evict_one xxh3 c) c' \<Longrightarrow> P c c'"
  shows "P c c'"
proof -
  have "h = xxh3 \<longrightarrow> m = n \<longrightarrow> P d d'" if "make_room h m d = Some d'" for h m d d'
  proof (rule make_room.raw_induct [OF _ that, where P = "\<lambda>h m d d'. h = xxh3 \<longrightarrow> m = n \<longrightarrow> P d d'"])
    fix f h m d d'
    assume "\<And>h m d d'. f h m d = Some d' \<Longrightarrow> h = xxh3 \<longrightarrow> m = n \<longrightarrow> P d d'"
      and "(if budget_bytes d < total_bytes d + m \<and> cmap d \<noteq> [] then f h m (evict_one h d) else Some d) = Some d'"
    then show "h = xxh3 \<longrightarrow> m = n \<longrightarrow> P d d'"
      using assms(2) [of d] assms(3) [of d d'] by (auto simp: not_less split: if_splits)
  qed
  then show ?thesis
    using assms(1) by blast
qed

lemma make_room_steps:
  assumes "make_room xxh3 n c = Some c'"
  shows "(evict_step xxh3)\<^sup>*\<^sup>* c c' \<and> (total_bytes c' + n \<le> budget_bytes c' \<or> cmap c' = [])"
  using assms
proof (induction rule: make_room_induct)
  case (evict c c')
  then show ?case
    using evict_one_steps [of xxh3 c] by (meson rtranclp_trans)
qed simp

lemma evict_step_sub_cache: "evict_step xxh3 c c' \<Longrightarrow> sub_cache c c'"
proof (induction rule: evict_step.induct)
  case (promote c k q e)
  then show ?case
    by (intro sub_cache_update [where e' = "e\<lparr>ce_freq := 0, ce_in_small := False\<rparr>"]) simp_all
next
  case (second_chance c k q e)
  then show ?case
    by (intro sub_cache_update [where e' = "e\<lparr>ce_freq := ce_freq e - 1\<rparr>"]) simp_all
next
  case (evict_small c k q e n)
  then show ?case
    by (intro sub_cache_delete [where k = k]) simp_all
next
  case (evict_main c k q e n)
  then show ?case
    by (intro sub_cache_delete [where k = k]) simp_all
qed (simp_all add: sub_cache_same_map)

lemma evict_steps_sub_cache: "(evict_step xxh3)\<^sup>*\<^sup>* c c' \<Longrightarrow> sub_cache c c'"
  by (induction rule: rtranclp_induct) (auto intro: sub_cache_trans evict_step_sub_cache)

lemma evict_step_acct:
  assumes "evict_step xxh3 c c'" and "acct c"
  shows "acct c'"
  using assms
proof cases
  case (promote k q e)
  show ?thesis
    unfolding promote(1)
    by (rule acct_map_cong [OF assms(2) _ _ _ _ promote(3), where e' = "e\<lparr>ce_freq := 0, ce_in_small := False\<rparr>"]) simp_all
next
  case (second_chance k q e)
  show ?thesis
    unfolding second_chance(1)
    by (rule acct_map_cong [OF assms(2) _ _ _ _ second_chance(3), where e' = "e\<lparr>ce_freq := ce_freq e - 1\<rparr>"]) simp_all
next
  case (evict_small k q e n)
  show ?thesis
    unfolding evict_small(1) by (rule acct_drop_cong [OF assms(2) evict_small(3)]) simp_all
next
  case (evict_main k q e n)
  show ?thesis
    unfolding evict_main(1) by (rule acct_drop_cong [OF assms(2) evict_main(3)]) simp_all
qed (auto intro: acct_cong [OF assms(2)])

lemma evict_steps_acct: "(evict_step xxh3)\<^sup>*\<^sup>* c c' \<Longrightarrow> acct c \<Longrightarrow> acct c'"
  by (induction rule: rtranclp_induct) (auto intro: evict_step_acct)

lemma entry_sum_sub_cache:
  assumes "acct c" and "acct c'" and "sub_cache c c'"
  shows "entry_sum (cmap c') \<le> entry_sum (cmap c)"
proof -
  have d: "distinct (map fst (cmap c))" "distinct (map fst (cmap c'))"
    using assms(1,2) by (simp_all add: acct_def)
  have sub: "dom (map_of (cmap c')) \<subseteq> dom (map_of (cmap c))"
    using assms(3) by (fastforce simp: sub_cache_def)
  have "ce_size (the (map_of (cmap c') k)) = ce_size (the (map_of (cmap c) k))" if "k \<in> dom (map_of (cmap c'))" for k
    using that assms(3) by (fastforce simp: sub_cache_def)
  then have "entry_sum (cmap c') = (\<Sum>k\<in>dom (map_of (cmap c')). unat (ce_size (the (map_of (cmap c) k))))"
    by (simp add: entry_sum_def sum_entries_dom [OF d(2)])
  also have "\<dots> \<le> entry_sum (cmap c)"
    unfolding entry_sum_def sum_entries_dom [OF d(1)] by (rule sum_mono2) (use sub in \<open>auto simp: finite_dom_map_of\<close>)
  finally show ?thesis .
qed

subsection \<open>The cache as its clients see it\<close>

text \<open>
  What a client relies on: a hit returns what was stored, an insertion may forget other keys but never
  alters them, a removed key is gone.
\<close>

locale kv_cache =
  fixes contents :: "'c \<Rightarrow> 'k \<Rightarrow> 'v option"
    and cget :: "'c \<Rightarrow> 'k \<Rightarrow> 'v option \<times> 'c"
    and cinsert :: "'c \<Rightarrow> 'k \<Rightarrow> 'v \<Rightarrow> 'n \<Rightarrow> 't \<Rightarrow> 'c option"
    and cremove :: "'c \<Rightarrow> 'k \<Rightarrow> 'c \<times> bool"
  assumes get_hit: "fst (cget c k) = contents c k"
    and get_contents: "contents (snd (cget c k)) = contents c"
    and insert_key: "cinsert c k v n t = Some c' \<Longrightarrow> contents c' k = Some v"
    and insert_sub: "cinsert c k v n t = Some c' \<Longrightarrow> contents c' \<subseteq>\<^sub>m (contents c)(k \<mapsto> v)"
    and remove_contents: "contents (fst (cremove c k)) = (contents c)(k := None)"
begin

text \<open>A cache is coherent with a store when it holds nothing the store does not.\<close>

definition coherent :: "'c \<Rightarrow> ('k \<Rightarrow> 'v option) \<Rightarrow> bool" where
  "coherent c store \<longleftrightarrow> contents c \<subseteq>\<^sub>m store"

lemma coherent_get:
  "coherent c store \<Longrightarrow> coherent (snd (cget c k)) store \<and> (fst (cget c k) = Some v \<longrightarrow> store k = Some v)"
  by (auto simp: coherent_def get_hit get_contents map_le_def dom_def)

lemma coherent_write:
  "coherent c store \<Longrightarrow> cinsert c k v n t = Some c' \<Longrightarrow> coherent c' (store(k \<mapsto> v))"
  using insert_sub [of c k v n t c'] unfolding coherent_def
  by (rule map_le_trans [rotated 2]) (auto simp: map_le_def)

lemma coherent_fill:
  "coherent c store \<Longrightarrow> store k = Some v \<Longrightarrow> cinsert c k v n t = Some c' \<Longrightarrow> coherent c' store"
  using coherent_write [of c store k v n t c'] by (simp add: fun_upd_idem)

lemma coherent_remove: "coherent c store \<Longrightarrow> coherent (fst (cremove c k)) (store(k := None))"
  by (auto simp: coherent_def remove_contents map_le_def)

end

definition contents :: "'v s3fifo \<Rightarrow> bytes \<Rightarrow> 'v option" where
  "contents c k = map_option ce_value (map_of (cmap c) k)"

lemma contents_sub_cache: "sub_cache c c' \<Longrightarrow> contents c' \<subseteq>\<^sub>m contents c"
  by (fastforce simp: sub_cache_def contents_def map_le_def dom_def)

lemma insert_for_cases:
  assumes "insert_for xxh3 c k v n t = Some c'"
  obtains (overwrite) e where "map_of (cmap c) k = Some e"
      "c' = overwrite_entry c k e v (of_nat (length k) + n + ENTRY_OVERHEAD) (ucast t)"
  | (admit) d where "map_of (cmap c) k = None" "make_room xxh3 (of_nat (length k) + n + ENTRY_OVERHEAD) c = Some d"
      "c' = admit_entry xxh3 d k v (of_nat (length k) + n + ENTRY_OVERHEAD) (ucast t)"
  using assms by (auto simp: insert_for_def Let_def split: option.splits)

lemma cmap_overwrite_entry:
  "cmap (overwrite_entry c k e v sz t) = AList.update k (e\<lparr>ce_value := v, ce_size := sz, ce_tenant := t\<rparr>) (cmap c)"
  by (simp add: overwrite_entry_def Let_def)

lemma cmap_admit_entry:
  "cmap (admit_entry xxh3 c k v sz t) = AList.update k
     \<lparr>ce_value = v, ce_size = sz, ce_freq = 0, ce_in_small = (xxh3 k \<notin> ghost_set c), ce_tenant = t\<rparr> (cmap c)"
  by (simp add: admit_entry_def Let_def)

lemma insert_for_contents:
  assumes "insert_for xxh3 c k v n t = Some c'"
  shows "contents c' k = Some v \<and> contents c' \<subseteq>\<^sub>m (contents c)(k \<mapsto> v)"
  using assms
proof (cases rule: insert_for_cases)
  case (overwrite e)
  then have "contents c' = (contents c)(k \<mapsto> v)"
    by (auto simp: contents_def cmap_overwrite_entry amap.lookup_insert fun_eq_iff)
  then show ?thesis
    by simp
next
  case (admit d)
  then have "contents c' = (contents d)(k \<mapsto> v)"
    by (auto simp: contents_def cmap_admit_entry amap.lookup_insert fun_eq_iff)
  moreover have "contents d \<subseteq>\<^sub>m contents c"
    using make_room_steps [OF admit(2)] by (blast intro: contents_sub_cache evict_steps_sub_cache)
  ultimately show ?thesis
    by (simp add: map_le_upd)
qed

interpretation s3: kv_cache contents cache_get "insert_for xxh3" cache_remove for xxh3
proof
  show "fst (cache_get c k) = contents c k" for c :: "'b s3fifo" and k
    by (simp add: cache_get_def contents_def split: option.split)
  show "contents (snd (cache_get c k)) = contents c" for c :: "'b s3fifo" and k
    by (auto simp: cache_get_def contents_def amap.lookup_insert fun_eq_iff split: option.split)
  show "contents (fst (cache_remove c k)) = (contents c)(k := None)" for c :: "'b s3fifo" and k
    by (auto simp: cache_remove_def contents_def amap.lookup_remove Let_def fun_eq_iff split: option.split)
qed (simp_all add: insert_for_contents)

subsection \<open>Histories\<close>

datatype 'v cache_op = Get_op bytes | Insert_op bytes 'v u64 u128 | is_Remove_op: Remove_op bytes

fun cache_step :: "(bytes \<Rightarrow> u64) \<Rightarrow> 'v s3fifo \<Rightarrow> 'v cache_op \<Rightarrow> 'v s3fifo option" where
  "cache_step xxh3 c (Get_op k) = Some (snd (cache_get c k))"
| "cache_step xxh3 c (Insert_op k v n t) = insert_for xxh3 c k v n t"
| "cache_step xxh3 c (Remove_op k) = Some (fst (cache_remove c k))"

fun run_cache :: "(bytes \<Rightarrow> u64) \<Rightarrow> 'v s3fifo \<Rightarrow> 'v cache_op list \<Rightarrow> 'v s3fifo option" where
  "run_cache xxh3 c [] = Some c"
| "run_cache xxh3 c (x # xs) = Option.bind (cache_step xxh3 c x) (\<lambda>c. run_cache xxh3 c xs)"

text \<open>The store a history writes, with no bound and no forgetting.\<close>

fun store_step :: "(bytes \<Rightarrow> 'v option) \<Rightarrow> 'v cache_op \<Rightarrow> bytes \<Rightarrow> 'v option" where
  "store_step m (Get_op k) = m"
| "store_step m (Insert_op k v n t) = m(k \<mapsto> v)"
| "store_step m (Remove_op k) = m(k := None)"

text \<open>The bytes a history charges; sums of real sizes never come near \<open>2 ^ 64\<close>.\<close>

fun op_bytes :: "'v cache_op \<Rightarrow> nat" where
  "op_bytes (Insert_op k v n t) = length k + unat n + 64"
| "op_bytes _ = 0"

lemma run_cache_append:
  "run_cache xxh3 c (xs @ ys) = Option.bind (run_cache xxh3 c xs) (\<lambda>c. run_cache xxh3 c ys)"
  by (induction xs arbitrary: c) (simp_all add: bind_assoc split: option.split bind_splits)

lemma run_cache_coherent:
  "run_cache xxh3 c ops = Some c' \<Longrightarrow> s3.coherent c m \<Longrightarrow> s3.coherent c' (foldl store_step m ops)"
proof (induction ops arbitrary: c m)
  case (Cons x ops)
  then obtain d where d: "cache_step xxh3 c x = Some d" "run_cache xxh3 d ops = Some c'"
    by (auto split: bind_splits)
  have "s3.coherent d (store_step m x)"
    using d(1) Cons.prems(2)
    by (cases x) (auto simp: s3.coherent_remove dest: s3.coherent_get intro: s3.coherent_write)
  then show ?case
    using Cons.IH d(2) by simp
qed simp

lemma entry_size_unat:
  assumes "length k + unat (n :: u64) + 64 < 2 ^ 64"
  shows "unat (of_nat (length k) + n + ENTRY_OVERHEAD) = length k + unat n + 64"
  using assms by (simp add: ENTRY_OVERHEAD_def unat_word_ariths unat_of_nat)

lemma acct_cache_get: "acct c \<Longrightarrow> acct (snd (cache_get c k)) \<and> entry_sum (cmap (snd (cache_get c k))) = entry_sum (cmap c)"
proof (cases "map_of (cmap c) k")
  case None
  assume "acct c"
  then show ?thesis
    using None by (auto simp: cache_get_def intro: acct_cong)
next
  case (Some e)
  let ?e = "e\<lparr>ce_freq := min (ce_freq e + 1) 3\<rparr>"
  assume a: "acct c"
  have "acct (snd (cache_get c k))"
    by (rule acct_map_cong [OF a _ _ _ _ Some, where e' = ?e]) (simp_all add: cache_get_def Some)
  moreover have "total_bytes (snd (cache_get c k)) = total_bytes c"
    by (simp add: cache_get_def Some)
  ultimately show ?thesis
    using a by (metis acct_def)
qed

lemma acct_cache_remove: "acct c \<Longrightarrow> acct (fst (cache_remove c k)) \<and> entry_sum (cmap (fst (cache_remove c k))) \<le> entry_sum (cmap c)"
proof (cases "map_of (cmap c) k")
  case (Some e)
  assume a: "acct c"
  have "acct (fst (cache_remove c k))"
    by (rule acct_drop_cong [OF a Some]) (simp_all add: cache_remove_def Some Let_def)
  moreover have "cmap (fst (cache_remove c k)) = AList.delete k (cmap c)"
    by (simp add: cache_remove_def Some Let_def)
  ultimately show ?thesis
    using acct_sizes(3) [OF a Some] by simp
qed (simp add: cache_remove_def)

lemma sub_cache_None: "sub_cache c d \<Longrightarrow> map_of (cmap c) k = None \<Longrightarrow> map_of (cmap d) k = None"
  unfolding sub_cache_def by (metis not_None_eq)

lemma acct_insert_for:
  assumes "acct c" and "insert_for xxh3 c k v n t = Some c'"
    and "entry_sum (cmap c) + length k + unat n + 64 < 2 ^ 64"
  shows "acct c' \<and> entry_sum (cmap c') \<le> entry_sum (cmap c) + length k + unat n + 64"
proof -
  let ?sz = "of_nat (length k) + n + ENTRY_OVERHEAD"
  have sz: "unat ?sz = length k + unat n + 64"
    using assms(3) by (intro entry_size_unat) simp
  then have nz: "?sz \<noteq> 0"
    by (metis add_is_0 unat_0 zero_neq_numeral)
  show ?thesis
    using assms(2)
  proof (cases rule: insert_for_cases)
    case (overwrite e)
    have "acct c'"
      unfolding overwrite(2) using assms(3) sz by (intro acct_overwrite_entry [OF assms(1) overwrite(1) nz]) simp
    moreover have "distinct (map fst (cmap c))"
      using assms(1) by (simp add: acct_def)
    from sum_entries_update [OF this overwrite(1), of "\<lambda>k e. unat (ce_size e)"
        "e\<lparr>ce_value := v, ce_size := ?sz, ce_tenant := ucast t\<rparr>"]
    have "unat (ce_size e) + entry_sum (cmap c') = unat ?sz + entry_sum (cmap c)"
      unfolding overwrite(2) cmap_overwrite_entry entry_sum_def by simp
    ultimately show ?thesis
      using sz by simp
  next
    case (admit d)
    let ?e = "\<lparr>ce_value = v, ce_size = ?sz, ce_freq = 0, ce_in_small = (xxh3 k \<notin> ghost_set d), ce_tenant = ucast t\<rparr>"
    have ad: "acct d" and sd: "sub_cache c d"
      using make_room_steps [OF admit(2)] assms(1) by (auto intro: evict_steps_acct evict_steps_sub_cache)
    have le: "entry_sum (cmap d) \<le> entry_sum (cmap c)"
      by (rule entry_sum_sub_cache [OF assms(1) ad sd])
    have new: "map_of (cmap d) k = None"
      by (rule sub_cache_None [OF sd admit(1)])
    have "acct (charge_entry d k ?e)"
      using le assms(3) sz nz new by (intro acct_charge_entry ad) simp_all
    then have "acct c'"
      by (rule acct_cong) (simp_all add: admit(3) admit_entry_def charge_entry_def add_tenant_bytes_def Let_def)
    moreover have "entry_sum (cmap c') = entry_sum (cmap d) + unat ?sz"
      using new by (simp add: admit(3) cmap_admit_entry entry_sum_def sum_entries_insert_new)
    ultimately show ?thesis
      using le sz by simp
  qed
qed

lemma run_cache_acct:
  assumes "acct c" and "run_cache xxh3 c ops = Some c'" and "entry_sum (cmap c) + sum_list (map op_bytes ops) < 2 ^ 64"
  shows "acct c' \<and> entry_sum (cmap c') \<le> entry_sum (cmap c) + sum_list (map op_bytes ops)"
  using assms
proof (induction ops arbitrary: c)
  case (Cons x ops)
  then obtain d where d: "cache_step xxh3 c x = Some d" "run_cache xxh3 d ops = Some c'"
    by (auto split: bind_splits)
  have "acct d \<and> entry_sum (cmap d) \<le> entry_sum (cmap c) + op_bytes x"
    using d(1) Cons.prems acct_cache_get [of c] acct_cache_remove [of c] acct_insert_for [of c xxh3]
    by (cases x) fastforce+
  then show ?case
    using Cons.IH [of d] d(2) Cons.prems(3) by auto
qed simp

subsection \<open>The queues, and why eviction makes progress\<close>

definition small_sum :: "(bytes \<times> 'v cache_entry) list \<Rightarrow> nat" where
  "small_sum m = sum_entries (\<lambda>k e. if ce_in_small e then unat (ce_size e) else 0) m"

text \<open>
  As long as no key is removed from outside, every entry sits in exactly one queue, the one its flag
  names, and \<open>small_bytes\<close> is the size of the small queue.
\<close>

definition queues_ok :: "'v s3fifo \<Rightarrow> bool" where
  "queues_ok c \<longleftrightarrow> distinct (small c @ main c) \<and>
     (\<forall>k. k \<in> set (small c) \<longleftrightarrow> (\<exists>e. map_of (cmap c) k = Some e \<and> ce_in_small e)) \<and>
     (\<forall>k. k \<in> set (main c) \<longleftrightarrow> (\<exists>e. map_of (cmap c) k = Some e \<and> \<not> ce_in_small e)) \<and>
     unat (small_bytes c) = small_sum (cmap c)"

lemma queues_ok_small: "queues_ok c \<Longrightarrow> k \<in> set (small c) \<Longrightarrow> \<exists>e. map_of (cmap c) k = Some e \<and> ce_in_small e"
  by (simp add: queues_ok_def)

lemma queues_ok_main: "queues_ok c \<Longrightarrow> k \<in> set (main c) \<Longrightarrow> \<exists>e. map_of (cmap c) k = Some e \<and> \<not> ce_in_small e"
  by (simp add: queues_ok_def)

lemma small_sum_update:
  assumes "acct c" and "map_of (cmap c) k = Some e"
  shows "(if ce_in_small e then unat (ce_size e) else 0) + small_sum (AList.update k e' (cmap c))
    = (if ce_in_small e' then unat (ce_size e') else 0) + small_sum (cmap c)"
  using sum_entries_update [OF _ assms(2), of "\<lambda>k e. if ce_in_small e then unat (ce_size e) else 0" e'] assms(1)
  by (simp add: small_sum_def acct_def)

lemma small_sum_delete:
  assumes "acct c" and "map_of (cmap c) k = Some e"
  shows "small_sum (cmap c) = (if ce_in_small e then unat (ce_size e) else 0) + small_sum (AList.delete k (cmap c))"
  using sum_entries_remove [OF _ assms(2), of "\<lambda>k e. if ce_in_small e then unat (ce_size e) else 0"] assms(1)
  by (simp add: small_sum_def acct_def)

lemma small_sum_le: "small_sum m \<le> entry_sum m"
proof (induction m)
  case (Cons a m)
  then show ?case
    by (cases a) (auto simp: small_sum_def entry_sum_def)
qed (simp add: small_sum_def entry_sum_def)

lemma evict_step_queues:
  assumes "evict_step xxh3 c c'" and "acct c" and "queues_ok c"
  shows "queues_ok c'"
  using assms(1)
proof cases
  case (promote k q e)
  have s: "ce_in_small e"
    using queues_ok_small [OF assms(3), of k] promote by simp
  have sb: "unat (small_bytes c - ce_size e) = small_sum (AList.update k (e\<lparr>ce_freq := 0, ce_in_small := False\<rparr>) (cmap c))"
    using small_sum_update [OF assms(2) promote(3), of "e\<lparr>ce_freq := 0, ce_in_small := False\<rparr>"] assms(3) s
    by (simp add: queues_ok_def unat_diff_le word_le_nat_alt)
  show ?thesis
    using assms(3) sb promote(2) unfolding promote(1) queues_ok_def
    by (auto simp: amap.lookup_insert promote(2,3) split: if_splits)
next
  case (evict_small k q e n)
  have s: "ce_in_small e"
    using queues_ok_small [OF assms(3), of k] evict_small by simp
  have sb: "unat (small_bytes c - ce_size e) = small_sum (AList.delete k (cmap c))"
    using small_sum_delete [OF assms(2) evict_small(3)] assms(3) s
    by (simp add: queues_ok_def unat_diff_le word_le_nat_alt)
  show ?thesis
    using assms(3) sb evict_small(2,3) s unfolding evict_small(1) queues_ok_def
    by (auto simp: amap.lookup_remove split: if_splits)
next
  case (second_chance k q e)
  have sb: "small_sum (AList.update k (e\<lparr>ce_freq := ce_freq e - 1\<rparr>) (cmap c)) = small_sum (cmap c)"
    using small_sum_update [OF assms(2) second_chance(3), of "e\<lparr>ce_freq := ce_freq e - 1\<rparr>"]
    by (simp split: if_splits)
  show ?thesis
    using assms(3) sb second_chance(2,3) queues_ok_main [OF assms(3), of k] unfolding second_chance(1) queues_ok_def
    by (auto simp: amap.lookup_insert split: if_splits)
next
  case (fair_skip k q e)
  then show ?thesis
    using assms(3) by (auto simp: queues_ok_def)
next
  case (evict_main k q e n)
  have s: "\<not> ce_in_small e"
    using queues_ok_main [OF assms(3), of k] evict_main by simp
  show ?thesis
    using assms(3) small_sum_delete [OF assms(2) evict_main(3)] evict_main(2,3) s unfolding evict_main(1) queues_ok_def
    by (auto simp: amap.lookup_remove split: if_splits)
qed (use assms(3) in \<open>auto dest: queues_ok_small queues_ok_main\<close>)

lemma evict_steps_ok:
  "(evict_step xxh3)\<^sup>*\<^sup>* c c' \<Longrightarrow> acct c \<Longrightarrow> queues_ok c \<Longrightarrow> acct c' \<and> queues_ok c'"
  by (induction rule: rtranclp_induct) (auto intro: evict_step_acct evict_step_queues)

lemma length_delete_less: "map_of m k = Some v \<Longrightarrow> length (AList.delete k m) < length m"
proof (induction m)
  case (Cons a m)
  then show ?case
    by (cases a) (auto split: if_splits intro: le_imp_less_Suc AList.length_delete_le)
qed simp

lemma length_update_present: "map_of m k = Some v \<Longrightarrow> length (AList.update k w m) = length m"
  by (induction m) (auto split: if_splits)

lemma main_loop_evicts:
  assumes "acct c" and "queues_ok c" and "main c \<noteq> []"
  shows "length (cmap (main_loop t ov s c)) < length (cmap c)"
  using assms
proof (induction t ov s c rule: main_loop.induct)
  case (1 t ov s c)
  obtain key rest where m: "main c = key # rest"
    using 1(6) by (cases "main c") auto
  obtain e where e: "map_of (cmap c) key = Some e"
    using queues_ok_main [OF 1(5), of key] m by auto
  let ?u = "c\<lparr>cmap := AList.update key (e\<lparr>ce_freq := ce_freq e - 1\<rparr>) (cmap c), main := rest @ [key]\<rparr>"
  let ?r = "c\<lparr>main := rest @ [key]\<rparr>"
  have step: "acct d \<and> queues_ok d" if "evict_step undefined c d" for d
    using evict_step_acct [OF that 1(4)] evict_step_queues [OF that 1(4,5)] by simp
  show ?case
  proof (cases "ce_freq e > 0")
    case True
    have "length (cmap (main_loop t ov s ?u)) < length (cmap ?u)"
      using 1(2) [OF m e True] step [OF second_chance [OF m e True]] by simp
    then show ?thesis
      using True by (subst main_loop.simps) (simp add: m e length_update_present)
  next
    case False
    show ?thesis
    proof (cases "ov \<and> s < MAX_FAIR_SKIPS \<and> tenant_charged c (ce_tenant e) \<le> t")
      case True
      then have "length (cmap (main_loop t ov (s + 1) ?r)) < length (cmap c)"
        using 1(3) [OF m e False True] step [OF fair_skip [OF m e]] by simp
      then show ?thesis
        using True False by (subst main_loop.simps) (simp add: m e)
    next
      case skip: False
      then show ?thesis
        using False length_delete_less [OF e] by (subst main_loop.simps) (auto simp: m e Let_def)
    qed
  qed
qed

lemma evict_from_main_evicts:
  "acct c \<Longrightarrow> queues_ok c \<Longrightarrow> main c \<noteq> [] \<Longrightarrow> length (cmap (evict_from_main c)) < length (cmap c)"
  by (simp add: evict_from_main_def Let_def main_loop_evicts split: prod.split)

lemma small_loop_evicts:
  assumes "acct c" and "queues_ok c" and "small_loop xxh3 q c = (c', b)" and "small c = q"
  shows "if b then length (cmap c') < length (cmap c)
    else small c' = [] \<and> length (cmap c') = length (cmap c)"
  using assms
proof (induction xxh3 q c rule: small_loop.induct)
  case (2 xxh3 key rest c)
  obtain e where e: "map_of (cmap c) key = Some e"
    using queues_ok_small [OF 2(4), of key] 2(6) by auto
  have step: "acct d \<and> queues_ok d" if "evict_step xxh3 c d" for d
    using evict_step_acct [OF that 2(3)] evict_step_queues [OF that 2(3,4)] by simp
  show ?case
  proof (cases "ce_freq e > 1")
    case True
    let ?p = "c\<lparr>small := rest,
      cmap := AList.update key (e\<lparr>ce_freq := 0, ce_in_small := False\<rparr>) (cmap c),
      small_bytes := small_bytes c - ce_size e, main := main c @ [key]\<rparr>"
    have "small_loop xxh3 rest ?p = (c', b)"
      using 2(5) e True by simp
    then show ?thesis
      using 2(2) [of "c\<lparr>small := rest\<rparr>" e] e True step [OF promote [OF 2(6) e True]]
      by (simp add: length_update_present split: if_splits)
  next
    case False
    then show ?thesis
      using 2(5) e length_delete_less [OF e] by (auto simp: Let_def)
  qed
qed auto

lemma main_nonempty:
  assumes "queues_ok c" and "cmap c \<noteq> []" and "small c = []"
  shows "main c \<noteq> []"
proof -
  obtain k e m where "cmap c = (k, e) # m"
    using assms(2) by (cases "cmap c") auto
  then have "map_of (cmap c) k = Some e" by simp
  moreover have "\<not> ce_in_small e"
    using calculation assms(1,3) unfolding queues_ok_def by (metis empty_iff empty_set)
  ultimately show ?thesis
    using assms(1) unfolding queues_ok_def by (metis empty_iff empty_set)
qed

lemma main_nonempty_small_low:
  assumes "acct c" and "queues_ok c" and "small_bytes c < total_bytes c"
  shows "main c \<noteq> []"
proof
  assume m: "main c = []"
  have "ce_in_small e" if "map_of (cmap c) k = Some e" for k e
    using that assms(2) m unfolding queues_ok_def by (metis empty_iff empty_set)
  then have "small_sum (cmap c) = entry_sum (cmap c)"
    using assms(1) by (auto simp: small_sum_def entry_sum_def sum_entries_dom acct_def intro!: sum.cong)
  then show False
    using assms by (simp add: queues_ok_def acct_def word_less_nat_alt)
qed

lemma evict_one_evicts:
  assumes "acct c" and "queues_ok c" and "cmap c \<noteq> []" and "small_bytes c \<ge> small_budget c \<or> small_bytes c < total_bytes c"
  shows "length (cmap (evict_one xxh3 c)) < length (cmap c)"
proof (cases "small_bytes c \<ge> small_budget c")
  case True
  obtain c' b where cb: "small_loop xxh3 (small c) c = (c', b)" by (cases "small_loop xxh3 (small c) c")
  note ok = evict_steps_ok [OF small_loop_steps [OF cb refl] assms(1,2)]
  show ?thesis
  proof (cases b)
    case True
    then show ?thesis
      using small_loop_evicts [OF assms(1,2) cb refl] \<open>small_bytes c \<ge> small_budget c\<close> cb
      by (simp add: evict_one_def evict_from_small_def)
  next
    case False
    then have "small c' = []" "length (cmap c') = length (cmap c)"
      using small_loop_evicts [OF assms(1,2) cb refl] by simp_all
    then have "length (cmap (evict_from_main c')) < length (cmap c)"
      using evict_from_main_evicts [of c'] main_nonempty [of c'] ok assms(3) by fastforce
    then show ?thesis
      using False True cb by (simp add: evict_one_def evict_from_small_def)
  qed
next
  case False
  then show ?thesis
    using assms evict_from_main_evicts [of c] main_nonempty_small_low [of c] by (simp add: evict_one_def)
qed

lemma make_room_returns:
  assumes "acct c" and "queues_ok c" and "small_budget c + n \<le> budget_bytes c"
    and "unat (small_budget c) + unat n < 2 ^ 64"
  shows "\<exists>c'. make_room xxh3 n c = Some c'"
  using assms
proof (induction "length (cmap c)" arbitrary: c rule: less_induct)
  case less
  show ?case
  proof (cases "budget_bytes c < total_bytes c + n \<and> cmap c \<noteq> []")
    case True
    have "small_budget c < total_bytes c"
    proof (rule ccontr)
      assume "\<not> ?thesis"
      then have "total_bytes c + n \<le> small_budget c + n"
        using less.prems(4) by (simp add: word_le_nat_alt not_less unat_word_ariths)
      then show False
        using True less.prems(3) by (meson leD order_trans)
    qed
    then have e: "length (cmap (evict_one xxh3 c)) < length (cmap c)"
      using less.prems(1,2) True by (intro evict_one_evicts) auto
    have "acct (evict_one xxh3 c) \<and> queues_ok (evict_one xxh3 c)" "sub_cache c (evict_one xxh3 c)"
      using evict_steps_ok [OF evict_one_steps less.prems(1,2)] evict_steps_sub_cache [OF evict_one_steps] by auto
    then have "\<exists>c'. make_room xxh3 n (evict_one xxh3 c) = Some c'"
      using less.hyps [OF e] less.prems(3,4) by (simp add: sub_cache_def)
    then show ?thesis
      using True by (subst make_room.simps) simp
  qed (subst make_room.simps, auto)
qed

lemma cache_new_ok:
  assumes "cache_new budget = Some c"
  shows "acct c" and "queues_ok c" and "cmap c = []" and "budget_bytes c = budget"
    and "small_budget c = max (budget div 10) 1" and "contents c = Map.empty"
  using assms by (auto simp: cache_new_def acct_def queues_ok_def entry_sum_def tenant_sum_def small_sum_def
      charged_sum_def tenant_charged_def contents_def split: if_splits)

lemma queues_ok_cache_get:
  assumes "acct c" and "queues_ok c"
  shows "queues_ok (snd (cache_get c k))"
proof (cases "map_of (cmap c) k")
  case (Some e)
  let ?e = "e\<lparr>ce_freq := min (ce_freq e + 1) 3\<rparr>"
  have "small_sum (AList.update k ?e (cmap c)) = small_sum (cmap c)"
    using small_sum_update [OF assms(1) Some, of ?e] by (simp split: if_splits)
  then show ?thesis
    using assms(2) Some by (auto simp: cache_get_def queues_ok_def amap.lookup_insert)
qed (use assms in \<open>simp add: cache_get_def queues_ok_def\<close>)

lemma queues_ok_insert_for:
  assumes "acct c" and "queues_ok c" and "insert_for xxh3 c k v n t = Some c'"
    and "entry_sum (cmap c) + length k + unat n + 64 < 2 ^ 64"
  shows "queues_ok c'"
proof -
  let ?sz = "of_nat (length k) + n + ENTRY_OVERHEAD"
  have sz: "unat ?sz = length k + unat n + 64"
    using assms(4) by (intro entry_size_unat) simp
  show ?thesis
    using assms(3)
  proof (cases rule: insert_for_cases)
    case (overwrite e)
    let ?e = "e\<lparr>ce_value := v, ce_size := ?sz, ce_tenant := ucast t\<rparr>"
    have le: "small_sum (cmap c) \<le> entry_sum (cmap c)" by (rule small_sum_le)
    have "unat (small_bytes c') = small_sum (AList.update k ?e (cmap c))"
    proof (cases "ce_in_small e")
      case True
      then have sum: "unat (ce_size e) + small_sum (AList.update k ?e (cmap c)) = unat ?sz + unat (small_bytes c)"
        using small_sum_update [OF assms(1) overwrite(1), of ?e] assms(2) by (simp add: queues_ok_def)
      have "unat (small_bytes c) + unat ?sz < 2 ^ 64"
        using assms(2,4) le sz by (simp add: queues_ok_def)
      then have add: "unat (small_bytes c + ?sz) = unat (small_bytes c) + unat ?sz"
        by (simp add: unat_word_ariths)
      have "unat (small_bytes c + ?sz - ce_size e) = unat (small_bytes c) + unat ?sz - unat (ce_size e)"
        using add sum by (subst unat_diff_le) (auto simp: word_le_nat_alt)
      moreover have "small_bytes c' = small_bytes c + ?sz - ce_size e"
        using True by (simp add: overwrite(2) overwrite_entry_def Let_def)
      ultimately show ?thesis
        using sum by (metis add.commute add_diff_cancel_left')
    next
      case False
      then show ?thesis
        using small_sum_update [OF assms(1) overwrite(1), of ?e] assms(2)
        by (simp add: queues_ok_def overwrite(2) overwrite_entry_def Let_def)
    qed
    then show ?thesis
      using assms(2) overwrite(1)
      by (auto simp: queues_ok_def overwrite(2) cmap_overwrite_entry overwrite_entry_def Let_def amap.lookup_insert)
  next
    case (admit d)
    have ok: "acct d" "queues_ok d" and sd: "sub_cache c d"
      using make_room_steps [OF admit(2)] evict_steps_ok [OF _ assms(1,2)] by (auto intro: evict_steps_sub_cache)
    have new: "map_of (cmap d) k = None"
      by (rule sub_cache_None [OF sd admit(1)])
    have "unat (small_bytes d) + unat ?sz < 2 ^ 64"
      using entry_sum_sub_cache [OF assms(1) ok(1) sd] small_sum_le [of "cmap d"] ok(2) assms(4) sz
      by (simp add: queues_ok_def)
    then have sb: "unat (small_bytes d + ?sz) = unat (small_bytes d) + unat ?sz"
      by (simp add: unat_word_ariths)
    have out: "k \<notin> set (small d)" "k \<notin> set (main d)"
      using ok(2) new by (auto simp: queues_ok_def)
    show ?thesis
      using ok(2) sb new out unfolding admit(3) queues_ok_def small_sum_def cmap_admit_entry
      by (auto simp: admit_entry_def Let_def sum_entries_insert_new amap.lookup_insert split: if_splits)
  qed
qed

lemma run_cache_ok:
  assumes "acct c" and "queues_ok c" and "run_cache xxh3 c ops = Some c'"
    and "entry_sum (cmap c) + sum_list (map op_bytes ops) < 2 ^ 64" and "list_all (\<lambda>x. \<not> is_Remove_op x) ops"
  shows "queues_ok c'"
  using assms
proof (induction ops arbitrary: c)
  case (Cons x ops)
  then obtain d where d: "cache_step xxh3 c x = Some d" "run_cache xxh3 d ops = Some c'"
    by (auto split: bind_splits)
  have "entry_sum (cmap c) + op_bytes x < 2 ^ 64"
    using Cons.prems(4) by simp
  then have "acct d \<and> entry_sum (cmap d) \<le> entry_sum (cmap c) + op_bytes x"
    using run_cache_acct [of c xxh3 "[x]" d] d(1) Cons.prems(1) by simp
  moreover have "queues_ok d"
    using d(1) Cons.prems queues_ok_cache_get [of c] queues_ok_insert_for [of c xxh3]
    by (cases x) auto
  ultimately show ?case
    using Cons.IH [of d] d(2) Cons.prems(4,5) by simp
qed simp

lemma budgets_run_cache:
  "run_cache xxh3 c ops = Some c' \<Longrightarrow> budget_bytes c' = budget_bytes c \<and> small_budget c' = small_budget c"
proof (induction ops arbitrary: c)
  case (Cons x ops)
  then obtain d where d: "cache_step xxh3 c x = Some d" "run_cache xxh3 d ops = Some c'"
    by (auto split: bind_splits)
  have ins: "budget_bytes d = budget_bytes c \<and> small_budget d = small_budget c"
    if "insert_for xxh3 c k v n t = Some d" for k v n t
    using that
  proof (cases rule: insert_for_cases)
    case (admit e)
    have "sub_cache c e"
      using make_room_steps [OF admit(2)] by (blast intro: evict_steps_sub_cache)
    then show ?thesis
      by (simp add: admit(3) admit_entry_def Let_def sub_cache_def)
  qed (simp add: overwrite_entry_def Let_def)
  have "budget_bytes d = budget_bytes c \<and> small_budget d = small_budget c"
    using d(1) ins by (cases x) (auto simp: cache_get_def cache_remove_def Let_def split: option.splits)
  then show ?case
    using Cons.IH d(2) by simp
qed simp

lemma run_cache_returns:
  assumes "acct c" and "queues_ok c" and "entry_sum (cmap c) + sum_list (map op_bytes ops) < 2 ^ 64"
    and "list_all (\<lambda>x. \<not> is_Remove_op x) ops"
    and "list_all (\<lambda>x. op_bytes x + unat (small_budget c) \<le> unat (budget_bytes c)) ops"
  shows "\<exists>c'. run_cache xxh3 c ops = Some c'"
  using assms
proof (induction ops arbitrary: c)
  case (Cons x ops)
  have fit: "entry_sum (cmap c) + op_bytes x < 2 ^ 64"
    using Cons.prems(3) by simp
  have "\<exists>d. cache_step xxh3 c x = Some d"
  proof (cases x)
    case (Insert_op k v n t)
    let ?sz = "of_nat (length k) + n + ENTRY_OVERHEAD"
    have sz: "unat ?sz = length k + unat n + 64"
      using fit Insert_op by (intro entry_size_unat) simp
    have le: "unat (small_budget c) + unat ?sz \<le> unat (budget_bytes c)"
      using Cons.prems(5) sz Insert_op by simp
    moreover have "unat (budget_bytes c) < 2 ^ 64"
      using unat_lt [of "budget_bytes c"] by simp
    ultimately have "\<exists>d. make_room xxh3 ?sz c = Some d"
      using Cons.prems(1,2) by (intro make_room_returns) (simp_all add: word_le_nat_alt unat_word_ariths)
    then show ?thesis
      using Insert_op by (auto simp: insert_for_def Let_def split: option.split)
  qed simp_all
  then obtain d where d: "cache_step xxh3 c x = Some d" ..
  then have one: "run_cache xxh3 c [x] = Some d" by simp
  have "acct d \<and> entry_sum (cmap d) \<le> entry_sum (cmap c) + op_bytes x"
    using run_cache_acct [OF Cons.prems(1) one] fit by simp
  moreover have "queues_ok d"
    using run_cache_ok [OF Cons.prems(1,2) one] fit Cons.prems(4) by simp
  ultimately show ?case
    using Cons.IH [of d] budgets_run_cache [OF one] d Cons.prems(3,4,5) by simp
qed simp

lemma make_room_stuck:
  assumes "budget_bytes c < total_bytes c + n" and "cmap c \<noteq> []" and "main c = []" and "small_bytes c < small_budget c"
  shows "make_room xxh3 n c = None"
proof (rule ccontr)
  let ?stuck = "\<lambda>c. budget_bytes c < total_bytes c + n \<and> cmap c \<noteq> [] \<and> evict_one xxh3 c = c"
  have "evict_one xxh3 c = c"
    using assms by (simp add: evict_one_def evict_from_main_def Let_def main_loop.simps)
  then have st: "?stuck c"
    using assms by simp
  assume "make_room xxh3 n c \<noteq> None"
  then obtain c' where "make_room xxh3 n c = Some c'" by auto
  then have "\<not> ?stuck c"
    by (induction rule: make_room_induct) auto
  with st show False by contradiction
qed

subsection \<open>Properties\<close>

lemmas cache_eval = cache_new_def insert_for_def cache_get_def cache_remove_def overwrite_entry_def
  admit_entry_def add_tenant_bytes_def sub_tenant_bytes_def evict_one_def evict_from_small_def
  evict_from_main_def ghost_push_def ENTRY_OVERHEAD_def GHOST_CAPACITY_def Let_def

lemma make_room_evict:
  "budget_bytes c < total_bytes c + n \<Longrightarrow> cmap c \<noteq> [] \<Longrightarrow> make_room xxh3 n c = make_room xxh3 n (evict_one xxh3 c)"
  by (subst make_room.simps) simp

lemma make_room_fits:
  "total_bytes c + n \<le> budget_bytes c \<or> cmap c = [] \<Longrightarrow> make_room xxh3 n c = Some c"
  by (subst make_room.simps) auto

text \<open>
  C18: A cache hit never lies: after any history of lookups, insertions and removals that returns, a
  hit on a key is the value most recently inserted for it, with no removal since, whatever has been
  evicted in between.
\<close>

theorem cache_hit_is_last_write:
  assumes "cache_new budget = Some c0" and "run_cache xxh3 c0 ops = Some c" and "fst (cache_get c k) = Some v"
  shows "foldl store_step Map.empty ops k = Some v"
proof -
  have "s3.coherent c0 Map.empty"
    using cache_new_ok(6) [OF assms(1)] by (simp add: s3.coherent_def)
  then show ?thesis
    using s3.coherent_get [of c "foldl store_step Map.empty ops" k v] run_cache_coherent [OF assms(2)] assms(3) by blast
qed

theorem cache_hit_is_last_write_witness:
  "foldl store_step Map.empty [Insert_op [1] (5::nat) 1 0, Insert_op [1] 7 1 0, Get_op [2]] [1] = Some 7"
proof -
  let ?c0 = "the (cache_new 1000) :: nat s3fifo"
  let ?ops = "[Insert_op [1] (5::nat) 1 0, Insert_op [1] 7 1 0, Get_op [2]]"
  have n: "cache_new 1000 = Some ?c0" by (simp add: cache_eval)
  have r: "run_cache (\<lambda>_. 0) ?c0 ?ops = Some (the (run_cache (\<lambda>_. 0) ?c0 ?ops))"
    and g: "fst (cache_get (the (run_cache (\<lambda>_. 0) ?c0 ?ops)) [1]) = Some 7"
    by (simp_all add: cache_eval make_room_fits)
  show ?thesis
    by (rule cache_hit_is_last_write [OF n r g])
qed

text \<open>
  C19: The byte accounting is exact: after any history that returns and charges less than \<open>2 ^ 64\<close>
  bytes, the total is the sum of the sizes of the cached entries, every tenant is charged exactly its
  own entries, and the tenants' charges add up to the total.
\<close>

theorem cache_accounting:
  assumes "cache_new budget = Some c0" and "run_cache xxh3 c0 ops = Some c"
    and "sum_list (map op_bytes ops) < 2 ^ 64"
  shows "unat (current_bytes c) = (\<Sum>(k, e)\<leftarrow>cmap c. unat (ce_size e)) \<and>
    (\<forall>t. unat (charged_bytes c t) = (\<Sum>(k, e)\<leftarrow>cmap c. if ce_tenant e = ucast t then unat (ce_size e) else 0)) \<and>
    unat (tenant0_bytes c) + (\<Sum>(t, b)\<leftarrow>per_tenant c. unat b) = unat (current_bytes c)"
proof -
  have "acct c"
    using run_cache_acct [OF cache_new_ok(1) [OF assms(1)] assms(2)] cache_new_ok(3) [OF assms(1)] assms(3)
    by (simp add: entry_sum_def)
  then show ?thesis
    by (simp add: acct_def entry_sum_def tenant_sum_def charged_sum_def sum_entries_def current_bytes_def charged_bytes_def)
qed

theorem cache_accounting_witness:
  "\<exists>c. run_cache (\<lambda>_. 0) (the (cache_new 1000)) [Insert_op [1] (5::nat) 1 7, Insert_op [2] 7 3 0] = Some c \<and>
     unat (charged_bytes c 7) = (\<Sum>(k, e)\<leftarrow>cmap c. if ce_tenant e = ucast (7 :: u128) then unat (ce_size e) else 0)"
proof -
  let ?c0 = "the (cache_new 1000) :: nat s3fifo"
  let ?ops = "[Insert_op [1] (5::nat) 1 7, Insert_op [2] 7 3 0]"
  have n: "cache_new 1000 = Some ?c0" by (simp add: cache_eval)
  have r: "run_cache (\<lambda>_. 0) ?c0 ?ops = Some (the (run_cache (\<lambda>_. 0) ?c0 ?ops))"
    by (simp add: cache_eval make_room_fits)
  have "sum_list (map op_bytes ?ops) < 2 ^ 64" by simp
  from cache_accounting [OF n r this] r show ?thesis
    by blast
qed

text \<open>
  C31: Inserting a new key respects the budget: when the insertion returns, either the charged bytes are
  within the budget or the cache holds nothing but the key just inserted.
\<close>

theorem insert_within_budget:
  assumes "cache_new budget = Some c0" and "run_cache xxh3 c0 ops = Some c"
    and "insert_for xxh3 c k v n t = Some c'" and "contents c k = None"
    and "sum_list (map op_bytes ops) + op_bytes (Insert_op k v n t) < 2 ^ 64"
  shows "(\<Sum>(k, e)\<leftarrow>cmap c'. unat (ce_size e)) \<le> unat budget \<or> dom (contents c') = {k}"
proof -
  have new: "map_of (cmap c) k = None"
    using assms(4) by (simp add: contents_def)
  have b: "budget_bytes c = budget"
    using budgets_run_cache [OF assms(2)] cache_new_ok(4) [OF assms(1)] by simp
  have "acct c \<and> entry_sum (cmap c) \<le> sum_list (map op_bytes ops)"
    using run_cache_acct [OF cache_new_ok(1) [OF assms(1)] assms(2)] cache_new_ok(3) [OF assms(1)] assms(5)
    by (simp add: entry_sum_def)
  then have "acct c'"
    using acct_insert_for [OF _ assms(3)] assms(5) by simp
  then have tot: "(\<Sum>(k, e)\<leftarrow>cmap c'. unat (ce_size e)) = unat (total_bytes c')"
    by (simp add: acct_def entry_sum_def sum_entries_def)
  show ?thesis
    using assms(3)
  proof (cases rule: insert_for_cases)
    case (admit d)
    have "budget_bytes d = budget"
      using evict_steps_sub_cache [of xxh3 c d] make_room_steps [OF admit(2)] b by (simp add: sub_cache_def)
    moreover have "dom (contents c') = {k}" if "cmap d = []"
      using that by (auto simp: admit(3) contents_def cmap_admit_entry dom_def split: if_splits)
    moreover have "total_bytes c' = total_bytes d + (of_nat (length k) + n + ENTRY_OVERHEAD)"
      by (simp add: admit(3) admit_entry_def Let_def)
    ultimately show ?thesis
      using make_room_steps [OF admit(2)] tot by (auto simp: word_le_nat_alt)
  qed (simp add: new)
qed

theorem insert_within_budget_witness:
  "(\<Sum>(k, e)\<leftarrow>cmap (the (insert_for (\<lambda>_. 0) (the (cache_new 1000)) [1] (5::nat) 1 0)). unat (ce_size e)) \<le> unat (1000 :: u64) \<or>
   dom (contents (the (insert_for (\<lambda>_. 0) (the (cache_new 1000)) [1] (5::nat) 1 0))) = {[1]}"
proof -
  let ?c0 = "the (cache_new 1000) :: nat s3fifo"
  have n: "cache_new 1000 = Some ?c0" by (simp add: cache_eval)
  have r: "run_cache (\<lambda>_. 0) ?c0 [] = Some ?c0" by simp
  have i: "insert_for (\<lambda>_. 0) ?c0 [1] (5::nat) 1 0 = Some (the (insert_for (\<lambda>_. 0) ?c0 [1] 5 1 0))"
    and f: "contents ?c0 [1] = None"
    by (simp_all add: cache_eval make_room_fits contents_def)
  show ?thesis
    by (rule insert_within_budget [OF n r i f]) simp
qed

text \<open>
  C32: Without removals the cache always returns: from an empty cache, any history of lookups and
  insertions whose entries each leave room for the small queue's share of the budget runs to the end,
  so the unbounded eviction loop terminates.
\<close>

theorem cache_returns:
  assumes "cache_new budget = Some c0" and "sum_list (map op_bytes ops) < 2 ^ 64"
    and "list_all (\<lambda>x. \<not> is_Remove_op x) ops"
    and "list_all (\<lambda>x. op_bytes x + unat (max (budget div 10) 1) \<le> unat budget) ops"
  shows "\<exists>c. run_cache xxh3 c0 ops = Some c"
  using run_cache_returns [OF cache_new_ok(1,2) [OF assms(1)], of ops xxh3] cache_new_ok(3-5) [OF assms(1)] assms(2-)
  by (simp add: entry_sum_def)

theorem cache_returns_witness:
  "\<exists>c. run_cache (\<lambda>_. 0) (the (cache_new 200)) [Insert_op [1] (5::nat) 90 0, Insert_op [2] 6 90 0, Get_op [1]] = Some c"
  by (rule cache_returns [where budget = 200]) (simp_all add: cache_eval)

text \<open>
  C33: With one small entry cached, inserting a large one never returns: if a fresh cache holds one key
  charged less than the small queue's share, inserting any other key that does not fit beside it makes
  the eviction loop spin for ever, because the small queue is below its threshold and the main queue is
  empty.
\<close>

theorem insert_spins:
  assumes "cache_new budget = Some c0" and "k \<noteq> k'"
    and "op_bytes (Insert_op k v n t) < unat (budget div 10)"
    and "unat budget < op_bytes (Insert_op k v n t) + op_bytes (Insert_op k' v' n' t')"
    and "op_bytes (Insert_op k v n t) + op_bytes (Insert_op k' v' n' t') < 2 ^ 64"
  shows "run_cache xxh3 c0 [Insert_op k v n t, Insert_op k' v' n' t'] = None"
proof -
  let ?s = "of_nat (length k) + n + ENTRY_OVERHEAD" and ?s' = "of_nat (length k') + n' + ENTRY_OVERHEAD"
  have s: "unat ?s = length k + unat n + 64" "unat ?s' = length k' + unat n' + 64"
    using assms(5) by (auto intro!: entry_size_unat)
  then have sum: "unat (?s + ?s') = unat ?s + unat ?s'"
    using assms(5) by (intro unat_add_fits) simp
  have lt: "?s < budget div 10" "budget < ?s + ?s'"
    using assms(3,4) s sum by (simp_all add: word_less_nat_alt)
  let ?c = "admit_entry xxh3 c0 k v ?s (ucast t)"
  have c0: "c0 = the (cache_new budget)"
    using assms(1) by simp
  have ins: "insert_for xxh3 c0 k v n t = Some ?c"
    using cache_new_ok(3) [OF assms(1)] by (simp add: insert_for_def Let_def make_room_fits)
  have c: "main ?c = []" "cmap ?c \<noteq> []" "total_bytes ?c = ?s" "small_bytes ?c = ?s"
    "budget_bytes ?c = budget" "small_budget ?c = max (budget div 10) 1" "map_of (cmap ?c) k' = None"
    using assms(1,2) by (auto simp: cache_new_def admit_entry_def add_tenant_bytes_def Let_def split: if_splits)
  have "make_room xxh3 ?s' ?c = None"
    by (rule make_room_stuck) (use c lt in \<open>auto simp: less_max_iff_disj\<close>)
  then show ?thesis
    using ins c(7) by (simp add: insert_for_def Let_def)
qed

theorem insert_spins_witness:
  "run_cache (\<lambda>_. 0) (the (cache_new 1000)) [Insert_op [1] (5::nat) 1 0, Insert_op [2] 6 900 0] = None"
  by (rule insert_spins [where budget = 1000]) (simp_all add: cache_eval)


text \<open>
  Overwriting ignores the budget: replacing the value of a cached key by a larger one evicts
  nothing, so \<open>current_bytes\<close> ends above \<open>budget\<close> with another entry still cached.
\<close>

theorem overwrite_exceeds_budget:
  "\<exists>c. run_cache xxh3 (the (cache_new 200)) [Insert_op [1] v 1 0, Insert_op [2] v 1 0, Insert_op [1] v 500 0] = Some c \<and>
     current_bytes c > budget_bytes c \<and> dom (contents c) = {[1], [2]}"
  by (simp add: cache_eval make_room_fits current_bytes_def) (auto simp: contents_def dom_def split: if_splits)

end
