(* ===== verification/Core_Commit.thy ===== *)
theory Core_Commit
  imports Core_Record
begin

text \<open>
  Group commit (\<open>crates/skeg-core/src/group_commit.rs\<close> and \<open>shared_committer.rs\<close>): write requests
  are collected into batches, each batch is written at the running offset with one write and flushed
  once at the strongest durability it asks for, and every request is answered. The outcome of each
  write and each flush is an input, so all I/O failures are covered. Offsets are naturals.
\<close>

subsection \<open>Durability tiers\<close>

datatype durability = Relaxed | Kernel | Power

fun durability_rank :: "durability \<Rightarrow> nat" where
  "durability_rank Relaxed = 0"
| "durability_rank Kernel = 1"
| "durability_rank Power = 2"

instantiation durability :: linorder
begin

definition less_eq_durability :: "durability \<Rightarrow> durability \<Rightarrow> bool" where
  "a \<le> b \<longleftrightarrow> durability_rank a \<le> durability_rank b"

definition less_durability :: "durability \<Rightarrow> durability \<Rightarrow> bool" where
  "a < b \<longleftrightarrow> durability_rank a < durability_rank b"

instance
proof
  show "a \<le> b \<Longrightarrow> b \<le> a \<Longrightarrow> a = b" for a b :: durability
    by (cases a; cases b) (simp_all add: less_eq_durability_def)
qed (auto simp: less_eq_durability_def less_durability_def)

end

lemma Relaxed_le [simp]: "Relaxed \<le> d"
  by (simp add: less_eq_durability_def)

lemma durability_le_simps [simp]:
  "Kernel \<le> Kernel" "Kernel \<le> Power" "\<not> Kernel \<le> Relaxed" "\<not> Power \<le> Kernel" "\<not> Power \<le> Relaxed"
  by (simp_all add: less_eq_durability_def)

subsection \<open>Files\<close>

text \<open>
  A file as \<open>PlatformFile\<close> presents it: what reads see, what survives a kernel panic (the bytes at the
  last \<open>sync_data\<close>), what survives power loss (the bytes at the last \<open>sync_durable\<close>).
\<close>

record pfile =
  pf_bytes :: bytes
  pf_kernel :: bytes
  pf_power :: bytes

definition pf_write :: "pfile \<Rightarrow> nat \<Rightarrow> bytes \<Rightarrow> pfile" where
  "pf_write f offset data = f\<lparr>pf_bytes := splice_at offset data (pf_bytes f)\<rparr>"

definition sync_data :: "pfile \<Rightarrow> pfile" where
  "sync_data f = f\<lparr>pf_kernel := pf_bytes f\<rparr>"

definition sync_durable :: "pfile \<Rightarrow> pfile" where
  "sync_durable f = f\<lparr>pf_kernel := pf_bytes f, pf_power := pf_bytes f\<rparr>"

definition pf_create :: pfile where
  "pf_create = \<lparr>pf_bytes = [], pf_kernel = [], pf_power = []\<rparr>"

text \<open>\<open>set_len\<close> cuts or zero-extends; \<open>fallocate\<close> only extends.\<close>

definition pf_truncate :: "pfile \<Rightarrow> nat \<Rightarrow> pfile" where
  "pf_truncate f len = f\<lparr>pf_bytes := take len (pf_bytes f) @ replicate (len - length (pf_bytes f)) 0\<rparr>"

definition pf_preallocate :: "pfile \<Rightarrow> nat \<Rightarrow> pfile" where
  "pf_preallocate f len = f\<lparr>pf_bytes := pf_bytes f @ replicate (len - length (pf_bytes f)) 0\<rparr>"

definition pf_size :: "pfile \<Rightarrow> nat" where
  "pf_size f = length (pf_bytes f)"

text \<open>A write succeeds, or fails after some of its bytes have reached the file.\<close>

datatype write_outcome = Write_ok | Write_err nat

subsection \<open>The per-file committer\<close>

definition MAX_BATCH_BYTES :: nat where "MAX_BATCH_BYTES = 256 * 1024"
definition MAX_BATCH_ENTRIES :: nat where "MAX_BATCH_ENTRIES = 256"

record write_req =
  wr_data :: bytes
  wr_durability :: durability
  wr_tx :: nat

text \<open>What a waiter receives on its channel.\<close>

datatype reply = Ack nat nat u32 | Nack nat | Flushed nat

fun assign_offsets :: "nat \<Rightarrow> write_req list \<Rightarrow> (nat \<times> u32) list \<times> nat" where
  "assign_offsets pos [] = ([], pos)"
| "assign_offsets pos (r # rs) =
     (case assign_offsets (pos + length (wr_data r)) rs of
        (os, e) \<Rightarrow> ((pos, of_nat (length (wr_data r))) # os, e))"

definition batch_durability :: "write_req list \<Rightarrow> durability" where
  "batch_durability batch = foldl (\<lambda>d r. max d (wr_durability r)) Relaxed batch"

definition batch_sync :: "durability \<Rightarrow> pfile \<Rightarrow> pfile" where
  "batch_sync d f = (case d of Relaxed \<Rightarrow> f | Kernel \<Rightarrow> sync_data f | Power \<Rightarrow> sync_durable f)"

definition flush_batch ::
  "write_outcome \<Rightarrow> bool \<Rightarrow> pfile \<Rightarrow> write_req list \<Rightarrow> nat \<Rightarrow> pfile \<times> nat \<times> reply list" where
  "flush_batch wres sres fl batch w_offset =
    (if batch = [] then (fl, w_offset, [])
     else
       let (offsets, pos) = assign_offsets w_offset batch;
           dur = batch_durability batch;
           chunks = concat (map wr_data batch) in
       case wres of
         Write_ok \<Rightarrow>
           let fl = pf_write fl w_offset chunks;
               sync_ok = (dur = Relaxed \<or> sres);
               fl = (if sync_ok then batch_sync dur fl else fl);
               w_offset = (if sync_ok then pos else w_offset) in
           (fl, w_offset,
            map (\<lambda>(r, off, sz). if sync_ok then Ack (wr_tx r) off sz else Nack (wr_tx r)) (zip batch offsets))
       | Write_err n \<Rightarrow>
           (pf_write fl w_offset (take n chunks), w_offset, map (\<lambda>r. Nack (wr_tx r)) batch))"

datatype committer_event =
    Recv_write write_req
  | Recv_flush nat
  | Timer
  | Closed

record committer =
  c_file :: pfile
  c_batch :: "write_req list"
  c_batch_bytes :: nat
  c_offset :: nat
  c_running :: bool

definition committer_start :: "pfile \<Rightarrow> nat \<Rightarrow> committer" where
  "committer_start fl initial_offset =
    \<lparr>c_file = fl, c_batch = [], c_batch_bytes = 0, c_offset = initial_offset, c_running = True\<rparr>"

definition do_flush :: "write_outcome \<Rightarrow> bool \<Rightarrow> committer \<Rightarrow> committer \<times> reply list" where
  "do_flush wres sres c =
    (case flush_batch wres sres (c_file c) (c_batch c) (c_offset c) of
       (fl, off, rs) \<Rightarrow> (c\<lparr>c_file := fl, c_offset := off, c_batch := []\<rparr>, rs))"

text \<open>One iteration of \<open>committer_task\<close>; the outcomes are used only if the iteration flushes.\<close>

fun committer_step ::
  "committer \<Rightarrow> committer_event \<times> write_outcome \<times> bool \<Rightarrow> committer \<times> reply list" where
  "committer_step c (ev, wres, sres) =
    (if \<not> c_running c then (c, [])
     else case ev of
       Closed \<Rightarrow> (case do_flush wres sres c of (c, rs) \<Rightarrow> (c\<lparr>c_running := False\<rparr>, rs))
     | Recv_write req \<Rightarrow>
         (let c = c\<lparr>c_batch_bytes := c_batch_bytes c + length (wr_data req), c_batch := c_batch c @ [req]\<rparr> in
          if c_batch_bytes c \<ge> MAX_BATCH_BYTES \<or> length (c_batch c) \<ge> MAX_BATCH_ENTRIES
          then (case do_flush wres sres c of (c, rs) \<Rightarrow> (c\<lparr>c_batch_bytes := 0\<rparr>, rs))
          else (c, []))
     | Recv_flush tx \<Rightarrow>
         (case do_flush wres sres c of (c, rs) \<Rightarrow> (c\<lparr>c_batch_bytes := 0\<rparr>, rs @ [Flushed tx]))
     | Timer \<Rightarrow>
         (if c_batch c \<noteq> []
          then (case do_flush wres sres c of (c, rs) \<Rightarrow> (c\<lparr>c_batch_bytes := 0\<rparr>, rs))
          else (c, [])))"

fun committer_task ::
  "committer \<Rightarrow> (committer_event \<times> write_outcome \<times> bool) list \<Rightarrow> committer \<times> reply list" where
  "committer_task c [] = (c, [])"
| "committer_task c (e # es) =
     (case committer_step c e of (c, rs) \<Rightarrow> (case committer_task c es of (c, rs') \<Rightarrow> (c, rs @ rs')))"

subsection \<open>An acknowledged write stays\<close>

text \<open>The file holds the request's bytes at \<open>off\<close>, at every tier the request asked for.\<close>

definition held :: "pfile \<Rightarrow> nat \<Rightarrow> write_req \<Rightarrow> bool" where
  "held f off r \<longleftrightarrow>
     bslice off (off + length (wr_data r)) (pf_bytes f) = wr_data r \<and>
     (Kernel \<le> wr_durability r \<longrightarrow> bslice off (off + length (wr_data r)) (pf_kernel f) = wr_data r) \<and>
     (Power \<le> wr_durability r \<longrightarrow> bslice off (off + length (wr_data r)) (pf_power f) = wr_data r)"

lemma bslice_splice_below:
  "b \<le> i \<Longrightarrow> i \<le> length xs \<Longrightarrow> bslice a b (splice_at i ys xs) = bslice a b xs"
  by (simp add: bslice_def splice_at_def take_drop min_def)

lemma length_splice_ge: "i \<le> length xs \<Longrightarrow> length xs \<le> length (splice_at i ys xs) \<and> i + length ys \<le> length (splice_at i ys xs)"
  by (simp add: splice_at_def)

lemma held_write:
  "held f off r \<Longrightarrow> off + length (wr_data r) \<le> w \<Longrightarrow> w \<le> length (pf_bytes f) \<Longrightarrow> held (pf_write f w data) off r"
  by (simp add: held_def pf_write_def bslice_splice_below)

lemma held_sync: "held f off r \<Longrightarrow> held (batch_sync d f) off r"
  by (auto simp: held_def batch_sync_def sync_data_def sync_durable_def split: durability.split)

lemma pf_bytes_sync [simp]: "pf_bytes (batch_sync d f) = pf_bytes f"
  by (simp add: batch_sync_def sync_data_def sync_durable_def split: durability.split)

lemma batch_durability_ge:
  assumes "r \<in> set batch"
  shows "wr_durability r \<le> batch_durability batch"
proof -
  have "d \<le> foldl (\<lambda>d r. max d (wr_durability r)) d rs \<and>
    (\<forall>r\<in>set rs. wr_durability r \<le> foldl (\<lambda>d r. max d (wr_durability r)) d rs)" for d rs
  proof (induction rs arbitrary: d)
    case (Cons r rs)
    from Cons [of "max d (wr_durability r)"] show ?case by auto
  qed simp
  from this [of Relaxed batch] show ?thesis
    using assms by (simp add: batch_durability_def)
qed

lemma assign_offsets_end: "snd (assign_offsets pos rs) = pos + length (concat (map wr_data rs))"
  by (induction rs arbitrary: pos) (auto split: prod.split, metis add.assoc snd_conv)

lemma assign_offsets_zip:
  assumes "(r, off, sz) \<in> set (zip rs (fst (assign_offsets pos rs)))"
  shows "\<exists>pre post. rs = pre @ r # post \<and> off = pos + length (concat (map wr_data pre)) \<and> sz = of_nat (length (wr_data r))"
  using assms
proof (induction rs arbitrary: pos)
  case (Cons q rs)
  obtain os e where os: "assign_offsets (pos + length (wr_data q)) rs = (os, e)"
    by (cases "assign_offsets (pos + length (wr_data q)) rs")
  show ?case
  proof (cases "(r, off, sz) \<in> set (zip rs os)")
    case True
    then obtain pre post where "rs = pre @ r # post"
      "off = pos + length (wr_data q) + length (concat (map wr_data pre))" "sz = of_nat (length (wr_data r))"
      using Cons.IH [of "pos + length (wr_data q)"] os by auto
    then show ?thesis
      by (intro exI [of _ "q # pre"] exI [of _ post]) simp
  next
    case False
    then have "r = q" "off = pos" "sz = of_nat (length (wr_data q))"
      using Cons.prems os by auto
    then show ?thesis
      by (intro exI [of _ "[]"] exI [of _ rs]) simp
  qed
qed simp

lemma batch_held:
  assumes "w \<le> length (pf_bytes f)" and "batch = pre @ r # post"
  shows "held (batch_sync (batch_durability batch) (pf_write f w (concat (map wr_data batch))))
    (w + length (concat (map wr_data pre))) r"
proof -
  let ?c = "concat (map wr_data batch)" and ?o = "w + length (concat (map wr_data pre))"
  have b: "bslice ?o (?o + length (wr_data r)) (splice_at w ?c (pf_bytes f)) = wr_data r"
    using assms by (simp add: bslice_def splice_at_def)
  have "wr_durability r \<le> batch_durability batch"
    using assms(2) by (intro batch_durability_ge) simp
  then show ?thesis
    using b by (cases "batch_durability batch")
      (auto simp: held_def pf_write_def batch_sync_def sync_data_def sync_durable_def dest: order_trans)
qed

lemma flush_batch_frame:
  assumes "flush_batch wres sres f batch w = (f', w', rs)" and "w \<le> length (pf_bytes f)"
  shows "w \<le> w' \<and> w' \<le> length (pf_bytes f') \<and> take w (pf_bytes f') = take w (pf_bytes f)"
  using assms assign_offsets_end [of w batch] length_splice_ge [OF assms(2), of "concat (map wr_data batch)"]
    length_splice_ge [OF assms(2)]
  by (auto simp: flush_batch_def Let_def pf_write_def splice_at_def min_def
      split: if_splits write_outcome.splits prod.splits)

lemma flush_batch_held:
  assumes "flush_batch wres sres f batch w = (f', w', rs)" and "w \<le> length (pf_bytes f)"
    and "held f off r" and "off + length (wr_data r) \<le> w"
  shows "held f' off r"
  using assms held_write [OF assms(3,4,2)]
  by (auto simp: flush_batch_def Let_def held_sync split: if_splits write_outcome.splits prod.splits)

lemma flush_batch_ack:
  assumes "flush_batch wres sres f batch w = (f', w', rs)" and "w \<le> length (pf_bytes f)" and "Ack tx off sz \<in> set rs"
  shows "\<exists>r\<in>set batch. wr_tx r = tx \<and> sz = of_nat (length (wr_data r)) \<and> w \<le> off \<and> off + length (wr_data r) \<le> w' \<and> held f' off r"
proof -
  have ne: "batch \<noteq> []" and wr: "wres = Write_ok" and ok: "batch_durability batch = Relaxed \<or> sres"
    using assms(1,3) by (auto simp: flush_batch_def Let_def split: if_splits write_outcome.splits prod.splits)
  have f': "f' = batch_sync (batch_durability batch) (pf_write f w (concat (map wr_data batch)))"
    and w': "w' = snd (assign_offsets w batch)"
    and "\<exists>r. (r, off, sz) \<in> set (zip batch (fst (assign_offsets w batch))) \<and> wr_tx r = tx"
    using assms(1,3) ne wr ok by (auto simp: flush_batch_def Let_def split: prod.splits)
  then obtain r where r: "(r, off, sz) \<in> set (zip batch (fst (assign_offsets w batch)))" "wr_tx r = tx"
    by blast
  from assign_offsets_zip [OF r(1)] obtain pre post where p: "batch = pre @ r # post"
    "off = w + length (concat (map wr_data pre))" "sz = of_nat (length (wr_data r))"
    by blast
  then show ?thesis
    using batch_held [OF assms(2) p(1)] r(2) w' by (auto simp: f' assign_offsets_end)
qed

fun event_reqs :: "committer_event \<times> write_outcome \<times> bool \<Rightarrow> write_req list" where
  "event_reqs (Recv_write req, _, _) = [req]"
| "event_reqs _ = []"

lemma do_flush_cases:
  assumes "do_flush wres sres c = (c', rs)"
  obtains f' w' where "flush_batch wres sres (c_file c) (c_batch c) (c_offset c) = (f', w', rs)"
    "c' = c\<lparr>c_file := f', c_offset := w', c_batch := []\<rparr>"
  using assms by (auto simp: do_flush_def split: prod.splits)

text \<open>What a turn of the task keeps: the bytes below its offset, and every acknowledged request.\<close>

definition turn_ok :: "write_req list \<Rightarrow> committer \<Rightarrow> committer \<Rightarrow> reply list \<Rightarrow> bool" where
  "turn_ok reqs c c' rs \<longleftrightarrow>
     c_offset c \<le> c_offset c' \<and> c_offset c' \<le> length (pf_bytes (c_file c')) \<and>
     take (c_offset c) (pf_bytes (c_file c')) = take (c_offset c) (pf_bytes (c_file c)) \<and>
     set (c_batch c') \<subseteq> set reqs \<and>
     (\<forall>off r. held (c_file c) off r \<longrightarrow> off + length (wr_data r) \<le> c_offset c \<longrightarrow> held (c_file c') off r) \<and>
     (\<forall>tx off sz. Ack tx off sz \<in> set rs \<longrightarrow>
        (\<exists>r\<in>set reqs. wr_tx r = tx \<and> sz = of_nat (length (wr_data r)) \<and> c_offset c \<le> off \<and>
           off + length (wr_data r) \<le> c_offset c' \<and> held (c_file c') off r))"

lemma do_flush_turn:
  assumes "do_flush wres sres c = (c', rs)" and "c_offset c \<le> length (pf_bytes (c_file c))"
  shows "turn_ok (c_batch c) c c' rs"
  using assms(1)
proof (cases rule: do_flush_cases)
  case (1 f' w')
  from flush_batch_frame [OF 1(1) assms(2)] flush_batch_held [OF 1(1) assms(2)] flush_batch_ack [OF 1(1) assms(2)]
  show ?thesis
    unfolding turn_ok_def 1(2) by auto
qed

lemma turn_ok_end:
  assumes "turn_ok rq c d rs" "c_file d' = c_file d" "c_offset d' = c_offset d" "c_batch d' = c_batch d"
  shows "turn_ok rq c d' rs"
  using assms by (simp add: turn_ok_def)

lemma turn_ok_start:
  assumes "turn_ok rq c d rs" "c_file c = c_file c'" "c_offset c = c_offset c'"
  shows "turn_ok rq c' d rs"
  using assms by (simp add: turn_ok_def)

lemma turn_ok_flushed: "turn_ok rq c d rs \<Longrightarrow> turn_ok rq c d (rs @ [Flushed tx])"
  by (simp add: turn_ok_def)

lemma turn_ok_mono:
  assumes "turn_ok rq c d rs" and "set rq \<subseteq> set rq'"
  shows "turn_ok rq' c d rs"
  using assms unfolding turn_ok_def by (meson subset_eq)

lemma turn_ok_idle: "c_offset d \<le> length (pf_bytes (c_file d)) \<Longrightarrow> set (c_batch d) \<subseteq> set rq \<Longrightarrow> turn_ok rq d d []"
  by (simp add: turn_ok_def)

lemma turn_ok_trans:
  assumes "turn_ok rq c d rs1" and "turn_ok rq d c' rs2"
  shows "turn_ok rq c c' (rs1 @ rs2)"
proof -
  have le: "c_offset c \<le> c_offset d" "c_offset d \<le> c_offset c'"
    using assms by (simp_all add: turn_ok_def)
  have keep: "held (c_file c') off r" if "held (c_file d) off r" "off + length (wr_data r) \<le> c_offset d" for off r
    using that assms(2) by (simp add: turn_ok_def)
  have acks: "\<exists>r\<in>set rq. wr_tx r = tx \<and> sz = of_nat (length (wr_data r)) \<and> c_offset c \<le> off \<and>
      off + length (wr_data r) \<le> c_offset c' \<and> held (c_file c') off r" if "Ack tx off sz \<in> set (rs1 @ rs2)" for tx off sz
  proof (cases "Ack tx off sz \<in> set rs1")
    case True
    then show ?thesis
      using assms(1) le(2) keep unfolding turn_ok_def by (meson order_trans)
  next
    case False
    then have "Ack tx off sz \<in> set rs2"
      using that by simp
    then show ?thesis
      using assms(2) le(1) unfolding turn_ok_def by (meson order_trans)
  qed
  have "take (c_offset c) (pf_bytes (c_file c')) = take (c_offset c) (pf_bytes (c_file c))"
    using assms le unfolding turn_ok_def by (metis min.absorb1 take_take)
  then show ?thesis
    using acks keep assms le unfolding turn_ok_def by (meson order_trans)
qed

lemma committer_step_turn:
  assumes "committer_step c e = (c', rs)" and "c_offset c \<le> length (pf_bytes (c_file c))"
  shows "turn_ok (c_batch c @ event_reqs e) c c' rs"
proof -
  obtain ev wres sres where e: "e = (ev, wres, sres)" by (cases e)
  obtain d ds where d: "do_flush wres sres c = (d, ds)" by (cases "do_flush wres sres c")
  note td = do_flush_turn [OF d assms(2)]
  show ?thesis
  proof (cases "c_running c")
    case False
    then show ?thesis
      using assms by (auto simp: e intro!: turn_ok_idle)
  next
    case True
    show ?thesis
    proof (cases ev)
      case (Recv_write req)
      let ?c = "c\<lparr>c_batch_bytes := c_batch_bytes c + length (wr_data req), c_batch := c_batch c @ [req]\<rparr>"
      obtain d ds where d: "do_flush wres sres ?c = (d, ds)" by (cases "do_flush wres sres ?c")
      have t: "turn_ok (c_batch c @ [req]) c d ds"
        by (rule turn_ok_start [where c = ?c]) (use do_flush_turn [OF d] assms(2) in simp_all)
      have i: "turn_ok (c_batch c @ [req]) c ?c []"
        by (rule turn_ok_start [where c = ?c], rule turn_ok_idle) (use assms(2) in simp_all)
      show ?thesis
        using assms(1) True d i turn_ok_end [OF t, of "d\<lparr>c_batch_bytes := 0\<rparr>"]
        by (auto simp: e Recv_write Let_def split: if_splits)
    next
      case (Recv_flush tx)
      then show ?thesis
        using assms(1) True d turn_ok_flushed [OF turn_ok_end [OF td, of "d\<lparr>c_batch_bytes := 0\<rparr>"], of tx] by (auto simp: e)
    next
      case Timer
      then show ?thesis
        using assms True d turn_ok_end [OF td, of "d\<lparr>c_batch_bytes := 0\<rparr>"] turn_ok_idle [of c "[]"]
        by (auto simp: e split: if_splits)
    next
      case Closed
      then show ?thesis
        using assms(1) True d turn_ok_end [OF td, of "d\<lparr>c_running := False\<rparr>"] by (auto simp: e)
    qed
  qed
qed

lemma committer_task_turn:
  assumes "committer_task c es = (c', rs)" and "c_offset c \<le> length (pf_bytes (c_file c))"
  shows "turn_ok (c_batch c @ concat (map event_reqs es)) c c' rs"
  using assms
proof (induction es arbitrary: c rs)
  case Nil
  then show ?case by (auto intro!: turn_ok_idle)
next
  case (Cons e es)
  let ?rq = "c_batch c @ concat (map event_reqs (e # es))"
  obtain d rs1 rs2 where s: "committer_step c e = (d, rs1)" "committer_task d es = (c', rs2)" "rs = rs1 @ rs2"
    using Cons.prems(1) by (auto split: prod.splits)
  note t1 = committer_step_turn [OF s(1) Cons.prems(2)]
  have d: "c_offset d \<le> length (pf_bytes (c_file d))" "set (c_batch d) \<subseteq> set (c_batch c @ event_reqs e)"
    using t1 by (simp_all add: turn_ok_def)
  have "turn_ok ?rq c d rs1"
    by (rule turn_ok_mono [OF t1]) auto
  moreover have "turn_ok ?rq d c' rs2"
    by (rule turn_ok_mono [OF Cons.IH [OF s(2) d(1)]]) (use d(2) in auto)
  ultimately show ?case
    unfolding s(3) by (rule turn_ok_trans)
qed

subsection \<open>Every waiter is answered\<close>

fun reply_tx :: "reply \<Rightarrow> nat" where
  "reply_tx (Ack tx off sz) = tx"
| "reply_tx (Nack tx) = tx"
| "reply_tx (Flushed tx) = tx"

fun event_txs :: "committer_event \<times> write_outcome \<times> bool \<Rightarrow> nat list" where
  "event_txs (Recv_write req, _, _) = [wr_tx req]"
| "event_txs (Recv_flush tx, _, _) = [tx]"
| "event_txs _ = []"

lemma length_assign_offsets [simp]: "length (fst (assign_offsets pos rs)) = length rs"
  by (induction rs arbitrary: pos) (auto split: prod.split, metis fst_conv)

lemma map_zip_fst: "length xs = length ys \<Longrightarrow> map (\<lambda>(x, y). f x) (zip xs ys) = map f xs"
  by (induction xs ys rule: list_induct2) simp_all

lemma flush_batch_txs:
  assumes "flush_batch wres sres f batch w = (f', w', rs)"
  shows "map reply_tx rs = map wr_tx batch"
proof (cases "batch = []")
  case False
  obtain os e where os: "assign_offsets w batch = (os, e)" by (cases "assign_offsets w batch")
  have len: "length batch = length os"
    using length_assign_offsets [of w batch] os by simp
  have "map (\<lambda>x. wr_tx (fst x)) (zip batch os) = map wr_tx batch"
    using map_zip_fst [OF len, of wr_tx] by (simp add: case_prod_beta')
  then show ?thesis
    using assms False os
    by (auto simp: flush_batch_def Let_def comp_def case_prod_beta' split: write_outcome.splits if_splits)
qed (use assms in \<open>simp add: flush_batch_def\<close>)

lemma do_flush_txs:
  assumes "do_flush wres sres c = (c', rs)"
  shows "map reply_tx rs = map wr_tx (c_batch c) \<and> c_batch c' = [] \<and> c_running c' = c_running c"
  using assms by (auto simp: do_flush_def dest: flush_batch_txs split: prod.splits)

lemma committer_step_txs:
  assumes "committer_step c (ev, wres, sres) = (c', rs)" and "c_running c" and "ev \<noteq> Closed"
  shows "map reply_tx rs @ map wr_tx (c_batch c') = map wr_tx (c_batch c) @ event_txs (ev, wres, sres) \<and> c_running c'"
  using assms
  by (cases ev) (auto simp: Let_def split: prod.splits if_splits dest!: do_flush_txs)

lemma committer_task_txs:
  assumes "committer_task c es = (c', rs)" and "c_running c" and "\<forall>e\<in>set es. fst e \<noteq> Closed"
  shows "map reply_tx rs @ map wr_tx (c_batch c') = map wr_tx (c_batch c) @ concat (map event_txs es) \<and> c_running c'"
  using assms
proof (induction es arbitrary: c rs)
  case (Cons e es)
  obtain d rs1 rs2 where s: "committer_step c e = (d, rs1)" "committer_task d es = (c', rs2)" "rs = rs1 @ rs2"
    using Cons.prems(1) by (auto split: prod.splits)
  obtain ev w sr where e: "e = (ev, w, sr)" by (cases e)
  have "map reply_tx rs1 @ map wr_tx (c_batch d) = map wr_tx (c_batch c) @ event_txs e \<and> c_running d"
    using committer_step_txs [of c ev w sr d rs1] s(1) Cons.prems(2,3) by (simp add: e)
  with Cons.IH [OF s(2)] Cons.prems(3) show ?case
    by (simp add: s(3))
qed simp

lemma committer_task_append:
  "committer_task c (es @ es') =
    (case committer_task c es of (c, rs) \<Rightarrow> (case committer_task c es' of (c, rs') \<Rightarrow> (c, rs @ rs')))"
  by (induction es arbitrary: c) (simp_all split: prod.split)

text \<open>
  C9: No acknowledged write is lost: whatever the order of requests, flush calls and timers and
  whichever writes and syncs fail, at every moment each request answered with an offset has exactly its
  bytes at that offset of the file, and in the copies that survive a kernel panic or a power loss when
  its durability asked for them; the bytes the committer started behind are never touched.
\<close>

theorem committer_acks_held:
  assumes "committer_task (committer_start f start) es = (c, rs)" and "start \<le> length (pf_bytes f)"
  shows "take start (pf_bytes (c_file c)) = take start (pf_bytes f) \<and>
    (\<forall>tx off sz. Ack tx off sz \<in> set rs \<longrightarrow>
      (\<exists>req\<in>set (concat (map event_reqs es)). wr_tx req = tx \<and> sz = of_nat (length (wr_data req)) \<and>
         start \<le> off \<and> held (c_file c) off req))"
proof -
  have "turn_ok (concat (map event_reqs es)) (committer_start f start) c rs"
    using committer_task_turn [OF assms(1)] assms(2) by (simp add: committer_start_def)
  then show ?thesis
    unfolding turn_ok_def committer_start_def by simp (meson)
qed

definition demo_req :: "nat \<Rightarrow> durability \<Rightarrow> write_req" where
  "demo_req tx d = \<lparr>wr_data = [1, 2], wr_durability = d, wr_tx = tx\<rparr>"

lemmas commit_eval = committer_start_def do_flush_def flush_batch_def batch_durability_def batch_sync_def
  pf_write_def splice_at_def sync_data_def sync_durable_def MAX_BATCH_BYTES_def MAX_BATCH_ENTRIES_def
  demo_req_def max_def less_eq_durability_def Let_def

theorem committer_acks_held_witness:
  "\<exists>c rs. committer_task (committer_start \<lparr>pf_bytes = [9], pf_kernel = [], pf_power = []\<rparr> 1)
      [(Recv_write (demo_req 4 Kernel), Write_ok, True), (Timer, Write_err 1, True),
       (Recv_write (demo_req 5 Power), Write_ok, True), (Timer, Write_ok, True)] = (c, rs) \<and>
     Ack 5 1 2 \<in> set rs \<and> Nack 4 \<in> set rs \<and> take 1 (pf_bytes (c_file c)) = [9]"
proof -
  let ?f = "\<lparr>pf_bytes = [9], pf_kernel = [], pf_power = []\<rparr>"
  let ?es = "[(Recv_write (demo_req 4 Kernel), Write_ok, True), (Timer, Write_err 1, True),
       (Recv_write (demo_req 5 Power), Write_ok, True), (Timer, Write_ok, True)]"
  obtain c rs where r: "committer_task (committer_start ?f 1) ?es = (c, rs)"
    by (cases "committer_task (committer_start ?f 1) ?es")
  moreover have "rs = [Nack 4, Ack 5 1 2]"
    using r by (simp add: commit_eval)
  moreover have "take 1 (pf_bytes (c_file c)) = [9]"
    using committer_acks_held [OF r] by simp
  ultimately show ?thesis by auto
qed

text \<open>
  C21: No waiter is forgotten: when the channel closes after any history, every write request and every
  flush call has been answered exactly once, in the order received, even if all I/O failed.
\<close>

theorem committer_answers_all:
  assumes "committer_task (committer_start f start) (es @ [(Closed, wres, sres)]) = (c, rs)"
    and "\<forall>e\<in>set es. fst e \<noteq> Closed"
  shows "map reply_tx rs = concat (map event_txs es) \<and> \<not> c_running c"
proof -
  obtain d rs1 where d: "committer_task (committer_start f start) es = (d, rs1)"
    by (cases "committer_task (committer_start f start) es")
  have t: "map reply_tx rs1 @ map wr_tx (c_batch d) = concat (map event_txs es) \<and> c_running d"
    using committer_task_txs [OF d _ assms(2)] by (simp add: committer_start_def)
  obtain e rs2 where e: "do_flush wres sres d = (e, rs2)" by (cases "do_flush wres sres d")
  show ?thesis
    using assms(1) t e do_flush_txs [OF e] by (auto simp: committer_task_append d)
qed

theorem committer_answers_all_witness:
  "map reply_tx (snd (committer_task (committer_start \<lparr>pf_bytes = [], pf_kernel = [], pf_power = []\<rparr> 0)
     ([(Recv_write (demo_req 4 Kernel), Write_ok, True), (Recv_flush 6, Write_ok, False),
       (Recv_write (demo_req 5 Power), Write_ok, True)] @ [(Closed, Write_err 0, True)]))) = [4, 6, 5]"
proof -
  let ?f = "\<lparr>pf_bytes = [], pf_kernel = [], pf_power = []\<rparr>"
  let ?es = "[(Recv_write (demo_req 4 Kernel), Write_ok, True), (Recv_flush 6, Write_ok, False),
       (Recv_write (demo_req 5 Power), Write_ok, True)]"
  obtain c rs where r: "committer_task (committer_start ?f 0) (?es @ [(Closed, Write_err 0, True)]) = (c, rs)"
    by (cases "committer_task (committer_start ?f 0) (?es @ [(Closed, Write_err 0, True)])")
  show ?thesis
    unfolding r using committer_answers_all [OF r] by (simp add: demo_req_def)
qed

end
