(* ===== verification/Core_Shared.thy ===== *)
theory Core_Shared
  imports Core_Commit
begin

text \<open>
  The device-global committer (\<open>crates/skeg-core/src/shared_committer.rs\<close>): one task serves the files
  of all shards, groups a batch by file, writes each file's part and issues one sync for the batch. The
  source iterates over a \<open>HashMap\<close> of the batch's files; \<open>order\<close> is the order it happens to use. On the
  platforms this committer is for, \<open>sync_durable\<close> on any file is a barrier for the whole device, while
  \<open>sync_data\<close> concerns the one file it is called on.
\<close>

record file_state =
  fs_file :: pfile
  fs_next_offset :: nat

record batch_entry =
  be_file_id :: u64
  be_data :: bytes
  be_durability :: durability
  be_reply :: nat

record shared =
  sh_state :: "(u64 \<times> file_state) list"
  sh_batch :: "batch_entry list"
  sh_batch_bytes :: nat
  sh_running :: bool

datatype shared_msg =
    Attach u64 pfile nat nat
  | Detach u64
  | Append u64 bytes durability nat
  | Flush nat
  | Deadline
  | Senders_dropped

definition shared_new :: shared where
  "shared_new = \<lparr>sh_state = [], sh_batch = [], sh_batch_bytes = 0, sh_running = True\<rparr>"

fun ack_slots :: "nat \<Rightarrow> batch_entry list \<Rightarrow> reply list \<times> nat" where
  "ack_slots pos [] = ([], pos)"
| "ack_slots pos (e # es) =
     (case ack_slots (pos + length (be_data e)) es of
        (as, end_pos) \<Rightarrow> (Ack (be_reply e) pos (of_nat (length (be_data e))) # as, end_pos))"

text \<open>
  The loop over the files of the batch. It returns the new state, the file the batch's one sync is
  called on, the acknowledgements that wait for it and the errors already sent.
\<close>

fun flush_files ::
  "(u64 \<Rightarrow> write_outcome) \<Rightarrow> batch_entry list \<Rightarrow> u64 list \<Rightarrow> (u64 \<times> file_state) list \<Rightarrow>
   (u64 \<times> file_state) list \<times> u64 option \<times> reply list \<times> reply list" where
  "flush_files wres batch [] st = (st, None, [], [])"
| "flush_files wres batch (fid # fids) st =
    (let items = filter (\<lambda>e. be_file_id e = fid) batch in
     case map_of st fid of
       None \<Rightarrow>
         (case flush_files wres batch fids st of
            (st, target, acks, errs) \<Rightarrow> (st, target, acks, map (\<lambda>e. Nack (be_reply e)) items @ errs))
     | Some fs \<Rightarrow>
         (let (slots, end_pos) = ack_slots (fs_next_offset fs) items;
              combined = concat (map be_data items) in
          case wres fid of
            Write_ok \<Rightarrow>
              (case flush_files wres batch fids
                      (AList.update fid (fs\<lparr>fs_file := pf_write (fs_file fs) (fs_next_offset fs) combined,
                         fs_next_offset := end_pos\<rparr>) st) of
                 (st, target, acks, errs) \<Rightarrow> (st, Some fid, slots @ acks, errs))
          | Write_err n \<Rightarrow>
              (case flush_files wres batch fids
                      (AList.update fid (fs\<lparr>fs_file := pf_write (fs_file fs) (fs_next_offset fs) (take n combined)\<rparr>) st) of
                 (st, target, acks, errs) \<Rightarrow> (st, target, acks, map (\<lambda>e. Nack (be_reply e)) items @ errs))))"

definition on_file :: "(pfile \<Rightarrow> pfile) \<Rightarrow> file_state \<Rightarrow> file_state" where
  "on_file g fs = fs\<lparr>fs_file := g (fs_file fs)\<rparr>"

definition shared_sync ::
  "bool \<Rightarrow> durability \<Rightarrow> u64 option \<Rightarrow> (u64 \<times> file_state) list \<Rightarrow> (u64 \<times> file_state) list \<times> bool" where
  "shared_sync sres dur target st =
    (case (dur, target) of
       (Relaxed, _) \<Rightarrow> (st, True)
     | (_, None) \<Rightarrow> (st, True)
     | (Kernel, Some fid) \<Rightarrow>
         (if sres then (map (\<lambda>(i, fs). (i, if i = fid then on_file sync_data fs else fs)) st, True) else (st, False))
     | (Power, Some fid) \<Rightarrow>
         (if sres then (map (\<lambda>(i, fs). (i, on_file sync_durable fs)) st, True) else (st, False)))"

definition shared_flush_batch ::
  "(u64 list \<Rightarrow> u64 list) \<Rightarrow> (u64 \<Rightarrow> write_outcome) \<Rightarrow> bool \<Rightarrow> shared \<Rightarrow> shared \<times> reply list" where
  "shared_flush_batch order wres sres s =
    (if sh_batch s = [] then (s, [])
     else
       let batch = sh_batch s;
           dur = foldl (\<lambda>d e. max d (be_durability e)) Relaxed batch;
           (st, target, acks, errs) =
             flush_files wres batch (order (remdups (map be_file_id batch))) (sh_state s);
           (st, ok) = shared_sync sres dur target st in
       (s\<lparr>sh_state := st, sh_batch := []\<rparr>,
        errs @ (if ok then acks else map (\<lambda>a. Nack (reply_tx a)) acks)))"

text \<open>One iteration of \<open>committer_loop\<close>; a unit reply is a \<open>Flushed\<close>.\<close>

fun shared_step ::
  "(u64 list \<Rightarrow> u64 list) \<Rightarrow> shared \<Rightarrow> shared_msg \<times> (u64 \<Rightarrow> write_outcome) \<times> bool \<Rightarrow> shared \<times> reply list" where
  "shared_step order s (msg, wres, sres) =
    (if \<not> sh_running s then (s, [])
     else case msg of
       Senders_dropped \<Rightarrow>
         (case shared_flush_batch order wres sres s of (s, rs) \<Rightarrow> (s\<lparr>sh_running := False\<rparr>, rs))
     | Attach fid fl initial_offset tx \<Rightarrow>
         (s\<lparr>sh_state := AList.update fid \<lparr>fs_file = fl, fs_next_offset = initial_offset\<rparr> (sh_state s)\<rparr>, [Flushed tx])
     | Detach fid \<Rightarrow>
         (if list_ex (\<lambda>e. be_file_id e = fid) (sh_batch s) then (s, [])
          else (s\<lparr>sh_state := AList.delete fid (sh_state s)\<rparr>, []))
     | Append fid data dur tx \<Rightarrow>
         (let s = s\<lparr>sh_batch_bytes := sh_batch_bytes s + length data,
                   sh_batch := sh_batch s @ [\<lparr>be_file_id = fid, be_data = data, be_durability = dur, be_reply = tx\<rparr>]\<rparr> in
          if length (sh_batch s) \<ge> MAX_BATCH_ENTRIES \<or> sh_batch_bytes s \<ge> MAX_BATCH_BYTES
          then (case shared_flush_batch order wres sres s of (s, rs) \<Rightarrow> (s\<lparr>sh_batch_bytes := 0\<rparr>, rs))
          else (s, []))
     | Flush tx \<Rightarrow>
         (case shared_flush_batch order wres sres s of (s, rs) \<Rightarrow> (s\<lparr>sh_batch_bytes := 0\<rparr>, rs @ [Flushed tx]))
     | Deadline \<Rightarrow>
         (if sh_batch s \<noteq> []
          then (case shared_flush_batch order wres sres s of (s, rs) \<Rightarrow> (s\<lparr>sh_batch_bytes := 0\<rparr>, rs))
          else (s, [])))"

fun shared_loop ::
  "(u64 list \<Rightarrow> u64 list) \<Rightarrow> shared \<Rightarrow> (shared_msg \<times> (u64 \<Rightarrow> write_outcome) \<times> bool) list \<Rightarrow> shared \<times> reply list" where
  "shared_loop order s [] = (s, [])"
| "shared_loop order s (m # ms) =
     (case shared_step order s m of (s, rs) \<Rightarrow> (case shared_loop order s ms of (s, rs') \<Rightarrow> (s, rs @ rs')))"

subsection \<open>What an acknowledgement of the shared committer is worth\<close>

lemma ack_slots_ack:
  assumes "Ack tx off sz \<in> set (fst (ack_slots pos es))"
  shows "\<exists>pre e post. es = pre @ e # post \<and> be_reply e = tx \<and> sz = of_nat (length (be_data e)) \<and>
    off = pos + length (concat (map be_data pre))"
  using assms
proof (induction es arbitrary: pos)
  case (Cons e es)
  obtain as en where as: "ack_slots (pos + length (be_data e)) es = (as, en)"
    by (cases "ack_slots (pos + length (be_data e)) es")
  show ?case
  proof (cases "Ack tx off sz \<in> set as")
    case True
    then obtain pre f post where "es = pre @ f # post" "be_reply f = tx" "sz = of_nat (length (be_data f))"
      "off = pos + length (be_data e) + length (concat (map be_data pre))"
      using Cons.IH [of "pos + length (be_data e)"] as by auto
    then show ?thesis
      by (intro exI [of _ "e # pre"] exI [of _ f] exI [of _ post]) simp
  next
    case False
    then show ?thesis
      using Cons.prems as by (intro exI [of _ "[]"] exI [of _ e] exI [of _ es]) simp
  qed
qed simp

lemma ack_slots_end: "ack_slots pos es = (as, en) \<Longrightarrow> en = pos + length (concat (map be_data es))"
  by (induction es arbitrary: pos as) (fastforce split: prod.splits)+

text \<open>The entry's bytes are in the readable content of its file.\<close>

definition entry_at :: "(u64 \<times> file_state) list \<Rightarrow> nat \<Rightarrow> batch_entry \<Rightarrow> bool" where
  "entry_at st off e \<longleftrightarrow> (\<exists>fs. map_of st (be_file_id e) = Some fs \<and>
     bslice off (off + length (be_data e)) (pf_bytes (fs_file fs)) = be_data e)"

lemma flush_files_other:
  "flush_files wres batch fids st = (st', tgt, acks, errs) \<Longrightarrow> i \<notin> set fids \<Longrightarrow> map_of st' i = map_of st i"
  by (induction fids arbitrary: st tgt acks errs)
    (auto simp: Let_def amap.lookup_insert split: option.splits prod.splits write_outcome.splits)

lemma flush_files_target:
  "flush_files wres batch fids st = (st', tgt, acks, errs) \<Longrightarrow> acks \<noteq> [] \<Longrightarrow> tgt \<noteq> None"
  by (induction fids arbitrary: st tgt acks errs)
    (auto simp: Let_def split: option.splits prod.splits write_outcome.splits)

lemma flush_files_errs:
  "flush_files wres batch fids st = (st', tgt, acks, errs) \<Longrightarrow> r \<in> set errs \<Longrightarrow> \<exists>tx. r = Nack tx"
  by (induction fids arbitrary: st tgt acks errs)
    (auto simp: Let_def split: option.splits prod.splits write_outcome.splits)

lemma flush_files_acks:
  assumes "flush_files wres batch fids st = (st', tgt, acks, errs)" and "distinct fids"
    and "\<forall>i fs. map_of st i = Some fs \<longrightarrow> fs_next_offset fs \<le> length (pf_bytes (fs_file fs))"
    and "Ack tx off sz \<in> set acks"
  shows "\<exists>e\<in>set batch. be_reply e = tx \<and> sz = of_nat (length (be_data e)) \<and> entry_at st' off e"
  using assms
proof (induction fids arbitrary: st tgt acks errs)
  case (Cons fid fids)
  let ?items = "filter (\<lambda>e. be_file_id e = fid) batch"
  show ?case
  proof (cases "map_of st fid")
    case None
    then show ?thesis
      using Cons.IH [of st] Cons.prems by (auto simp: Let_def split: prod.splits)
  next
    case (Some fs)
    obtain slots en where sl: "ack_slots (fs_next_offset fs) ?items = (slots, en)"
      by (cases "ack_slots (fs_next_offset fs) ?items")
    have len: "fs_next_offset fs \<le> length (pf_bytes (fs_file fs))"
      using Cons.prems(3) Some by simp
    have keep: "\<forall>i fs'. map_of (AList.update fid (fs\<lparr>fs_file := pf_write (fs_file fs) (fs_next_offset fs) d, fs_next_offset := o'\<rparr>) st) i = Some fs' \<longrightarrow>
      fs_next_offset fs' \<le> length (pf_bytes (fs_file fs'))" if "o' \<le> fs_next_offset fs + length d" for d o'
      using that Cons.prems(3) length_splice_ge [OF len, of d]
      by (auto simp: amap.lookup_insert pf_write_def)
    show ?thesis
    proof (cases "wres fid")
      case (Write_err n)
      let ?st = "AList.update fid (fs\<lparr>fs_file := pf_write (fs_file fs) (fs_next_offset fs) (take n (concat (map be_data ?items)))\<rparr>) st"
      obtain t as es where r: "flush_files wres batch fids ?st = (st', t, as, es)" "acks = as"
        using Cons.prems(1) Some sl Write_err by (auto simp: Let_def split: prod.splits)
      have "\<forall>i fs'. map_of ?st i = Some fs' \<longrightarrow> fs_next_offset fs' \<le> length (pf_bytes (fs_file fs'))"
        using keep [of "fs_next_offset fs" "take n (concat (map be_data ?items))"] by simp
      then show ?thesis
        using Cons.IH [OF r(1)] Cons.prems(2,4) r(2) by simp
    next
      case Write_ok
      let ?st = "AList.update fid (fs\<lparr>fs_file := pf_write (fs_file fs) (fs_next_offset fs) (concat (map be_data ?items)),
         fs_next_offset := en\<rparr>) st"
      obtain t as es where r: "flush_files wres batch fids ?st = (st', t, as, es)" "acks = slots @ as"
        using Cons.prems(1) Some sl Write_ok by (auto simp: Let_def split: prod.splits)
      have en: "en = fs_next_offset fs + length (concat (map be_data ?items))"
        using sl by (rule ack_slots_end)
      show ?thesis
      proof (cases "Ack tx off sz \<in> set slots")
        case True
        then obtain pre e post where e: "?items = pre @ e # post" "be_reply e = tx" "sz = of_nat (length (be_data e))"
          "off = fs_next_offset fs + length (concat (map be_data pre))"
          using ack_slots_ack [of tx off sz "fs_next_offset fs" ?items] sl by auto
        have m: "e \<in> set batch" "be_file_id e = fid"
          using arg_cong [OF e(1), of set] by auto
        have "bslice off (off + length (be_data e)) (splice_at (fs_next_offset fs) (concat (map be_data ?items)) (pf_bytes (fs_file fs))) = be_data e"
          using len by (simp add: e(1,4) bslice_def splice_at_def)
        moreover have "map_of st' fid = map_of ?st fid"
          by (rule flush_files_other [OF r(1)]) (use Cons.prems(2) in simp)
        ultimately have "entry_at st' off e"
          using m(2) by (simp add: entry_at_def amap.lookup_insert pf_write_def)
        then show ?thesis
          using m(1) e(2,3) by blast
      next
        case False
        then show ?thesis
          using Cons.IH [OF r(1)] Cons.prems(2,4) r(2) keep [of en "concat (map be_data ?items)"] en by simp
      qed
    qed
  qed
qed simp


lemmas shared_eval = shared_new_def shared_flush_batch_def shared_sync_def on_file_def commit_eval

definition two_files :: shared where
  "two_files = \<lparr>sh_state = [(1, \<lparr>fs_file = \<lparr>pf_bytes = [], pf_kernel = [], pf_power = []\<rparr>, fs_next_offset = 0\<rparr>),
      (2, \<lparr>fs_file = \<lparr>pf_bytes = [], pf_kernel = [], pf_power = []\<rparr>, fs_next_offset = 0\<rparr>)],
    sh_batch = [\<lparr>be_file_id = 1, be_data = [7], be_durability = Relaxed, be_reply = 12\<rparr>,
      \<lparr>be_file_id = 2, be_data = [8], be_durability = Power, be_reply = 13\<rparr>],
    sh_batch_bytes = 2, sh_running = True\<rparr>"


text \<open>
  C35: A kernel-durable acknowledgement of the shared committer can be empty: when two shards' files
  each get a \<open>Kernel\<close> write in one batch, both are acknowledged but \<open>sync_data\<close> is called on one file
  only, so the other file's acknowledged bytes are not in the copy that survives a kernel panic.
\<close>

theorem shared_kernel_ack_unsynced:
  assumes "set (order [1, 2]) = {1, 2}" and "distinct (order [1, 2])"
  shows "\<exists>s rs fs. shared_loop order shared_new
      [(Attach 1 \<lparr>pf_bytes = [], pf_kernel = [], pf_power = []\<rparr> 0 10, wres, True),
       (Attach 2 \<lparr>pf_bytes = [], pf_kernel = [], pf_power = []\<rparr> 0 11, wres, True),
       (Append 1 [x] Kernel 12, wres, True), (Append 2 [y] Kernel 13, wres, True),
       (Deadline, \<lambda>_. Write_ok, True)] = (s, rs) \<and>
     {Ack 12 0 1, Ack 13 0 1} \<subseteq> set rs \<and>
     fs \<in> snd ` set (sh_state s) \<and> pf_bytes (fs_file fs) \<noteq> [] \<and> pf_kernel (fs_file fs) = []"
proof -
  have "order [1, 2] = [1, 2] \<or> order [1, 2] = [2, 1]"
  proof -
    have "length (order [1, 2]) = 2"
      using distinct_card [OF assms(2)] assms(1) by simp
    then obtain a b where "order [1, 2] = [a, b]"
      by (auto simp: numeral_2_eq_2 length_Suc_conv)
    then show ?thesis
      using assms by (auto simp: doubleton_eq_iff)
  qed
  then show ?thesis
    by (elim disjE) (simp_all add: shared_eval)
qed

theorem shared_kernel_ack_unsynced_witness:
  "\<exists>s rs fs. shared_loop (\<lambda>x. x) shared_new
      [(Attach 1 \<lparr>pf_bytes = [], pf_kernel = [], pf_power = []\<rparr> 0 10, \<lambda>_. Write_ok, True),
       (Attach 2 \<lparr>pf_bytes = [], pf_kernel = [], pf_power = []\<rparr> 0 11, \<lambda>_. Write_ok, True),
       (Append 1 [7] Kernel 12, \<lambda>_. Write_ok, True), (Append 2 [8] Kernel 13, \<lambda>_. Write_ok, True),
       (Deadline, \<lambda>_. Write_ok, True)] = (s, rs) \<and>
     {Ack 12 0 1, Ack 13 0 1} \<subseteq> set rs \<and>
     fs \<in> snd ` set (sh_state s) \<and> pf_bytes (fs_file fs) \<noteq> [] \<and> pf_kernel (fs_file fs) = []"
  by (rule shared_kernel_ack_unsynced) auto

end
