(* ===== verification/Core_VLog.thy ===== *)
theory Core_VLog
  imports Core_Segment Core_Index Core_Cache Core_Commit
begin

text \<open>
  The value log (\<open>crates/skeg-core/src/vlog.rs\<close>): an append-only log of segments with an index, a
  hot-key cache, per-tenant disk accounting, recovery and compaction. The store is used by one thread;
  each operation is modelled from its call to its return, with no other operation interleaved at its
  await points, and its disk writes succeed (failed writes are the subject of \<open>Core_Commit\<close>). Byte
  counts are naturals; timestamps, segment ids and the fields of an index entry keep their width. An
  operation is \<open>None\<close> when it does not return: the cache insertion it makes does not (see
  \<open>insert_spins\<close>) or it panics. The CRC and the hash are the parameters \<open>crc\<close> and \<open>xxh3\<close>.
\<close>

subsection \<open>State\<close>

definition CACHE_BUDGET_BYTES :: u64 where
  "CACHE_BUDGET_BYTES = 32 * 1024 * 1024"

record read_segment =
  rs_id :: u16
  rs_file :: pfile
  rs_live :: nat

record active_state =
  act_id :: u16
  act_size :: nat
  act_tail :: nat

record vlog =
  max_seg_size :: nat
  read_segments :: "read_segment list"
  vl_index :: index
  vl_cache :: "bytes s3fifo"
  tenant_disk :: "(u128 \<times> nat) list"
  active :: active_state
  clock :: u64
  vl_snap :: snap_dir

text \<open>A store directory: its files by name and the snapshot files.\<close>

record store_dir =
  sd_files :: "(string \<times> pfile) list"
  sd_snap :: snap_dir

text \<open>The result of an operation that returns: a value or an error, and the state it leaves.\<close>

type_synonym 'a vres = "((error + 'a) \<times> vlog) option"

definition tenant_from_key :: "bytes \<Rightarrow> u128" where
  "tenant_from_key key = (if length key \<ge> 16 then u128_from_le (bslice 0 16 key) else 0)"

definition disk_get :: "(u128 \<times> nat) list \<Rightarrow> u128 \<Rightarrow> nat" where
  "disk_get disk t = (case map_of disk t of None \<Rightarrow> 0 | Some n \<Rightarrow> n)"

definition disk_add :: "(u128 \<times> nat) list \<Rightarrow> u128 \<Rightarrow> nat \<Rightarrow> (u128 \<times> nat) list" where
  "disk_add disk t n = AList.update t (disk_get disk t + n) disk"

definition recover_tenant_disk :: "index \<Rightarrow> (u128 \<times> nat) list \<Rightarrow> (u128 \<times> nat) list" where
  "recover_tenant_disk idx disk =
    foldl (\<lambda>d (key, e). disk_add d (tenant_from_key key) (unat (entry_size e))) disk (index_iter idx)"

subsection \<open>Batch gate\<close>

record batch_gate =
  bg_expect :: "nat option"
  bg_pending :: "(nat \<times> log_record) list"

definition gate_new :: batch_gate where
  "gate_new = \<lparr>bg_expect = None, bg_pending = []\<rparr>"

text \<open>\<open>feed\<close> returns the records it passes to \<open>apply\<close>.\<close>

definition gate_feed :: "batch_gate \<Rightarrow> nat \<Rightarrow> log_record \<Rightarrow> batch_gate \<times> (nat \<times> log_record) list" where
  "gate_feed g off rec =
    (if rec_kind rec = BatchBegin
     then let n = (if length (rec_value rec) \<ge> 4 then unat (u32_from_le (bslice 0 4 (rec_value rec))) else 0) in
       (\<lparr>bg_expect = (if n > 0 then Some n else None), bg_pending = []\<rparr>, [])
     else (case bg_expect g of
       Some n \<Rightarrow>
         (let pending = bg_pending g @ [(off, rec)] in
          if length pending = n then (\<lparr>bg_expect = None, bg_pending = []\<rparr>, pending)
          else (g\<lparr>bg_pending := pending\<rparr>, []))
     | None \<Rightarrow> (g, [(off, rec)])))"

fun gate_run :: "batch_gate \<Rightarrow> (nat \<times> log_record) list \<Rightarrow> batch_gate \<times> (nat \<times> log_record) list" where
  "gate_run g [] = (g, [])"
| "gate_run g ((off, r) # rs) =
     (case gate_feed g off r of (g, as) \<Rightarrow> (case gate_run g rs of (g, bs) \<Rightarrow> (g, as @ bs)))"

subsection \<open>Opening a store\<close>

definition index_entry_for :: "(bytes \<Rightarrow> u64) \<Rightarrow> u16 \<Rightarrow> nat \<Rightarrow> log_record \<Rightarrow> index_entry" where
  "index_entry_for xxh3 sid off r =
    \<lparr>fingerprint = fingerprint_of xxh3 (rec_key r), segment_id = sid, entry_pad = 0,
     entry_offset = of_nat off,
     entry_size = of_nat (padded_record_size (length (rec_key r)) (length (rec_value r)))\<rparr>"

text \<open>The closure of the snapshot path: last record wins.\<close>

definition apply_last :: "(bytes \<Rightarrow> u64) \<Rightarrow> u16 \<Rightarrow> index \<Rightarrow> nat \<times> log_record \<Rightarrow> index" where
  "apply_last xxh3 sid idx x =
    (case x of (off, r) \<Rightarrow>
       if rec_kind r = Tombstone then fst (index_remove idx (rec_key r))
       else index_set idx (rec_key r) (index_entry_for xxh3 sid off r))"

text \<open>The closure of the full scan: the highest timestamp wins, the first record among equals.\<close>

type_synonym winners = "(bytes \<times> u64 \<times> record_kind \<times> index_entry) list"

definition apply_newest :: "(bytes \<Rightarrow> u64) \<Rightarrow> u16 \<Rightarrow> winners \<Rightarrow> nat \<times> log_record \<Rightarrow> winners" where
  "apply_newest xxh3 sid ws x =
    (case x of (off, r) \<Rightarrow>
       if (case map_of ws (rec_key r) of None \<Rightarrow> True | Some (wts, _, _) \<Rightarrow> rec_ts r > wts)
       then AList.update (rec_key r) (rec_ts r, rec_kind r, index_entry_for xxh3 sid off r) ws
       else ws)"

definition scan_max_ts :: "u64 \<Rightarrow> (nat \<times> log_record) list \<Rightarrow> u64" where
  "scan_max_ts m recs = foldl (\<lambda>m (off, r). max m (rec_ts r)) m recs"

text \<open>
  One segment of either recovery loop: scan, feed the gate, apply, and on the last segment cut the torn
  tail and preallocate again.
\<close>

definition recover_segment ::
  "(bytes \<Rightarrow> u32) \<Rightarrow> (u16 \<Rightarrow> 'w \<Rightarrow> nat \<times> log_record \<Rightarrow> 'w) \<Rightarrow> nat \<Rightarrow> u16 option \<Rightarrow> read_segment \<Rightarrow>
   'w \<times> u64 \<times> nat option \<Rightarrow> read_segment \<times> 'w \<times> u64 \<times> nat option" where
  "recover_segment crc app max_size last_id seg acc =
    (case acc of (w, max_ts, used) \<Rightarrow>
     case scan_file crc (pf_bytes (rs_file seg)) of (recs, last_valid) \<Rightarrow>
       let w = foldl (app (rs_id seg)) w (snd (gate_run gate_new recs));
           max_ts = scan_max_ts max_ts recs in
       if Some (rs_id seg) = last_id
       then (seg\<lparr>rs_file := pf_preallocate (pf_truncate (rs_file seg) last_valid) max_size\<rparr>,
             w, max_ts, Some last_valid)
       else (seg, w, max_ts, used))"

fun recover_segments ::
  "(bytes \<Rightarrow> u32) \<Rightarrow> (u16 \<Rightarrow> 'w \<Rightarrow> nat \<times> log_record \<Rightarrow> 'w) \<Rightarrow> nat \<Rightarrow> u16 option \<Rightarrow> (u16 \<Rightarrow> bool) \<Rightarrow>
   read_segment list \<Rightarrow> 'w \<times> u64 \<times> nat option \<Rightarrow> read_segment list \<times> 'w \<times> u64 \<times> nat option" where
  "recover_segments crc app max_size last_id skip [] acc = ([], acc)"
| "recover_segments crc app max_size last_id skip (seg # segs) acc =
    (if skip (rs_id seg)
     then (case recover_segments crc app max_size last_id skip segs acc of (ss, acc) \<Rightarrow> (seg # ss, acc))
     else (case recover_segment crc app max_size last_id seg acc of (s, acc) \<Rightarrow>
           (case recover_segments crc app max_size last_id skip segs acc of (ss, acc) \<Rightarrow> (s # ss, acc))))"

definition index_of_winners :: "winners \<Rightarrow> index" where
  "index_of_winners ws =
    foldl (\<lambda>idx (key, ts, kind, e). if kind \<noteq> Tombstone then index_set idx key e else idx) index_new ws"

text \<open>The per-segment live counters, from the final index.\<close>

definition seed_live :: "index \<Rightarrow> read_segment list \<Rightarrow> read_segment list" where
  "seed_live idx segs =
    map (\<lambda>s. s\<lparr>rs_live := rs_live s +
           sum_list (map (\<lambda>(k, e). if segment_id e = rs_id s then unat (entry_size e) else 0) (index_iter idx))\<rparr>) segs"

definition open_segments :: "store_dir \<Rightarrow> u16 list \<Rightarrow> error + read_segment list" where
  "open_segments dir ids =
    (if list_all (\<lambda>i. map_of (sd_files dir) (segment_name i) \<noteq> None) ids
     then Inr (map (\<lambda>i. \<lparr>rs_id = i, rs_file = the (map_of (sd_files dir) (segment_name i)), rs_live = 0\<rparr>) ids)
     else Inl Io)"

definition recover_index ::
  "(bytes \<Rightarrow> u32) \<Rightarrow> (bytes \<Rightarrow> u64) \<Rightarrow> nat \<Rightarrow> u16 list \<Rightarrow> snapshot option \<Rightarrow> read_segment list \<Rightarrow>
   read_segment list \<times> index \<times> u64 \<times> nat option" where
  "recover_index crc xxh3 max_size ids snap segs =
    (let last_id = (if ids = [] then None else Some (last ids)) in
     case snap of
       Some s \<Rightarrow>
         recover_segments crc (apply_last xxh3) max_size last_id (\<lambda>i. i < snap_hwm s) segs
           (foldl (\<lambda>idx (key, e). index_set idx key e) index_new (snap_entries s), snap_max_ts s, None)
     | None \<Rightarrow>
         (case recover_segments crc (apply_newest xxh3) max_size last_id (\<lambda>_. False) segs ([], 0, None) of
            (segs, ws, max_ts, used) \<Rightarrow> (segs, index_of_winners ws, max_ts, used)))"

definition usable_snapshot :: "(bytes \<Rightarrow> u32) \<Rightarrow> snap_dir \<Rightarrow> u16 list \<Rightarrow> snapshot option" where
  "usable_snapshot crc sd ids =
    (case snap_read crc sd of
       None \<Rightarrow> None
     | Some s \<Rightarrow> if list_all (\<lambda>(k, e). segment_id e \<in> set ids) (snap_entries s) then Some s else None)"

definition open_shared ::
  "(bytes \<Rightarrow> u32) \<Rightarrow> (bytes \<Rightarrow> u64) \<Rightarrow> store_dir \<Rightarrow> nat \<Rightarrow> (u128 \<times> nat) list \<Rightarrow> error + vlog" where
  "open_shared crc xxh3 dir max_size disk =
    (let seg_ids = list_segments (map fst (sd_files dir)) in
     and_then (open_segments dir seg_ids) (\<lambda>segs.
     case recover_index crc xxh3 max_size seg_ids (usable_snapshot crc (sd_snap dir) seg_ids) segs of
       (segs, idx, max_ts, used) \<Rightarrow>
         let segs = seed_live idx segs;
             (segs, a) =
               (if segs \<noteq> []
                then (let seg = last segs;
                          size = (case used of Some u \<Rightarrow> u | None \<Rightarrow> pf_size (rs_file seg)) in
                      (segs, \<lparr>act_id = rs_id seg, act_size = size, act_tail = size\<rparr>))
                else ([\<lparr>rs_id = 0, rs_file = pf_preallocate pf_create max_size, rs_live = 0\<rparr>],
                      \<lparr>act_id = 0, act_size = 0, act_tail = 0\<rparr>)) in
         Inr \<lparr>max_seg_size = max_size, read_segments = segs, vl_index = idx,
              vl_cache = the (cache_new CACHE_BUDGET_BYTES),
              tenant_disk = recover_tenant_disk idx disk, active = a,
              clock = max_ts + 1, vl_snap = sd_snap dir\<rparr>))"

definition vlog_open :: "(bytes \<Rightarrow> u32) \<Rightarrow> (bytes \<Rightarrow> u64) \<Rightarrow> store_dir \<Rightarrow> error + vlog" where
  "vlog_open crc xxh3 dir = open_shared crc xxh3 dir MAX_SEGMENT_SIZE []"

subsection \<open>Internals\<close>

definition next_ts :: "vlog \<Rightarrow> u64 \<times> vlog" where
  "next_ts v = (clock v, v\<lparr>clock := clock v + 1\<rparr>)"

definition find_segment :: "vlog \<Rightarrow> u16 \<Rightarrow> read_segment option" where
  "find_segment v sid = List.find (\<lambda>s. rs_id s = sid) (read_segments v)"

definition segment_file :: "vlog \<Rightarrow> u16 \<Rightarrow> pfile option" where
  "segment_file v sid = map_option rs_file (find_segment v sid)"

definition on_segment :: "u16 \<Rightarrow> (read_segment \<Rightarrow> read_segment) \<Rightarrow> vlog \<Rightarrow> vlog" where
  "on_segment sid g v = v\<lparr>read_segments := map (\<lambda>s. if rs_id s = sid then g s else s) (read_segments v)\<rparr>"

definition inc_live :: "vlog \<Rightarrow> u16 \<Rightarrow> u32 \<Rightarrow> vlog" where
  "inc_live v sid n = on_segment sid (\<lambda>s. s\<lparr>rs_live := rs_live s + unat n\<rparr>) v"

definition dec_live :: "vlog \<Rightarrow> u16 \<Rightarrow> u32 \<Rightarrow> vlog" where
  "dec_live v sid n = on_segment sid (\<lambda>s. s\<lparr>rs_live := rs_live s - unat n\<rparr>) v"

definition needs_rotation :: "vlog \<Rightarrow> nat \<Rightarrow> bool" where
  "needs_rotation v incoming \<longleftrightarrow> act_size (active v) + incoming > max_seg_size v"

definition maybe_rotate :: "vlog \<Rightarrow> nat \<Rightarrow> error + vlog" where
  "maybe_rotate v incoming =
    (if \<not> needs_rotation v incoming then Inr v
     else let old_id = act_id (active v) in
       if old_id = - 1 then Inl (InvalidRecord ''segment id overflow'')
       else if find_segment v (old_id + 1) \<noteq> None then Inl Io
       else Inr (v\<lparr>read_segments := read_segments v @
                    [\<lparr>rs_id = old_id + 1, rs_file = pf_preallocate pf_create (max_seg_size v), rs_live = 0\<rparr>],
                  active := \<lparr>act_id = old_id + 1, act_size = 0, act_tail = 0\<rparr>\<rparr>))"

text \<open>A single request through the committer of the active segment; \<open>act_size\<close> is reserved first.\<close>

definition commit_append :: "vlog \<Rightarrow> bytes \<Rightarrow> durability \<Rightarrow> vlog \<times> nat \<times> u32" where
  "commit_append v data dur =
    (let a = active v;
         req = \<lparr>wr_data = data, wr_durability = dur, wr_tx = 0\<rparr>;
         put = (\<lambda>s. s\<lparr>rs_file := fst (flush_batch Write_ok True (rs_file s) [req] (act_tail a))\<rparr>);
         v = on_segment (act_id a) put v in
     (v\<lparr>active := a\<lparr>act_size := act_size a + length data, act_tail := act_tail a + length data\<rparr>\<rparr>,
      act_tail a, of_nat (length data)))"

definition append_raw ::
  "(bytes \<Rightarrow> u32) \<Rightarrow> vlog \<Rightarrow> bytes \<Rightarrow> bytes \<Rightarrow> record_kind \<Rightarrow> u64 \<Rightarrow> durability \<Rightarrow> (error + u16 \<times> u32 \<times> u32) \<times> vlog" where
  "append_raw crc v key val kind ts dur =
    (let incoming = padded_record_size (length key) (length val) in
     case maybe_rotate v incoming of
       Inl e \<Rightarrow> (Inl e, v)
     | Inr v \<Rightarrow>
         (let sid = act_id (active v) in
          case commit_append v (encode_record crc key val kind ts) dur of
            (v, off, padded) \<Rightarrow> (Inr (sid, of_nat off, padded), v)))"

subsection \<open>Reads\<close>

definition tenant_disk_bytes :: "vlog \<Rightarrow> u128 \<Rightarrow> nat" where
  "tenant_disk_bytes v t = disk_get (tenant_disk v) t"

definition get_scoped ::
  "(bytes \<Rightarrow> u32) \<Rightarrow> (bytes \<Rightarrow> u64) \<Rightarrow> vlog \<Rightarrow> bytes \<Rightarrow> u128 \<Rightarrow> bytes option vres" where
  "get_scoped crc xxh3 v key tenant =
    (case cache_get (vl_cache v) key of
       (Some val, c) \<Rightarrow> Some (Inr (Some val), v\<lparr>vl_cache := c\<rparr>)
     | (None, c) \<Rightarrow>
         (let v = v\<lparr>vl_cache := c\<rparr> in
          case index_get (vl_index v) key of
            None \<Rightarrow> Some (Inr None, v)
          | Some e \<Rightarrow>
              (case segment_file v (segment_id e) of
                 None \<Rightarrow> Some (Inl (InvalidRecord ''index references missing segment''), v)
               | Some fl \<Rightarrow>
                   (case decode_record crc (pread (pf_bytes fl) (unat (entry_offset e)) (unat (entry_size e))) of
                      Inl err \<Rightarrow> Some (Inl err, v)
                    | Inr rec \<Rightarrow>
                        (case insert_for xxh3 (vl_cache v) key (rec_value rec) (of_nat (length (rec_value rec))) tenant of
                           None \<Rightarrow> None
                         | Some c \<Rightarrow> Some (Inr (Some (rec_value rec)), v\<lparr>vl_cache := c\<rparr>))))))"

definition vlog_get :: "(bytes \<Rightarrow> u32) \<Rightarrow> (bytes \<Rightarrow> u64) \<Rightarrow> vlog \<Rightarrow> bytes \<Rightarrow> bytes option vres" where
  "vlog_get crc xxh3 v key = get_scoped crc xxh3 v key 0"

fun mget_scoped ::
  "(bytes \<Rightarrow> u32) \<Rightarrow> (bytes \<Rightarrow> u64) \<Rightarrow> vlog \<Rightarrow> bytes list \<Rightarrow> u128 \<Rightarrow> bytes option list vres" where
  "mget_scoped crc xxh3 v [] tenant = Some (Inr [], v)"
| "mget_scoped crc xxh3 v (k # ks) tenant =
    (case get_scoped crc xxh3 v k tenant of
       None \<Rightarrow> None
     | Some (Inl e, v) \<Rightarrow> Some (Inl e, v)
     | Some (Inr r, v) \<Rightarrow>
         (case mget_scoped crc xxh3 v ks tenant of
            None \<Rightarrow> None
          | Some (Inl e, v) \<Rightarrow> Some (Inl e, v)
          | Some (Inr rs, v) \<Rightarrow> Some (Inr (r # rs), v)))"

definition vlog_mget :: "(bytes \<Rightarrow> u32) \<Rightarrow> (bytes \<Rightarrow> u64) \<Rightarrow> vlog \<Rightarrow> bytes list \<Rightarrow> bytes option list vres" where
  "vlog_mget crc xxh3 v keys = mget_scoped crc xxh3 v keys 0"

subsection \<open>Writes\<close>

definition set_scoped ::
  "(bytes \<Rightarrow> u32) \<Rightarrow> (bytes \<Rightarrow> u64) \<Rightarrow> vlog \<Rightarrow> bytes \<Rightarrow> bytes \<Rightarrow> durability \<Rightarrow> u128 \<Rightarrow> nat option \<Rightarrow> unit vres" where
  "set_scoped crc xxh3 v key val dur tenant disk_limit =
    (let prev = index_get (vl_index v) key;
         old_disk = (case prev of None \<Rightarrow> 0 | Some p \<Rightarrow> unat (entry_size p));
         dtenant = tenant_from_key key;
         new_disk = padded_record_size (length key) (length val) in
     if (case disk_limit of None \<Rightarrow> False | Some limit \<Rightarrow> tenant_disk_bytes v dtenant - old_disk + new_disk > limit)
     then Some (Inl DiskQuota, v)
     else
       case next_ts v of (ts, v) \<Rightarrow>
       case append_raw crc v key val Scalar ts dur of
         (Inl e, v) \<Rightarrow> Some (Inl e, v)
       | (Inr (sid, offset, padded), v) \<Rightarrow>
           (let v = (case prev of None \<Rightarrow> v | Some p \<Rightarrow> dec_live v (segment_id p) (entry_size p));
                v = inc_live v sid padded;
                entry = \<lparr>fingerprint = fingerprint_of xxh3 key, segment_id = sid, entry_pad = 0,
                         entry_offset = offset, entry_size = padded\<rparr>;
                v = v\<lparr>vl_index := index_set (vl_index v) key entry\<rparr> in
            case insert_for xxh3 (vl_cache v) key val (of_nat (length val)) tenant of
              None \<Rightarrow> None
            | Some c \<Rightarrow>
                Some (Inr (), v\<lparr>vl_cache := c,
                  tenant_disk := AList.update dtenant (disk_get (tenant_disk v) dtenant - old_disk + unat padded)
                                   (tenant_disk v)\<rparr>)))"

definition vlog_set ::
  "(bytes \<Rightarrow> u32) \<Rightarrow> (bytes \<Rightarrow> u64) \<Rightarrow> vlog \<Rightarrow> bytes \<Rightarrow> bytes \<Rightarrow> durability \<Rightarrow> unit vres" where
  "vlog_set crc xxh3 v key val dur = set_scoped crc xxh3 v key val dur 0 None"

definition append_scoped ::
  "(bytes \<Rightarrow> u32) \<Rightarrow> (bytes \<Rightarrow> u64) \<Rightarrow> vlog \<Rightarrow> bytes \<Rightarrow> bytes \<Rightarrow> durability \<Rightarrow> u128 \<Rightarrow> nat option \<Rightarrow> nat vres" where
  "append_scoped crc xxh3 v key val dur tenant disk_limit =
    (case get_scoped crc xxh3 v key tenant of
       None \<Rightarrow> None
     | Some (Inl e, v) \<Rightarrow> Some (Inl e, v)
     | Some (Inr current, v) \<Rightarrow>
         (let combined = (case current of Some cur \<Rightarrow> cur @ val | None \<Rightarrow> val) in
          case set_scoped crc xxh3 v key combined dur tenant disk_limit of
            None \<Rightarrow> None
          | Some (Inl e, v) \<Rightarrow> Some (Inl e, v)
          | Some (Inr _, v) \<Rightarrow> Some (Inr (length combined), v)))"

definition vlog_append ::
  "(bytes \<Rightarrow> u32) \<Rightarrow> (bytes \<Rightarrow> u64) \<Rightarrow> vlog \<Rightarrow> bytes \<Rightarrow> bytes \<Rightarrow> durability \<Rightarrow> nat vres" where
  "vlog_append crc xxh3 v key val dur = append_scoped crc xxh3 v key val dur 0 None"

definition vlog_del ::
  "(bytes \<Rightarrow> u32) \<Rightarrow> vlog \<Rightarrow> bytes \<Rightarrow> durability \<Rightarrow> (error + bool) \<times> vlog" where
  "vlog_del crc v key dur =
    (case index_get (vl_index v) key of
       None \<Rightarrow> (Inr False, v)
     | Some prev \<Rightarrow>
         (case next_ts v of (ts, v) \<Rightarrow>
          case append_raw crc v key [] Tombstone ts dur of
            (Inl e, v) \<Rightarrow> (Inl e, v)
          | (Inr _, v) \<Rightarrow>
              (let v = dec_live v (segment_id prev) (entry_size prev);
                   v = v\<lparr>vl_index := fst (index_remove (vl_index v) key), vl_cache := fst (cache_remove (vl_cache v) key)\<rparr>;
                   dtenant = tenant_from_key key;
                   disk = (case map_of (tenant_disk v) dtenant of
                             None \<Rightarrow> tenant_disk v
                           | Some n \<Rightarrow>
                               let n = n - unat (entry_size prev) in
                               if n = 0 then AList.delete dtenant (tenant_disk v)
                               else AList.update dtenant n (tenant_disk v)) in
               (Inr True, v\<lparr>tenant_disk := disk\<rparr>))))"

subsection \<open>Atomic batches\<close>

text \<open>The loop that encodes the members: the blob and, for each member, its offset in it and its size.\<close>

fun encode_members ::
  "(bytes \<Rightarrow> u32) \<Rightarrow> vlog \<Rightarrow> bytes \<Rightarrow> (bytes \<times> bytes) list \<Rightarrow> (bytes \<times> (nat \<times> u32) list) vres" where
  "encode_members crc v blob [] = Some (Inr (blob, []), v)"
| "encode_members crc v blob ((key, val) # pairs) =
    (if length blob \<ge> 2 ^ 32 then Some (Inl (InvalidRecord ''batch too large''), v)
     else case next_ts v of (ts, v) \<Rightarrow>
       let rec = encode_record crc key val Scalar ts in
       if length rec \<ge> 2 ^ 32 then None
       else (case encode_members crc v (blob @ rec) pairs of
         None \<Rightarrow> None
       | Some (Inl e, v) \<Rightarrow> Some (Inl e, v)
       | Some (Inr (b, rels), v) \<Rightarrow> Some (Inr (b, (length blob, of_nat (length rec)) # rels), v)))"

text \<open>The loop that applies one durable member to the index, the cache and the accounting.\<close>

definition apply_member ::
  "(bytes \<Rightarrow> u64) \<Rightarrow> u16 \<Rightarrow> nat \<Rightarrow> vlog \<Rightarrow> (bytes \<times> bytes) \<times> nat \<times> u32 \<Rightarrow> vlog option" where
  "apply_member xxh3 sid start v m =
    (case m of ((key, val), rel, padded) \<Rightarrow>
       let offset = start + rel;
           v = (case index_get (vl_index v) key of
                  None \<Rightarrow> v
                | Some prev \<Rightarrow>
                    (let v = dec_live v (segment_id prev) (entry_size prev);
                         dtenant = tenant_from_key key in
                     case map_of (tenant_disk v) dtenant of
                       None \<Rightarrow> v
                     | Some n \<Rightarrow> v\<lparr>tenant_disk := AList.update dtenant (n - unat (entry_size prev)) (tenant_disk v)\<rparr>));
           v = inc_live v sid padded in
       if offset \<ge> 2 ^ 32 then None
       else
         (let v = v\<lparr>vl_index := index_set (vl_index v) key
                      \<lparr>fingerprint = fingerprint_of xxh3 key, segment_id = sid, entry_pad = 0,
                       entry_offset = of_nat offset, entry_size = padded\<rparr>\<rparr> in
          case insert_for xxh3 (vl_cache v) key val (of_nat (length val)) (tenant_from_key key) of
            None \<Rightarrow> None
          | Some c \<Rightarrow>
              Some (v\<lparr>vl_cache := c, tenant_disk := disk_add (tenant_disk v) (tenant_from_key key) (unat padded)\<rparr>)))"

fun apply_members ::
  "(bytes \<Rightarrow> u64) \<Rightarrow> u16 \<Rightarrow> nat \<Rightarrow> vlog \<Rightarrow> ((bytes \<times> bytes) \<times> nat \<times> u32) list \<Rightarrow> vlog option" where
  "apply_members xxh3 sid start v [] = Some v"
| "apply_members xxh3 sid start v (m # ms) =
    (case apply_member xxh3 sid start v m of None \<Rightarrow> None | Some v \<Rightarrow> apply_members xxh3 sid start v ms)"

definition set_many ::
  "(bytes \<Rightarrow> u32) \<Rightarrow> (bytes \<Rightarrow> u64) \<Rightarrow> vlog \<Rightarrow> (bytes \<times> bytes) list \<Rightarrow> durability \<Rightarrow> unit vres" where
  "set_many crc xxh3 v pairs dur =
    (if pairs = [] then Some (Inr (), v)
     else if length pairs \<ge> 2 ^ 32 then Some (Inl (InvalidRecord ''batch too large''), v)
     else case next_ts v of (ts, v) \<Rightarrow>
       let header = encode_record crc [] (u32_to_le (of_nat (length pairs))) BatchBegin ts in
       case encode_members crc v header pairs of
         None \<Rightarrow> None
       | Some (Inl e, v) \<Rightarrow> Some (Inl e, v)
       | Some (Inr (blob, member_rel), v) \<Rightarrow>
           if length blob > max_seg_size v then Some (Inl (InvalidRecord ''batch exceeds one segment''), v)
           else (case maybe_rotate v (length blob) of
             Inl e \<Rightarrow> Some (Inl e, v)
           | Inr v \<Rightarrow>
               (let sid = act_id (active v) in
                case commit_append v blob dur of
                  (v, start, padded_total) \<Rightarrow>
                    (case apply_members xxh3 sid start v (zip pairs member_rel) of
                       None \<Rightarrow> None
                     | Some v \<Rightarrow> Some (Inr (), v)))))"

subsection \<open>Snapshot and statistics\<close>

definition write_snapshot :: "(bytes \<Rightarrow> u32) \<Rightarrow> vlog \<Rightarrow> vlog" where
  "write_snapshot crc v =
    v\<lparr>vl_snap := snap_write crc (vl_snap v) (act_id (active v)) (clock v) (index_iter (vl_index v))\<rparr>"

definition vlog_len :: "vlog \<Rightarrow> nat" where
  "vlog_len v = index_len (vl_index v)"

definition vlog_is_empty :: "vlog \<Rightarrow> bool" where
  "vlog_is_empty v = index_is_empty (vl_index v)"

definition write_seq :: "vlog \<Rightarrow> u64" where
  "write_seq v = clock v"

definition vlog_keys :: "vlog \<Rightarrow> bytes list" where
  "vlog_keys v = map fst (index_iter (vl_index v))"

definition segment_count :: "vlog \<Rightarrow> nat" where
  "segment_count v = length (read_segments v)"

definition disk_bytes_total :: "vlog \<Rightarrow> nat" where
  "disk_bytes_total v =
    length (filter (\<lambda>s. rs_id s \<noteq> act_id (active v)) (read_segments v)) * max_seg_size v + act_size (active v)"

definition tenant_cache_bytes :: "vlog \<Rightarrow> u128 \<Rightarrow> u64" where
  "tenant_cache_bytes v t = charged_bytes (vl_cache v) t"

definition cache_stats :: "vlog \<Rightarrow> u64 \<times> u64 \<times> nat \<times> u64" where
  "cache_stats v = (current_bytes (vl_cache v), evictions (vl_cache v), index_len (vl_index v), budget_bytes (vl_cache v))"

subsection \<open>Compaction\<close>

text \<open>
  \<open>below\<close> is the comparison \<open>live / total < threshold\<close>; at the threshold the store uses,
  one half, it is exact on integers.
\<close>

definition pick_compaction_candidate :: "(nat \<Rightarrow> nat \<Rightarrow> bool) \<Rightarrow> vlog \<Rightarrow> u16 option" where
  "pick_compaction_candidate below v =
    map_option rs_id (List.find (\<lambda>s. rs_id s \<noteq> act_id (active v) \<and> pf_size (rs_file s) \<noteq> 0
      \<and> below (rs_live s) (pf_size (rs_file s))) (read_segments v))"

definition below_live_ratio :: "nat \<Rightarrow> nat \<Rightarrow> bool" where
  "below_live_ratio live tot \<longleftrightarrow> 2 * live < tot"

definition index_points_at :: "vlog \<Rightarrow> bytes \<Rightarrow> u16 \<Rightarrow> nat \<Rightarrow> bool" where
  "index_points_at v key sid off \<longleftrightarrow>
    (case index_get (vl_index v) key of
       None \<Rightarrow> False
     | Some e \<Rightarrow> segment_id e = sid \<and> unat (entry_offset e) = off)"

text \<open>
  The relocation of one scanned record: the destination and whether it was data, or \<open>None\<close> if it was
  skipped.
\<close>

definition relocate ::
  "(bytes \<Rightarrow> u32) \<Rightarrow> (bytes \<Rightarrow> u64) \<Rightarrow> u16 \<Rightarrow> vlog \<Rightarrow> nat \<times> log_record \<Rightarrow> (error + (u16 \<times> u32 \<times> bool) option) \<times> vlog" where
  "relocate crc xxh3 seg_id v x =
    (case x of (offset, rec) \<Rightarrow>
     if rec_kind rec = Tombstone
     then (if index_get (vl_index v) (rec_key rec) = None
           then (case append_raw crc v (rec_key rec) [] Tombstone (rec_ts rec) Relaxed of
                   (Inl e, v) \<Rightarrow> (Inl e, v)
                 | (Inr (nseg, _, _), v) \<Rightarrow>
                     if segment_file v nseg = None
                     then (Inl (InvalidRecord ''relocation target segment vanished mid-write''), v)
                     else (Inr (Some (nseg, 0, False)), v))
           else (Inr None, v))
     else if \<not> index_points_at v (rec_key rec) seg_id offset then (Inr None, v)
     else (case append_raw crc v (rec_key rec) (rec_value rec) (rec_kind rec) (rec_ts rec) Relaxed of
             (Inl e, v) \<Rightarrow> (Inl e, v)
           | (Inr (nseg, noff, npad), v) \<Rightarrow>
               if segment_file v nseg = None
               then (Inl (InvalidRecord ''relocation target segment vanished mid-write''), v)
               else
                 (let v = (if index_points_at v (rec_key rec) seg_id offset
                           then inc_live (v\<lparr>vl_index := index_set (vl_index v) (rec_key rec)
                                  \<lparr>fingerprint = fingerprint_of xxh3 (rec_key rec), segment_id = nseg,
                                   entry_pad = 0, entry_offset = noff, entry_size = npad\<rparr>\<rparr>) nseg npad
                           else v) in
                  (Inr (Some (nseg, npad, True)), v))))"

fun relocate_all ::
  "(bytes \<Rightarrow> u32) \<Rightarrow> (bytes \<Rightarrow> u64) \<Rightarrow> u16 \<Rightarrow> vlog \<Rightarrow> (nat \<times> log_record) list \<Rightarrow>
   (error + (u16 \<times> u32 \<times> bool) option) list \<times> vlog" where
  "relocate_all crc xxh3 seg_id v [] = ([], v)"
| "relocate_all crc xxh3 seg_id v (x # xs) =
    (case relocate crc xxh3 seg_id v x of (r, v) \<Rightarrow>
       (case relocate_all crc xxh3 seg_id v xs of (rs, v) \<Rightarrow> (r # rs, v)))"

definition dest_segments :: "(error + (u16 \<times> u32 \<times> bool) option) list \<Rightarrow> u16 list" where
  "dest_segments outcomes =
    List.map_filter (\<lambda>out. case out of Inr (Some (nseg, _, _)) \<Rightarrow> Some nseg | _ \<Rightarrow> None) outcomes"

definition sync_segments :: "u16 list \<Rightarrow> vlog \<Rightarrow> vlog" where
  "sync_segments dests v =
    v\<lparr>read_segments := map (\<lambda>s. if rs_id s \<in> set dests then s\<lparr>rs_file := sync_durable (rs_file s)\<rparr> else s) (read_segments v)\<rparr>"

definition moved_count :: "(error + (u16 \<times> u32 \<times> bool) option) list \<Rightarrow> nat" where
  "moved_count outcomes = length (filter (\<lambda>out. case out of Inr (Some (_, _, True)) \<Rightarrow> True | _ \<Rightarrow> False) outcomes)"

definition compact_segment ::
  "(bytes \<Rightarrow> u32) \<Rightarrow> (bytes \<Rightarrow> u64) \<Rightarrow> vlog \<Rightarrow> u16 \<Rightarrow> (error + nat) \<times> vlog" where
  "compact_segment crc xxh3 v seg_id =
    (if act_id (active v) = seg_id then (Inr 0, v)
     else (case segment_file v seg_id of
       None \<Rightarrow> (Inr 0, v)
     | Some fl \<Rightarrow>
         (let records = fst (scan_file crc (pf_bytes fl)) in
          case relocate_all crc xxh3 seg_id v records of
            (outcomes, v) \<Rightarrow>
              (case List.find isl outcomes of
                 Some out \<Rightarrow> (Inl (case out of Inl e \<Rightarrow> e | Inr _ \<Rightarrow> Io), v)
               | None \<Rightarrow>
                   (let v = sync_segments (dest_segments outcomes) v;
                        v = v\<lparr>read_segments := filter (\<lambda>s. rs_id s \<noteq> seg_id) (read_segments v),
                             vl_snap := snap_remove (vl_snap v)\<rparr> in
                    (Inr (moved_count outcomes), v))))))"

definition maybe_compact ::
  "(bytes \<Rightarrow> u32) \<Rightarrow> (bytes \<Rightarrow> u64) \<Rightarrow> vlog \<Rightarrow> (error + u16 option) \<times> vlog" where
  "maybe_compact crc xxh3 v =
    (case pick_compaction_candidate below_live_ratio v of
       None \<Rightarrow> (Inr None, v)
     | Some sid \<Rightarrow>
         (case compact_segment crc xxh3 v sid of
            (Inl e, v) \<Rightarrow> (Inl e, v)
          | (Inr _, v) \<Rightarrow> (Inr (Some sid), v)))"

fun compact_targets ::
  "(bytes \<Rightarrow> u32) \<Rightarrow> (bytes \<Rightarrow> u64) \<Rightarrow> vlog \<Rightarrow> (u16 \<times> nat) list \<Rightarrow> nat \<Rightarrow> (error + nat) \<times> vlog" where
  "compact_targets crc xxh3 v [] freed = (Inr freed, v)"
| "compact_targets crc xxh3 v ((sid, dead) # ts) freed =
    (case compact_segment crc xxh3 v sid of
       (Inl e, v) \<Rightarrow> (Inl e, v)
     | (Inr _, v) \<Rightarrow> compact_targets crc xxh3 v ts (freed + dead))"

definition reclaim_all_dead ::
  "(bytes \<Rightarrow> u32) \<Rightarrow> (bytes \<Rightarrow> u64) \<Rightarrow> vlog \<Rightarrow> (error + nat) \<times> vlog" where
  "reclaim_all_dead crc xxh3 v =
    (case maybe_rotate v (max_seg_size v) of
       Inl e \<Rightarrow> (Inl e, v)
     | Inr v \<Rightarrow>
         (let targets = List.map_filter (\<lambda>s.
                if rs_id s \<noteq> act_id (active v) \<and> pf_size (rs_file s) > 0 \<and> pf_size (rs_file s) - rs_live s > 0
                then Some (rs_id s, pf_size (rs_file s) - rs_live s) else None) (read_segments v) in
          compact_targets crc xxh3 v targets 0))"

subsection \<open>Tenant views\<close>

record tenant_view =
  tv_tenant :: u128
  tv_disk_limit :: "nat option"

definition vlog_tenant :: "u128 \<Rightarrow> tenant_view" where
  "vlog_tenant t = \<lparr>tv_tenant = t, tv_disk_limit = None\<rparr>"

definition with_disk_limit :: "tenant_view \<Rightarrow> nat option \<Rightarrow> tenant_view" where
  "with_disk_limit tv limit = tv\<lparr>tv_disk_limit := limit\<rparr>"

definition view_get where
  "view_get crc xxh3 tv v key = get_scoped crc xxh3 v key (tv_tenant tv)"

definition view_set where
  "view_set crc xxh3 tv v key val dur = set_scoped crc xxh3 v key val dur (tv_tenant tv) (tv_disk_limit tv)"

definition view_append where
  "view_append crc xxh3 tv v key val dur = append_scoped crc xxh3 v key val dur (tv_tenant tv) (tv_disk_limit tv)"

definition view_del :: "(bytes \<Rightarrow> u32) \<Rightarrow> tenant_view \<Rightarrow> vlog \<Rightarrow> bytes \<Rightarrow> durability \<Rightarrow> (error + bool) \<times> vlog" where
  "view_del crc tv v key dur = vlog_del crc v key dur"

definition view_mget where
  "view_mget crc xxh3 tv v keys = mget_scoped crc xxh3 v keys (tv_tenant tv)"

end
