(* ===== verification/Core_Store.thy ===== *)
theory Core_Store
  imports Core_VLog
begin

text \<open>
  The value log as a map. \<open>vlog_log\<close> is the sequence of records a scan of the segments would apply;
  \<open>log_wf\<close> says that the files and the write position are as the code assumes, \<open>key_ok\<close> that the index
  agrees with the log key by key, and \<open>kv\<close> is the map the store represents. The invariant allows a
  record to occur several times, which is what an interrupted compaction leaves behind.
\<close>

subsection \<open>The log behind the segments\<close>

definition seg_recs :: "(bytes \<Rightarrow> u32) \<Rightarrow> read_segment \<Rightarrow> (nat \<times> log_record) list" where
  "seg_recs crc s = fst (scan_file crc (pf_bytes (rs_file s)))"

definition seg_log :: "(bytes \<Rightarrow> u32) \<Rightarrow> read_segment \<Rightarrow> (u16 \<times> nat \<times> log_record) list" where
  "seg_log crc s = map (\<lambda>(off, r). (rs_id s, off, r)) (snd (gate_run gate_new (seg_recs crc s)))"

definition segs_log :: "(bytes \<Rightarrow> u32) \<Rightarrow> read_segment list \<Rightarrow> (u16 \<times> nat \<times> log_record) list" where
  "segs_log crc segs = concat (map (seg_log crc) segs)"

abbreviation vlog_log :: "(bytes \<Rightarrow> u32) \<Rightarrow> vlog \<Rightarrow> (u16 \<times> nat \<times> log_record) list" where
  "vlog_log crc v \<equiv> segs_log crc (read_segments v)"

lemma segs_log_simps [simp]:
  "segs_log crc [] = []" "segs_log crc (s # ss) = seg_log crc s @ segs_log crc ss"
  "segs_log crc (ss @ ts) = segs_log crc ss @ segs_log crc ts"
  by (simp_all add: segs_log_def)

lemma gate_run_append:
  "gate_run g (xs @ ys) =
    (case gate_run g xs of (g, as) \<Rightarrow> (case gate_run g ys of (g, bs) \<Rightarrow> (g, as @ bs)))"
  by (induction xs arbitrary: g) (auto split: prod.split)

text \<open>What comes out of the gate went in, and is never a batch header.\<close>

lemma gate_feed_sub:
  assumes "gate_feed g off r = (g', as)" and "\<forall>x\<in>set (bg_pending g). rec_kind (snd x) \<noteq> BatchBegin"
  shows "set as \<union> set (bg_pending g') \<subseteq> insert (off, r) (set (bg_pending g)) \<and>
    (\<forall>x\<in>set as \<union> set (bg_pending g'). rec_kind (snd x) \<noteq> BatchBegin)"
  using assms by (auto simp: gate_feed_def Let_def split: if_splits option.splits)

lemma gate_run_sub:
  assumes "gate_run g rs = (g', as)" and "\<forall>x\<in>set (bg_pending g). rec_kind (snd x) \<noteq> BatchBegin"
  shows "set as \<subseteq> set rs \<union> set (bg_pending g) \<and> (\<forall>x\<in>set as. rec_kind (snd x) \<noteq> BatchBegin)"
  using assms
proof (induction rs arbitrary: g as)
  case (Cons x rs)
  obtain off r where x: "x = (off, r)" by (cases x)
  obtain h bs cs where s: "gate_feed g off r = (h, bs)" "gate_run h rs = (g', cs)" "as = bs @ cs"
    using Cons.prems(1) by (auto simp: x split: prod.splits)
  from gate_feed_sub [OF s(1) Cons.prems(2)] have f:
    "set bs \<union> set (bg_pending h) \<subseteq> insert x (set (bg_pending g))"
    "\<forall>y\<in>set bs \<union> set (bg_pending h). rec_kind (snd y) \<noteq> BatchBegin"
    by (auto simp: x)
  then have "\<forall>y\<in>set (bg_pending h). rec_kind (snd y) \<noteq> BatchBegin"
    by blast
  from Cons.IH [OF s(2) this] f show ?case
    by (auto simp: s(3))
qed simp

lemma seg_log_sub:
  "(i, off, r) \<in> set (seg_log crc s) \<Longrightarrow> i = rs_id s \<and> (off, r) \<in> set (seg_recs crc s) \<and> rec_kind r \<noteq> BatchBegin"
  using gate_run_sub [of gate_new "seg_recs crc s" "fst (gate_run gate_new (seg_recs crc s))" "snd (gate_run gate_new (seg_recs crc s))"]
  by (auto simp: seg_log_def gate_new_def)

text \<open>A closed gate lets ordinary records through and releases a complete batch.\<close>

definition gate_closed :: "batch_gate \<Rightarrow> bool" where
  "gate_closed g \<longleftrightarrow> bg_expect g = None"

lemma gate_run_plain:
  assumes "gate_closed g" and "list_all (\<lambda>x. rec_kind (snd x) \<noteq> BatchBegin) rs"
  shows "gate_run g rs = (g, rs)"
  using assms(2)
proof (induction rs)
  case (Cons x rs)
  obtain off r where x: "x = (off, r)" by (cases x)
  with Cons assms(1) have "gate_feed g off r = (g, [(off, r)])"
    by (simp add: gate_feed_def gate_closed_def)
  with Cons show ?case by (simp add: x)
qed simp

lemma gate_run_pending:
  assumes "bg_expect g = Some n" and "length (bg_pending g) + length rs = n" and "rs \<noteq> []"
    and "list_all (\<lambda>x. rec_kind (snd x) \<noteq> BatchBegin) rs"
  shows "gate_run g rs = (\<lparr>bg_expect = None, bg_pending = []\<rparr>, bg_pending g @ rs)"
  using assms
proof (induction rs arbitrary: g)
  case (Cons x rs)
  obtain off r where x: "x = (off, r)" by (cases x)
  show ?case
  proof (cases "rs = []")
    case True
    then show ?thesis
      using Cons.prems by (simp add: x gate_feed_def)
  next
    case False
    let ?g = "g\<lparr>bg_pending := bg_pending g @ [(off, r)]\<rparr>"
    have "gate_feed g off r = (?g, [])"
      using Cons.prems False by (auto simp: x gate_feed_def Let_def)
    moreover have "gate_run ?g rs = (\<lparr>bg_expect = None, bg_pending = []\<rparr>, bg_pending ?g @ rs)"
      using Cons.prems False by (intro Cons.IH) auto
    ultimately show ?thesis
      by (simp add: x)
  qed
qed simp

lemma gate_run_batch:
  assumes "rec_kind h = BatchBegin" and "rec_value h = u32_to_le (of_nat (length rs))" and "0 < length rs"
    and "length rs < 2 ^ 32" and "list_all (\<lambda>x. rec_kind (snd x) \<noteq> BatchBegin) rs"
  shows "gate_run g ((off, h) # rs) = (\<lparr>bg_expect = None, bg_pending = []\<rparr>, rs)"
proof -
  have "unat (of_nat (length rs) :: u32) = length rs"
    using assms(4) by (intro unat_of_nat_small) simp
  then have "gate_feed g off h = (\<lparr>bg_expect = Some (length rs), bg_pending = []\<rparr>, [])"
    using assms(1-3) bslice_full [of 4 "u32_to_le (of_nat (length rs))"] by (simp add: gate_feed_def Let_def)
  then show ?thesis
    using gate_run_pending [of "\<lparr>bg_expect = Some (length rs), bg_pending = []\<rparr>" "length rs" rs] assms(3,5) by auto
qed

text \<open>
  A run of records that a closed gate lets through, all but its batch headers, and that closes it again:
  plain records, or a batch header and its members, or any sequence of these.
\<close>

definition passes :: "(nat \<times> log_record) list \<Rightarrow> bool" where
  "passes run \<longleftrightarrow> (\<forall>g. gate_closed g \<longrightarrow>
     (\<exists>g'. gate_run g run = (g', filter (\<lambda>x. rec_kind (snd x) \<noteq> BatchBegin) run) \<and> gate_closed g'))"

lemma passes_Nil [simp]: "passes []"
  by (simp add: passes_def)

lemma passes_append: "passes xs \<Longrightarrow> passes ys \<Longrightarrow> passes (xs @ ys)"
  by (fastforce simp: passes_def gate_run_append)

lemma passes_plain: "list_all (\<lambda>x. rec_kind (snd x) \<noteq> BatchBegin) rs \<Longrightarrow> passes rs"
  by (auto simp: passes_def gate_run_plain list_all_iff filter_id_conv)

lemma passes_batch:
  assumes "rec_kind h = BatchBegin" and "rec_value h = u32_to_le (of_nat (length rs))" and "0 < length rs"
    and "length rs < 2 ^ 32" and "list_all (\<lambda>x. rec_kind (snd x) \<noteq> BatchBegin) rs"
  shows "passes ((off, h) # rs)"
  using gate_run_batch [OF assms] assms(1,5) unfolding passes_def
  by (auto simp: gate_closed_def list_all_iff filter_id_conv simp del: gate_run.simps)

subsection \<open>Well-formed files\<close>

definition active_ok :: "(bytes \<Rightarrow> u32) \<Rightarrow> active_state \<Rightarrow> read_segment \<Rightarrow> bool" where
  "active_ok crc a s \<longleftrightarrow> act_id a = rs_id s \<and> act_size a = act_tail a \<and>
     snd (scan_file crc (pf_bytes (rs_file s))) = act_tail a \<and>
     zero_tail (act_tail a) (pf_bytes (rs_file s))"

definition log_base :: "(bytes \<Rightarrow> u32) \<Rightarrow> vlog \<Rightarrow> bool" where
  "log_base crc v \<longleftrightarrow> max_seg_size v < 2 ^ 32 \<and> read_segments v \<noteq> [] \<and>
     sorted_wrt (<) (map rs_id (read_segments v)) \<and> active_ok crc (active v) (last (read_segments v))"

definition log_wf :: "(bytes \<Rightarrow> u32) \<Rightarrow> vlog \<Rightarrow> bool" where
  "log_wf crc v \<longleftrightarrow> log_base crc v \<and> (\<forall>s\<in>set (read_segments v). passes (seg_recs crc s))"

lemmas log_wf_simps = log_wf_def log_base_def

text \<open>Every scanned record, batch headers included.\<close>

definition all_recs :: "(bytes \<Rightarrow> u32) \<Rightarrow> vlog \<Rightarrow> log_record set" where
  "all_recs crc v = (\<Union>s\<in>set (read_segments v). snd ` set (seg_recs crc s))"

lemma seg_log_passes:
  "passes (seg_recs crc s) \<Longrightarrow>
    seg_log crc s = map (\<lambda>(off, r). (rs_id s, off, r)) (filter (\<lambda>x. rec_kind (snd x) \<noteq> BatchBegin) (seg_recs crc s))"
  by (auto simp: passes_def seg_log_def gate_closed_def gate_new_def dest!: spec [of _ gate_new])

lemma seg_log_live [simp]: "seg_log crc (s\<lparr>rs_live := n\<rparr>) = seg_log crc s"
  by (simp add: seg_log_def seg_recs_def)

lemma seg_recs_live [simp]: "seg_recs crc (s\<lparr>rs_live := n\<rparr>) = seg_recs crc s"
  by (simp add: seg_recs_def)

lemma commit_one:
  "fst (flush_batch Write_ok True f [\<lparr>wr_data = data, wr_durability = dur, wr_tx = t\<rparr>] w) = batch_sync dur (pf_write f w data)"
  by (simp add: flush_batch_def batch_durability_def Let_def max_def)

text \<open>Writing records at the tail of the active segment appends them to its scan.\<close>

lemma active_write:
  fixes dur :: durability and t :: nat
  assumes "active_ok crc a s" and "list_all rec_ok rs" and "crc_zero_ok crc"
  defines "s' \<equiv> s\<lparr>rs_file := fst (flush_batch Write_ok True (rs_file s)
      [\<lparr>wr_data = log_bytes crc rs, wr_durability = dur, wr_tx = t\<rparr>] (act_tail a))\<rparr>"
  shows "seg_recs crc s' = seg_recs crc s @ place (act_tail a) rs"
    and "snd (scan_file crc (pf_bytes (rs_file s'))) = act_tail a + length (log_bytes crc rs)"
    and "zero_tail (act_tail a + length (log_bytes crc rs)) (pf_bytes (rs_file s'))"
proof -
  have z: "zero_tail (act_tail a) (pf_bytes (rs_file s))"
    and sc: "scan_file crc (pf_bytes (rs_file s)) = (seg_recs crc s, act_tail a)"
    using assms(1) by (auto simp: active_ok_def seg_recs_def prod_eq_iff)
  have b: "pf_bytes (rs_file s') = splice_at (act_tail a) (log_bytes crc rs) (pf_bytes (rs_file s))"
    by (simp add: s'_def commit_one pf_write_def)
  note app = scan_file_append [OF sc z assms(2,3)]
  show "seg_recs crc s' = seg_recs crc s @ place (act_tail a) rs"
    unfolding seg_recs_def [of crc s'] b app by simp
  show "snd (scan_file crc (pf_bytes (rs_file s'))) = act_tail a + length (log_bytes crc rs)"
    unfolding b app by simp
  show "zero_tail (act_tail a + length (log_bytes crc rs)) (pf_bytes (rs_file s'))"
    unfolding b by (rule zero_tail_splice(2) [OF z])
qed

lemma on_segment_last:
  assumes "read_segments v = pre @ [s]" and "sorted_wrt (<) (map rs_id (read_segments v))"
  shows "read_segments (on_segment (rs_id s) g v) = pre @ [g s]"
  using assms by (auto simp: on_segment_def sorted_wrt_append intro!: map_idI)

text \<open>Everything an operation on the log leaves alone.\<close>

definition same_but_log :: "vlog \<Rightarrow> vlog \<Rightarrow> bool" where
  "same_but_log v v' \<longleftrightarrow> max_seg_size v' = max_seg_size v \<and> vl_index v' = vl_index v \<and> vl_cache v' = vl_cache v \<and>
     tenant_disk v' = tenant_disk v \<and> clock v' = clock v \<and> vl_snap v' = vl_snap v"

definition seg_ids :: "vlog \<Rightarrow> u16 set" where
  "seg_ids v = rs_id ` set (read_segments v)"

definition lives :: "vlog \<Rightarrow> (u16 \<times> nat) list" where
  "lives v = map (\<lambda>s. (rs_id s, rs_live s)) (read_segments v)"

lemma commit_append_log:
  assumes wf: "log_wf crc v" and crc: "crc_zero_ok crc" and ok: "list_all rec_ok rs"
    and pass: "passes (place (act_tail (active v)) rs)"
    and c: "commit_append v (log_bytes crc rs) dur = (v', off, n)"
  shows "log_wf crc v'" and "same_but_log v v'" and "off = act_tail (active v)" and "n = of_nat (length (log_bytes crc rs))"
    and "vlog_log crc v' = vlog_log crc v @ map (\<lambda>(o', r). (act_id (active v), o', r))
      (filter (\<lambda>x. rec_kind (snd x) \<noteq> BatchBegin) (place (act_tail (active v)) rs))"
    and "lives v' = lives v"
    and "act_id (active v') = act_id (active v)"
    and "all_recs crc v' = all_recs crc v \<union> set rs"
proof -
  obtain pre s where segs: "read_segments v = pre @ [s]"
    using wf by (cases "read_segments v" rule: rev_cases) (auto simp: log_wf_simps)
  let ?a = "active v"
  let ?s = "s\<lparr>rs_file := fst (flush_batch Write_ok True (rs_file s)
      [\<lparr>wr_data = log_bytes crc rs, wr_durability = dur, wr_tx = 0\<rparr>] (act_tail ?a))\<rparr>"
  have sorted: "sorted_wrt (<) (map rs_id (read_segments v))" and a: "active_ok crc ?a s"
    using wf by (simp_all add: log_wf_simps segs)
  then have id: "act_id ?a = rs_id s"
    by (simp add: active_ok_def)
  note w = active_write [OF a ok crc, where dur = dur and t = 0]
  have v': "v' = (on_segment (rs_id s) (\<lambda>s. s\<lparr>rs_file := fst (flush_batch Write_ok True (rs_file s)
      [\<lparr>wr_data = log_bytes crc rs, wr_durability = dur, wr_tx = 0\<rparr>] (act_tail ?a))\<rparr>) v)
      \<lparr>active := ?a\<lparr>act_size := act_size ?a + length (log_bytes crc rs), act_tail := act_tail ?a + length (log_bytes crc rs)\<rparr>\<rparr>"
    and off: "off = act_tail ?a" and n: "n = of_nat (length (log_bytes crc rs))"
    using c id by (auto simp: commit_append_def Let_def)
  have segs': "read_segments v' = pre @ [?s]"
    using on_segment_last [OF segs sorted] by (simp add: v')
  have p: "passes (seg_recs crc s)"
    using wf by (simp add: log_wf_simps segs)
  then have run: "passes (seg_recs crc ?s)"
    unfolding w(1) by (rule passes_append [OF _ pass])
  show "log_wf crc v'"
    using wf a w(2,3) run unfolding log_wf_simps segs'
    by (auto simp: segs v' active_ok_def on_segment_def)
  show "same_but_log v v'"
    by (simp add: same_but_log_def v' on_segment_def)
  show "off = act_tail (active v)" "n = of_nat (length (log_bytes crc rs))"
    by (fact off n)+
  show "vlog_log crc v' = vlog_log crc v @ map (\<lambda>(o', r). (act_id (active v), o', r))
      (filter (\<lambda>x. rec_kind (snd x) \<noteq> BatchBegin) (place (act_tail (active v)) rs))"
    by (simp add: segs' segs seg_log_passes [OF run] seg_log_passes [OF p] w(1) id)
  show "lives v' = lives v"
    by (simp add: lives_def segs' segs)
  show "act_id (active v') = act_id (active v)"
    by (simp add: v')
  have "snd ` set (place (act_tail ?a) rs) = set rs"
    unfolding set_map [symmetric] by simp
  then show "all_recs crc v' = all_recs crc v \<union> set rs"
    by (simp add: all_recs_def segs' segs w(1) image_Un Un_ac)
qed

lemma find_segment_None:
  assumes "sorted_wrt (<) (map rs_id (read_segments v))" and "read_segments v \<noteq> []"
    and "rs_id (last (read_segments v)) < i"
  shows "find_segment v i = None"
proof -
  have "rs_id s \<le> rs_id (last (read_segments v))" if "s \<in> set (read_segments v)" for s
    using that assms(1,2) by (cases "read_segments v" rule: rev_cases) (auto simp: sorted_wrt_append)
  then show ?thesis
    using assms(3) by (fastforce simp: find_segment_def find_None_iff)
qed

lemma log_wf_fresh:
  assumes "crc_zero_ok crc"
  shows "seg_recs crc \<lparr>rs_id = i, rs_file = pf_preallocate pf_create m, rs_live = 0\<rparr> = []"
    and "active_ok crc \<lparr>act_id = i, act_size = 0, act_tail = 0\<rparr> \<lparr>rs_id = i, rs_file = pf_preallocate pf_create m, rs_live = 0\<rparr>"
  using scan_file_zeros [OF assms]
  by (simp_all add: seg_recs_def active_ok_def pf_preallocate_def pf_create_def zero_tail_def)

lemma maybe_rotate_log:
  assumes wf: "log_wf crc v" and crc: "crc_zero_ok crc" and r: "maybe_rotate v n = Inr v'"
  shows "log_wf crc v'" and "same_but_log v v'" and "vlog_log crc v' = vlog_log crc v"
    and "act_tail (active v') = 0 \<or> act_tail (active v') + n \<le> max_seg_size v"
    and "lives v' = lives v \<or> (\<exists>i. lives v' = lives v @ [(i, 0)] \<and> i \<notin> fst ` set (lives v))"
    and "act_id (active v) \<le> act_id (active v')" and "all_recs crc v' = all_recs crc v"
proof -
  let ?a = "active v" and ?l = "last (read_segments v)"
  have w: "read_segments v \<noteq> []" "sorted_wrt (<) (map rs_id (read_segments v))" "active_ok crc ?a ?l"
    using wf by (simp_all add: log_wf_simps)
  then have id: "act_id ?a = rs_id ?l" and tail: "act_size ?a = act_tail ?a"
    by (simp_all add: active_ok_def)
  have "log_wf crc v' \<and> same_but_log v v' \<and> vlog_log crc v' = vlog_log crc v \<and>
    (act_tail (active v') = 0 \<or> act_tail (active v') + n \<le> max_seg_size v) \<and>
    (lives v' = lives v \<or> (\<exists>i. lives v' = lives v @ [(i, 0)] \<and> i \<notin> fst ` set (lives v))) \<and>
    act_id (active v) \<le> act_id (active v') \<and> all_recs crc v' = all_recs crc v"
  proof (cases "needs_rotation v n")
    case False
    then show ?thesis
      using r wf tail by (auto simp: maybe_rotate_def needs_rotation_def same_but_log_def)
  next
    case True
    let ?s = "\<lparr>rs_id = act_id ?a + 1, rs_file = pf_preallocate pf_create (max_seg_size v), rs_live = 0\<rparr>"
    have nm: "act_id ?a \<noteq> - 1" and v': "v' = v\<lparr>read_segments := read_segments v @ [?s],
        active := \<lparr>act_id = act_id ?a + 1, act_size = 0, act_tail = 0\<rparr>\<rparr>"
      using r True by (auto simp: maybe_rotate_def Let_def split: if_splits)
    have lt: "act_id ?a < act_id ?a + 1"
      by (rule word_less_Suc [OF nm])
    have le: "rs_id s \<le> act_id ?a" if "s \<in> set (read_segments v)" for s
      using that w(1,2) id by (cases "read_segments v" rule: rev_cases) (auto simp: sorted_wrt_append)
    then have "sorted_wrt (<) (map rs_id (read_segments v @ [?s]))"
      using w(2) lt by (auto simp: sorted_wrt_append dest!: le intro: le_less_trans)
    moreover have "seg_log crc ?s = []"
      by (simp add: seg_log_def log_wf_fresh [OF crc])
    moreover have "act_id ?a + 1 \<notin> fst ` set (lives v)"
      using lt by (auto simp: lives_def dest!: le)
    ultimately show ?thesis
      using wf log_wf_fresh [OF crc] lt by (auto simp: v' log_wf_simps same_but_log_def lives_def all_recs_def)
  qed
  then show "log_wf crc v'" and "same_but_log v v'" and "vlog_log crc v' = vlog_log crc v"
    and "act_tail (active v') = 0 \<or> act_tail (active v') + n \<le> max_seg_size v"
    and "lives v' = lives v \<or> (\<exists>i. lives v' = lives v @ [(i, 0)] \<and> i \<notin> fst ` set (lives v))"
    and "act_id (active v) \<le> act_id (active v')" and "all_recs crc v' = all_recs crc v"
    by blast+
qed

lemma maybe_rotate_err:
  assumes "log_wf crc v" and "maybe_rotate v n = Inl e"
  shows "e = InvalidRecord ''segment id overflow''"
proof -
  have "find_segment v (act_id (active v) + 1) = None" if "act_id (active v) \<noteq> - 1"
    using assms(1) word_less_Suc [OF that] by (intro find_segment_None) (auto simp: log_wf_simps active_ok_def)
  then show ?thesis
    using assms(2) by (auto simp: maybe_rotate_def Let_def split: if_splits)
qed

lemma seg_ids_lives: "seg_ids v = fst ` set (lives v)"
  by (force simp: seg_ids_def lives_def)

text \<open>What one appended record does to the log.\<close>

definition extends :: "(bytes \<Rightarrow> u32) \<Rightarrow> vlog \<Rightarrow> vlog \<Rightarrow> u16 \<Rightarrow> (nat \<times> log_record) list \<Rightarrow> bool" where
  "extends crc v v' sid out \<longleftrightarrow> log_wf crc v' \<and> same_but_log v v' \<and>
     vlog_log crc v' = vlog_log crc v @ map (\<lambda>(o', r). (sid, o', r)) out \<and>
     (lives v' = lives v \<or> (\<exists>i. lives v' = lives v @ [(i, 0)] \<and> i \<notin> fst ` set (lives v))) \<and>
     act_id (active v) \<le> sid \<and> sid = act_id (active v') \<and>
     (\<forall>x\<in>all_recs crc v'. x \<in> all_recs crc v \<or> x \<in> snd ` set out \<or> rec_kind x = BatchBegin \<and> rec_ts x < clock v)"

lemma commit_extends:
  assumes wf: "log_wf crc v" and crc: "crc_zero_ok crc" and rot: "maybe_rotate v (length (log_bytes crc rs)) = Inr w"
    and ok: "list_all rec_ok rs" and ts: "\<And>x. x \<in> set rs \<Longrightarrow> rec_kind x = BatchBegin \<Longrightarrow> rec_ts x < clock v"
    and pass: "\<And>tail. passes (place tail rs)"
    and c: "commit_append w (log_bytes crc rs) dur = (v', off, n)"
  shows "extends crc v v' (act_id (active w)) (filter (\<lambda>x. rec_kind (snd x) \<noteq> BatchBegin) (place off rs))"
    and "off = 0 \<or> off + length (log_bytes crc rs) \<le> max_seg_size v"
    and "n = of_nat (length (log_bytes crc rs))"
proof -
  note r = maybe_rotate_log [OF wf crc rot]
  note k = commit_append_log [OF r(1) crc ok pass c]
  show "extends crc v v' (act_id (active w)) (filter (\<lambda>x. rec_kind (snd x) \<noteq> BatchBegin) (place off rs))"
    unfolding extends_def
  proof (intro conjI)
    have "set rs = snd ` set (place off rs)"
      unfolding set_map [symmetric] by simp
    then show "\<forall>x\<in>all_recs crc v'. x \<in> all_recs crc v \<or>
        x \<in> snd ` set (filter (\<lambda>x. rec_kind (snd x) \<noteq> BatchBegin) (place off rs)) \<or> rec_kind x = BatchBegin \<and> rec_ts x < clock v"
      using ts r(7) k(8) by (auto simp: image_iff)
  qed (use r k in \<open>auto simp: same_but_log_def\<close>)
  show "off = 0 \<or> off + length (log_bytes crc rs) \<le> max_seg_size v"
    using r(4) k(3) by simp
  show "n = of_nat (length (log_bytes crc rs))"
    by (rule k(4))
qed

definition rec_fits :: "bytes \<Rightarrow> bytes \<Rightarrow> bool" where
  "rec_fits key val \<longleftrightarrow> padded_record_size (length key) (length val) < 2 ^ 32"

lemma rec_fits_ok: "rec_fits key val \<Longrightarrow> rec_ok (record_of key val kind ts)"
  using padded_record_size_bounds(1) [of "length key" "length val"]
  by (simp add: rec_fits_def rec_ok_def record_of_def)

lemma append_raw_extends:
  assumes wf: "log_wf crc v" and crc: "crc_zero_ok crc" and fits: "rec_fits key val" and kind: "kind \<noteq> BatchBegin"
    and a: "append_raw crc v key val kind ts dur = (Inr (sid, off, n), v')"
  shows "\<exists>o'. off = of_nat o' \<and> o' < 2 ^ 32 \<and> n = of_nat (padded_record_size (length key) (length val)) \<and>
    extends crc v v' sid [(o', record_of key val kind ts)]"
proof -
  let ?r = "record_of key val kind ts"
  have b: "encode_record crc key val kind ts = log_bytes crc [?r]"
    by (simp add: encode_rec_def record_of_def)
  have len: "length (log_bytes crc [?r]) = padded_record_size (length key) (length val)"
    by (simp add: record_size_def record_of_def)
  obtain w o' where w: "maybe_rotate v (length (log_bytes crc [?r])) = Inr w"
    "commit_append w (log_bytes crc [?r]) dur = (v', o', n)" "off = of_nat o'" "sid = act_id (active w)"
    using a by (auto simp: append_raw_def Let_def b len split: sum.splits prod.splits simp del: log_bytes_simps)
  have "passes (place t [?r])" for t
    using passes_plain [of "[(t, ?r)]"] kind by (simp add: record_of_def)
  note k = commit_extends [OF wf crc w(1) _ _ this w(2)]
  have k1: "extends crc v v' sid [(o', ?r)]" and k2: "o' = 0 \<or> o' + length (log_bytes crc [?r]) \<le> max_seg_size v"
    and k3: "n = of_nat (length (log_bytes crc [?r]))"
    using k rec_fits_ok [OF fits, of kind ts] w(4) kind
    by (auto simp: record_of_def simp del: log_bytes_simps)
  have "o' < 2 ^ 32"
    using k2 wf by (auto simp: log_wf_simps simp del: log_bytes_simps)
  then show ?thesis
    using k1 k3 w(3) unfolding len by blast
qed

lemma append_raw_err:
  assumes "log_wf crc v" and "append_raw crc v key val kind ts dur = (Inl e, v')"
  shows "v' = v \<and> e = InvalidRecord ''segment id overflow''"
  using assms maybe_rotate_err [OF assms(1)]
  by (auto simp: append_raw_def Let_def split: sum.splits prod.splits)

end
