(* ===== verification/Core_KV.thy ===== *)
theory Core_KV
  imports Core_Store
begin

text \<open>
  The value log as a map from keys to values. \<open>key_ok\<close> relates, for one key, the records of the log,
  the index entry and the value the map holds; \<open>store_ok\<close> is the invariant of a store with respect to
  a map. Every operation is shown to keep it, with the map changed as the operation's name says.
\<close>

subsection \<open>The index and the log\<close>

definition keylog :: "bytes \<Rightarrow> (u16 \<times> nat \<times> log_record) list \<Rightarrow> log_record list" where
  "keylog k L = filter (\<lambda>r. rec_key r = k) (map (snd \<circ> snd) L)"

text \<open>
  A live key: the newest record is last, possibly several times (an interrupted compaction leaves
  copies), and everything before is older. A deleted key: no record at all, or the last record is a
  tombstone and so is the newest one.
\<close>

definition newest :: "log_record list \<Rightarrow> log_record \<Rightarrow> bool" where
  "newest xs r \<longleftrightarrow> (\<exists>pre n. xs = pre @ replicate (Suc n) r \<and> (\<forall>x\<in>set pre. rec_ts x < rec_ts r))"

definition deleted :: "log_record list \<Rightarrow> bool" where
  "deleted xs \<longleftrightarrow> xs = [] \<or> (rec_kind (last xs) = Tombstone \<and>
     (\<exists>t\<in>set xs. rec_kind t = Tombstone \<and> (\<forall>x\<in>set xs. x = t \<or> rec_ts x < rec_ts t)))"

definition located :: "(bytes \<Rightarrow> u64) \<Rightarrow> (u16 \<times> nat \<times> log_record) list \<Rightarrow> index_entry \<Rightarrow> log_record \<Rightarrow> bool" where
  "located xxh3 L e r \<longleftrightarrow> (\<exists>s o'. (s, o', r) \<in> set L \<and> e = index_entry_for xxh3 s o' r \<and> o' < 2 ^ 32 \<and> record_size r < 2 ^ 32)"

definition key_ok ::
  "(bytes \<Rightarrow> u64) \<Rightarrow> (u16 \<times> nat \<times> log_record) list \<Rightarrow> bytes \<Rightarrow> index_entry option \<Rightarrow> bytes option \<Rightarrow> bool" where
  "key_ok xxh3 L k oe mv \<longleftrightarrow>
    (case oe of
       None \<Rightarrow> mv = None \<and> deleted (keylog k L)
     | Some e \<Rightarrow> (\<exists>r. newest (keylog k L) r \<and> rec_kind r \<noteq> Tombstone \<and> located xxh3 L e r \<and> mv = Some (rec_value r)))"

definition agree :: "(bytes \<Rightarrow> u64) \<Rightarrow> (u16 \<times> nat \<times> log_record) list \<Rightarrow> index \<Rightarrow> (bytes \<Rightarrow> bytes option) \<Rightarrow> bool" where
  "agree xxh3 L idx m \<longleftrightarrow> (\<forall>k. key_ok xxh3 L k (index_get idx k) (m k))"

definition recs_ok :: "u64 \<Rightarrow> (u16 \<times> nat \<times> log_record) list \<Rightarrow> bool" where
  "recs_ok c L \<longleftrightarrow> (\<forall>(s, o', r)\<in>set L. rec_ts r < c \<and> o' < 2 ^ 32 \<and> record_size r < 2 ^ 32 \<and> (rec_kind r = Tombstone \<longrightarrow> rec_value r = []))"

text \<open>
  What a snapshot must satisfy for the fast path of recovery to be right: a key with no record in the
  segments that will be scanned again has the index entry of the snapshot, and the records that will
  not be scanned are not newer than the snapshot's clock.
\<close>

definition snap_index :: "snapshot \<Rightarrow> index" where
  "snap_index sn = foldl (\<lambda>idx (key, e). index_set idx key e) index_new (snap_entries sn)"

definition snap_agree :: "snapshot \<Rightarrow> (u16 \<times> nat \<times> log_record) list \<Rightarrow> index \<Rightarrow> bool" where
  "snap_agree sn L idx \<longleftrightarrow>
    (\<forall>(s, o', r)\<in>set L. s < snap_hwm sn \<longrightarrow> rec_ts r \<le> snap_max_ts sn) \<and>
    (\<forall>k. (\<forall>(s, o', r)\<in>set L. rec_key r = k \<longrightarrow> s < snap_hwm sn) \<longrightarrow> index_get (snap_index sn) k = index_get idx k)"

definition snap_ok :: "(bytes \<Rightarrow> u32) \<Rightarrow> vlog \<Rightarrow> bool" where
  "snap_ok crc v \<longleftrightarrow> (\<forall>sn. snap_read crc (vl_snap v) = Some sn \<longrightarrow>
     snap_hwm sn \<le> act_id (active v) \<and> snap_max_ts sn \<le> clock v \<and> snap_agree sn (vlog_log crc v) (vl_index v) \<and>
     list_all (\<lambda>(k, e). segment_id e \<in> seg_ids v) (snap_entries sn))"

text \<open>What reads need, and the whole invariant.\<close>

definition readable :: "(bytes \<Rightarrow> u32) \<Rightarrow> (bytes \<Rightarrow> u64) \<Rightarrow> vlog \<Rightarrow> (bytes \<Rightarrow> bytes option) \<Rightarrow> bool" where
  "readable crc xxh3 v m \<longleftrightarrow> log_base crc v \<and> s3.coherent (vl_cache v) m \<and> agree xxh3 (vlog_log crc v) (vl_index v) m"

definition store_ok :: "(bytes \<Rightarrow> u32) \<Rightarrow> (bytes \<Rightarrow> u64) \<Rightarrow> vlog \<Rightarrow> (bytes \<Rightarrow> bytes option) \<Rightarrow> bool" where
  "store_ok crc xxh3 v m \<longleftrightarrow> log_wf crc v \<and> index_ok (vl_index v) \<and> s3.coherent (vl_cache v) m \<and>
     recs_ok (clock v) (vlog_log crc v) \<and> agree xxh3 (vlog_log crc v) (vl_index v) m \<and> snap_ok crc v \<and>
     (\<forall>x\<in>all_recs crc v. rec_ts x \<noteq> - 1)"

lemma store_ok_readable: "store_ok crc xxh3 v m \<Longrightarrow> readable crc xxh3 v m"
  by (simp add: store_ok_def readable_def log_wf_def)

lemma keylog_append [simp]: "keylog k (L @ M) = keylog k L @ keylog k M"
  by (simp add: keylog_def)

lemma keylog_single [simp]: "keylog k [(s, o', r)] = (if rec_key r = k then [r] else [])"
  by (simp add: keylog_def)

lemma keylog_Nil [simp]: "keylog k [] = []"
  by (simp add: keylog_def)

lemma set_keylog: "r \<in> set (keylog k L) \<longleftrightarrow> rec_key r = k \<and> (\<exists>s o'. (s, o', r) \<in> set L)"
  by (force simp: keylog_def)

lemma newest_in: "newest xs r \<Longrightarrow> r \<in> set xs"
  by (auto simp: newest_def)

lemma newest_le: "newest xs r \<Longrightarrow> x \<in> set xs \<Longrightarrow> x = r \<or> rec_ts x < rec_ts r"
  by (auto simp: newest_def set_replicate_conv_if split: if_splits)

lemma newest_app: "(\<And>x. x \<in> set xs \<Longrightarrow> rec_ts x < rec_ts r) \<Longrightarrow> newest (xs @ [r]) r"
  unfolding newest_def by (intro exI [of _ xs] exI [of _ 0]) auto

lemma newest_copy: "newest xs r \<Longrightarrow> newest (xs @ [r]) r"
  unfolding newest_def by (metis append.assoc replicate_append_same replicate_Suc)

lemma deleted_app:
  "rec_kind r = Tombstone \<Longrightarrow> (\<And>x. x \<in> set xs \<Longrightarrow> rec_ts x < rec_ts r) \<Longrightarrow> deleted (xs @ [r])"
  by (auto simp: deleted_def)

lemma located_mono: "located xxh3 L e r \<Longrightarrow> set L \<subseteq> set M \<Longrightarrow> located xxh3 M e r"
  by (auto simp: located_def)

lemma key_ok_other:
  assumes "key_ok xxh3 L k oe mv" and "keylog k M = []"
  shows "key_ok xxh3 (L @ M) k oe mv"
  using assms located_mono [of xxh3 L _ _ "L @ M"] by (auto simp: key_ok_def split: option.splits)

lemma agree_write:
  assumes "agree xxh3 L idx m" and "\<And>x. x \<in> set (keylog (rec_key r) L) \<Longrightarrow> rec_ts x < rec_ts r"
    and "rec_kind r \<noteq> Tombstone" and "o' < 2 ^ 32" and "record_size r < 2 ^ 32"
  shows "agree xxh3 (L @ [(s, o', r)]) (index_set idx (rec_key r) (index_entry_for xxh3 s o' r)) (m(rec_key r \<mapsto> rec_value r))"
  unfolding agree_def
proof (rule allI)
  fix k
  have "key_ok xxh3 (L @ [(s, o', r)]) (rec_key r) (Some (index_entry_for xxh3 s o' r)) (Some (rec_value r))"
    using newest_app [OF assms(2)] assms(3-5) by (fastforce simp: key_ok_def located_def)
  moreover have "rec_key r \<noteq> k \<Longrightarrow> key_ok xxh3 (L @ [(s, o', r)]) k (index_get idx k) (m k)"
    using assms(1) by (intro key_ok_other) (simp_all add: agree_def)
  ultimately show "key_ok xxh3 (L @ [(s, o', r)]) k
      (index_get (index_set idx (rec_key r) (index_entry_for xxh3 s o' r)) k) ((m(rec_key r \<mapsto> rec_value r)) k)"
    by simp
qed

lemma agree_delete:
  assumes "agree xxh3 L idx m" and "\<And>x. x \<in> set (keylog (rec_key r) L) \<Longrightarrow> rec_ts x < rec_ts r"
    and "rec_kind r = Tombstone"
  shows "agree xxh3 (L @ [(s, o', r)]) (fst (index_remove idx (rec_key r))) (m(rec_key r := None))"
  unfolding agree_def
proof (rule allI)
  fix k
  have "key_ok xxh3 (L @ [(s, o', r)]) (rec_key r) None None"
    using deleted_app [OF assms(3,2)] by (simp add: key_ok_def)
  moreover have "rec_key r \<noteq> k \<Longrightarrow> key_ok xxh3 (L @ [(s, o', r)]) k (index_get idx k) (m k)"
    using assms(1) by (intro key_ok_other) (simp_all add: agree_def)
  ultimately show "key_ok xxh3 (L @ [(s, o', r)]) k (index_get (fst (index_remove idx (rec_key r))) k) ((m(rec_key r := None)) k)"
    by simp
qed

lemma snap_agree_append:
  assumes "snap_agree sn L idx" and "\<And>s o' r. (s, o', r) \<in> set M \<Longrightarrow> snap_hwm sn \<le> s"
    and "\<And>k. keylog k M = [] \<Longrightarrow> index_get idx' k = index_get idx k"
  shows "snap_agree sn (L @ M) idx'"
proof -
  have "index_get (snap_index sn) k = index_get idx' k"
    if k: "\<And>s o' r. (s, o', r) \<in> set (L @ M) \<Longrightarrow> rec_key r = k \<Longrightarrow> s < snap_hwm sn" for k
  proof -
    have "\<not> (\<exists>r. r \<in> set (keylog k M))"
      using assms(2) k by (fastforce simp: set_keylog)
    then have "keylog k M = []"
      by (metis last_in_set)
    moreover have "index_get (snap_index sn) k = index_get idx k"
      using assms(1) k by (fastforce simp: snap_agree_def)
    ultimately show ?thesis
      using assms(3) by simp
  qed
  then show ?thesis
    using assms(1,2) unfolding snap_agree_def by fastforce
qed

lemma recs_ok_append [simp]: "recs_ok c (L @ M) \<longleftrightarrow> recs_ok c L \<and> recs_ok c M"
  by (simp add: recs_ok_def ball_Un)

lemma recs_okD:
  assumes "recs_ok c L" and "(s, o', r) \<in> set L"
  shows "rec_ts r < c" and "o' < 2 ^ 32" and "record_size r < 2 ^ 32" and "rec_kind r = Tombstone \<Longrightarrow> rec_value r = []"
  using assms by (auto simp: recs_ok_def dest!: bspec)

text \<open>Timestamps in the log are below the clock.\<close>

lemma vlog_logD:
  assumes "(i, o', r) \<in> set (vlog_log crc v)"
  obtains s where "s \<in> set (read_segments v)" and "rs_id s = i" and "(o', r) \<in> set (seg_recs crc s)"
    and "rec_kind r \<noteq> BatchBegin"
proof -
  obtain s where s: "s \<in> set (read_segments v)" "(i, o', r) \<in> set (seg_log crc s)"
    using assms by (auto simp: segs_log_def)
  with seg_log_sub [OF s(2)] that [of s] show thesis
    by simp
qed

lemma keylog_ts: "recs_ok c L \<Longrightarrow> x \<in> set (keylog k L) \<Longrightarrow> rec_ts x < c"
  by (auto simp: set_keylog dest: recs_okD)

lemma find_segment_mem:
  assumes "log_base crc v" and "s \<in> set (read_segments v)"
  shows "find_segment v (rs_id s) = Some s"
proof -
  have "distinct (map rs_id (read_segments v))"
    using assms(1) by (simp add: log_base_def strict_sorted_iff)
  then have "\<And>t. t \<in> set (read_segments v) \<Longrightarrow> rs_id t = rs_id s \<Longrightarrow> t = s"
    using assms(2) by (auto simp: distinct_map dest: inj_onD)
  moreover obtain t where "List.find (\<lambda>t. rs_id t = rs_id s) (read_segments v) = Some t"
    using assms(2) by (cases "List.find (\<lambda>t. rs_id t = rs_id s) (read_segments v)") (auto simp: find_None_iff)
  moreover from this have "t \<in> set (read_segments v)" "rs_id t = rs_id s"
    by (auto simp: find_Some_iff)
  ultimately show ?thesis
    by (simp add: find_segment_def)
qed

text \<open>Reading at an index entry finds the record.\<close>

lemma located_read:
  assumes wf: "log_base crc v" and loc: "located xxh3 (vlog_log crc v) e r"
  obtains fl where "segment_file v (segment_id e) = Some fl"
    and "decode_record crc (pread (pf_bytes fl) (unat (entry_offset e)) (unat (entry_size e))) = Inr r"
proof -
  obtain i o' where l: "(i, o', r) \<in> set (vlog_log crc v)" "e = index_entry_for xxh3 i o' r" "o' < 2 ^ 32" "record_size r < 2 ^ 32"
    using loc by (auto simp: located_def)
  obtain s where s: "s \<in> set (read_segments v)" "rs_id s = i" "(o', r) \<in> set (seg_recs crc s)"
    using vlog_logD [OF l(1)] .
  obtain recs en where sc: "scan_file crc (pf_bytes (rs_file s)) = (recs, en)"
    by (cases "scan_file crc (pf_bytes (rs_file s))")
  then have "record_at crc (pf_bytes (rs_file s)) o' = Some r"
    using s(3) by (intro scan_file_entry(1) [OF sc]) (simp add: seg_recs_def)
  then have "decode_record crc (pread (pf_bytes (rs_file s)) o' (record_size r)) = Inr r"
    by (rule record_atD(1))
  moreover have "unat (entry_offset e) = o'" "unat (entry_size e) = record_size r" "segment_id e = i"
    using l(3,4) by (simp_all add: l(2) index_entry_for_def record_size_def unat_of_nat_small)
  ultimately show thesis
    using that [of "rs_file s"] find_segment_mem [OF wf s(1)] s(2) by (simp add: segment_file_def)
qed

subsection \<open>Frames\<close>

lemma log_wf_frame [simp]:
  "log_wf crc (v\<lparr>vl_cache := c\<rparr>) = log_wf crc v" "log_wf crc (v\<lparr>vl_index := idx\<rparr>) = log_wf crc v"
  "log_wf crc (v\<lparr>tenant_disk := d\<rparr>) = log_wf crc v" "log_wf crc (v\<lparr>vl_snap := sn\<rparr>) = log_wf crc v"
  "log_base crc (v\<lparr>vl_cache := c\<rparr>) = log_base crc v" "all_recs crc (v\<lparr>vl_cache := c\<rparr>) = all_recs crc v"
  "all_recs crc (v\<lparr>vl_index := idx\<rparr>) = all_recs crc v" "all_recs crc (v\<lparr>tenant_disk := d\<rparr>) = all_recs crc v"
  "all_recs crc (v\<lparr>vl_snap := sn\<rparr>) = all_recs crc v" "all_recs crc (v\<lparr>clock := t\<rparr>) = all_recs crc v"
  "seg_ids (v\<lparr>vl_cache := c\<rparr>) = seg_ids v" "seg_ids (v\<lparr>vl_index := idx\<rparr>) = seg_ids v"
  "seg_ids (v\<lparr>tenant_disk := d\<rparr>) = seg_ids v" "seg_ids (v\<lparr>vl_snap := sn\<rparr>) = seg_ids v" "seg_ids (v\<lparr>clock := t\<rparr>) = seg_ids v"
  by (simp_all add: log_wf_simps all_recs_def seg_ids_def)

lemma on_segment_frame [simp]:
  "vl_cache (on_segment i g v) = vl_cache v" "vl_index (on_segment i g v) = vl_index v"
  "tenant_disk (on_segment i g v) = tenant_disk v" "vl_snap (on_segment i g v) = vl_snap v"
  "clock (on_segment i g v) = clock v" "active (on_segment i g v) = active v"
  "max_seg_size (on_segment i g v) = max_seg_size v"
  by (simp_all add: on_segment_def)

lemma live_frame [simp]:
  "vl_cache (inc_live v i n) = vl_cache v" "vl_index (inc_live v i n) = vl_index v"
  "tenant_disk (inc_live v i n) = tenant_disk v" "vl_snap (inc_live v i n) = vl_snap v"
  "clock (inc_live v i n) = clock v" "active (inc_live v i n) = active v"
  "vl_cache (dec_live v i n) = vl_cache v" "vl_index (dec_live v i n) = vl_index v"
  "tenant_disk (dec_live v i n) = tenant_disk v" "vl_snap (dec_live v i n) = vl_snap v"
  "clock (dec_live v i n) = clock v" "active (dec_live v i n) = active v"
  by (simp_all add: inc_live_def dec_live_def)

text \<open>Changes to the segments that touch neither the names nor the bytes of the files.\<close>

lemma seg_same:
  assumes "\<And>s. rs_id (g s) = rs_id s" and "\<And>s. pf_bytes (rs_file (g s)) = pf_bytes (rs_file s)"
  shows "seg_recs crc (g s) = seg_recs crc s" and "segs_log crc (map g ss) = segs_log crc ss"
    and "map rs_id (map g ss) = map rs_id ss"
  using assms by (simp_all add: seg_recs_def seg_log_def [abs_def] segs_log_def comp_def)

lemma map_segs_log:
  assumes g: "\<And>s. rs_id (g s) = rs_id s" "\<And>s. pf_bytes (rs_file (g s)) = pf_bytes (rs_file s)"
  shows "log_wf crc (v\<lparr>read_segments := map g (read_segments v)\<rparr>) = log_wf crc v"
    and "all_recs crc (v\<lparr>read_segments := map g (read_segments v)\<rparr>) = all_recs crc v"
    and "seg_ids (v\<lparr>read_segments := map g (read_segments v)\<rparr>) = seg_ids v"
  unfolding log_wf_simps all_recs_def seg_ids_def by (simp_all add: seg_same [OF g] g active_ok_def last_map comp_def image_image cong: conj_cong)

lemma live_log [simp]:
  "vlog_log crc (inc_live v i n) = vlog_log crc v" "vlog_log crc (dec_live v i n) = vlog_log crc v"
  "log_wf crc (inc_live v i n) = log_wf crc v" "log_wf crc (dec_live v i n) = log_wf crc v"
  "all_recs crc (inc_live v i n) = all_recs crc v" "all_recs crc (dec_live v i n) = all_recs crc v"
  "seg_ids (inc_live v i n) = seg_ids v" "seg_ids (dec_live v i n) = seg_ids v"
  unfolding inc_live_def dec_live_def on_segment_def
  by (simp_all add: seg_same map_segs_log)

lemma snap_ok_frame [simp]:
  "snap_ok crc (v\<lparr>vl_cache := c\<rparr>) = snap_ok crc v" "snap_ok crc (v\<lparr>tenant_disk := d\<rparr>) = snap_ok crc v"
  "snap_ok crc (inc_live v i n) = snap_ok crc v" "snap_ok crc (dec_live v i n) = snap_ok crc v"
  by (simp_all add: snap_ok_def)

lemma store_ok_cache: "store_ok crc xxh3 v m \<Longrightarrow> s3.coherent c m \<Longrightarrow> store_ok crc xxh3 (v\<lparr>vl_cache := c\<rparr>) m"
  by (simp add: store_ok_def)

lemma clock_advance:
  assumes "store_ok crc xxh3 v m" and "clock v \<le> c"
  shows "store_ok crc xxh3 (v\<lparr>clock := c\<rparr>) m"
proof -
  have "recs_ok c (vlog_log crc v)"
    using assms unfolding store_ok_def recs_ok_def by (fastforce intro: less_le_trans)
  moreover have "snap_ok crc (v\<lparr>clock := c\<rparr>)"
    using assms by (auto simp: store_ok_def snap_ok_def)
  moreover have "log_wf crc (v\<lparr>clock := c\<rparr>) = log_wf crc v"
    by (simp add: log_wf_simps)
  ultimately show ?thesis
    using assms by (auto simp: store_ok_def intro: less_le_trans)
qed

lemma next_ts_ok:
  assumes "store_ok crc xxh3 v m" and "clock v \<noteq> - 1" and "next_ts v = (ts, w)"
  shows "store_ok crc xxh3 w m" and "w = v\<lparr>clock := clock v + 1\<rparr>" and "ts = clock v" and "ts < clock w"
    and "\<And>x k. x \<in> set (keylog k (vlog_log crc w)) \<Longrightarrow> rec_ts x < ts"
proof -
  show w: "w = v\<lparr>clock := clock v + 1\<rparr>" "ts = clock v"
    using assms(3) by (auto simp: next_ts_def)
  show lt: "ts < clock w"
    using word_less_Suc [OF assms(2)] by (simp add: w)
  show "store_ok crc xxh3 w m"
    using clock_advance [OF assms(1), of "clock v + 1"] lt by (simp add: w)
  show "\<And>x k. x \<in> set (keylog k (vlog_log crc w)) \<Longrightarrow> rec_ts x < ts"
    using assms(1) by (auto simp: w store_ok_def dest: keylog_ts)
qed

subsection \<open>Reads\<close>

lemma get_scoped_read:
  assumes ok: "readable crc xxh3 v m"
  shows "case get_scoped crc xxh3 v key tenant of
      None \<Rightarrow> (\<exists>val. m key = Some val \<and> contents (vl_cache v) key = None \<and>
                insert_for xxh3 (snd (cache_get (vl_cache v) key)) key val (of_nat (length val)) tenant = None)
    | Some (r, v') \<Rightarrow> r = Inr (m key) \<and> (\<exists>c. v' = v\<lparr>vl_cache := c\<rparr>) \<and> readable crc xxh3 v' m"
proof -
  obtain hit c where g: "cache_get (vl_cache v) key = (hit, c)" by (cases "cache_get (vl_cache v) key")
  have coh: "s3.coherent (vl_cache v) m" and wf: "log_base crc v"
    and key: "key_ok xxh3 (vlog_log crc v) key (index_get (vl_index v) key) (m key)"
    using ok by (simp_all add: readable_def agree_def)
  have c: "s3.coherent c m" and hit: "hit = Some x \<Longrightarrow> m key = Some x" for x
    using s3.coherent_get [OF coh, of key] by (simp_all add: g)
  have miss: "hit = contents (vl_cache v) key"
    using s3.get_hit [of "vl_cache v" key] by (simp add: g)
  let ?v = "v\<lparr>vl_cache := c\<rparr>"
  have okc: "readable crc xxh3 ?v m"
    using ok c by (simp add: readable_def)
  show ?thesis
  proof (cases hit)
    case (Some x)
    then show ?thesis
      using okc hit by (auto simp: get_scoped_def g)
  next
    case None
    show ?thesis
    proof (cases "index_get (vl_index v) key")
      case No: None
      then show ?thesis
        using okc key None by (auto simp: get_scoped_def g key_ok_def)
    next
      case (Some e)
      then obtain r where r: "located xxh3 (vlog_log crc v) e r" "m key = Some (rec_value r)"
        using key by (auto simp: key_ok_def)
      from located_read [OF wf r(1)] obtain fl where fl: "segment_file v (segment_id e) = Some fl"
        "decode_record crc (pread (pf_bytes fl) (unat (entry_offset e)) (unat (entry_size e))) = Inr r" .
      then have fl': "segment_file ?v (segment_id e) = Some fl"
        by (simp add: segment_file_def find_segment_def)
      show ?thesis
        using None Some fl(2) fl' r(2) okc miss s3.coherent_fill [OF c r(2)]
        by (auto simp: get_scoped_def g readable_def split: option.split)
    qed
  qed
qed

lemma get_scoped_ok:
  assumes ok: "store_ok crc xxh3 v m"
  shows "case get_scoped crc xxh3 v key tenant of
      None \<Rightarrow> True
    | Some (r, v') \<Rightarrow> r = Inr (m key) \<and> (\<exists>c. v' = v\<lparr>vl_cache := c\<rparr>) \<and> store_ok crc xxh3 v' m"
  using get_scoped_read [OF store_ok_readable [OF ok], of key tenant] store_ok_cache [OF ok]
  by (auto simp: readable_def split: option.splits)

subsection \<open>Writes\<close>

text \<open>One appended record and the matching index update.\<close>

lemma extends_ts:
  assumes ext: "extends crc w w' sid out" and ok: "store_ok crc xxh3 w m"
    and out: "recs_ok (clock w) (map (\<lambda>(p, r). (sid, p, r)) out)"
  shows "\<forall>x\<in>all_recs crc w'. rec_ts x \<noteq> - 1"
proof -
  have "rec_ts r < clock w" if "(p, r) \<in> set out" for p r
    using that by (intro recs_okD(1) [OF out, of sid p r]) force
  moreover have "\<forall>x\<in>all_recs crc w. rec_ts x \<noteq> - 1"
    using ok by (simp add: store_ok_def)
  moreover have "x < c \<Longrightarrow> x \<noteq> - 1" for x c :: u64
    by auto
  ultimately show ?thesis
    using ext by (fastforce simp: extends_def)
qed

lemma extends_store:
  assumes ext: "extends crc w w' sid out" and ok: "store_ok crc xxh3 w m"
    and out: "recs_ok (clock w) (map (\<lambda>(p, r). (sid, p, r)) out)"
    and ag: "agree xxh3 (vlog_log crc w @ map (\<lambda>(p, r). (sid, p, r)) out) (vl_index v') m'"
    and other: "\<And>k. keylog k (map (\<lambda>(p, r). (sid, p, r)) out) = [] \<Longrightarrow> index_get (vl_index v') k = index_get (vl_index w) k"
    and v': "log_wf crc v' = log_wf crc w'" "all_recs crc v' = all_recs crc w'" "seg_ids v' = seg_ids w'" "vlog_log crc v' = vlog_log crc w'" "clock v' = clock w'" "vl_snap v' = vl_snap w'"
      "active v' = active w'"
    and "index_ok (vl_index v')" and "s3.coherent (vl_cache v') m'"
  shows "store_ok crc xxh3 v' m'"
proof -
  have L: "vlog_log crc v' = vlog_log crc w @ map (\<lambda>(p, r). (sid, p, r)) out" and wf: "log_wf crc v'"
    and s: "clock v' = clock w" "vl_snap v' = vl_snap w" "act_id (active w) \<le> sid" "sid = act_id (active v')"
    using ext v' by (auto simp: extends_def same_but_log_def)
  have "snap_ok crc v'"
    unfolding snap_ok_def
  proof (intro allI impI)
    fix sn
    assume "snap_read crc (vl_snap v') = Some sn"
    then have sn: "snap_hwm sn \<le> act_id (active w)" "snap_max_ts sn \<le> clock w" "snap_agree sn (vlog_log crc w) (vl_index w)"
      "list_all (\<lambda>(k, e). segment_id e \<in> seg_ids w) (snap_entries sn)"
      using ok s by (simp_all add: store_ok_def snap_ok_def)
    have "seg_ids w \<subseteq> seg_ids v'"
      using ext v' by (auto simp: seg_ids_lives extends_def)
    then have "list_all (\<lambda>(k, e). segment_id e \<in> seg_ids v') (snap_entries sn)"
      using sn(4) by (auto simp: list_all_iff)
    moreover
    have "snap_agree sn (vlog_log crc v') (vl_index v')"
      unfolding L using sn(1) s(3) other by (intro snap_agree_append [OF sn(3)]) auto
    ultimately show "snap_hwm sn \<le> act_id (active v') \<and> snap_max_ts sn \<le> clock v' \<and> snap_agree sn (vlog_log crc v') (vl_index v') \<and>
        list_all (\<lambda>(k, e). segment_id e \<in> seg_ids v') (snap_entries sn)"
      using sn s by simp
  qed
  then show ?thesis
    using assms(13,14) ok out ag wf L s extends_ts [OF ext ok out] v' by (simp add: store_ok_def)
qed

lemma extends_one:
  assumes ext: "extends crc w w' sid [(o', r)]" and ok: "store_ok crc xxh3 w m"
    and ts: "\<And>x k. x \<in> set (keylog k (vlog_log crc w)) \<Longrightarrow> rec_ts x < rec_ts r" "rec_ts r < clock w"
    and o': "o' < 2 ^ 32" and fits: "rec_fits (rec_key r) (rec_value r)"
    and v': "log_wf crc v' = log_wf crc w'" "all_recs crc v' = all_recs crc w'" "seg_ids v' = seg_ids w'" "vlog_log crc v' = vlog_log crc w'" "clock v' = clock w'" "vl_snap v' = vl_snap w'"
      "active v' = active w'"
  shows "rec_kind r = Scalar \<Longrightarrow> vl_index v' = index_set (vl_index w) (rec_key r) (index_entry_for xxh3 sid o' r) \<Longrightarrow>
      s3.coherent (vl_cache v') (m(rec_key r \<mapsto> rec_value r)) \<Longrightarrow> store_ok crc xxh3 v' (m(rec_key r \<mapsto> rec_value r))"
    and "rec_kind r = Tombstone \<Longrightarrow> rec_value r = [] \<Longrightarrow> vl_index v' = fst (index_remove (vl_index w) (rec_key r)) \<Longrightarrow>
      s3.coherent (vl_cache v') (m(rec_key r := None)) \<Longrightarrow> store_ok crc xxh3 v' (m(rec_key r := None))"
proof -
  have a: "agree xxh3 (vlog_log crc w) (vl_index w) m" and i: "index_ok (vl_index w)"
    using ok by (simp_all add: store_ok_def)
  have sz: "record_size r < 2 ^ 32"
    using fits by (simp add: rec_fits_def record_size_def)
  show "store_ok crc xxh3 v' (m(rec_key r \<mapsto> rec_value r))"
    if "rec_kind r = Scalar" "vl_index v' = index_set (vl_index w) (rec_key r) (index_entry_for xxh3 sid o' r)"
      "s3.coherent (vl_cache v') (m(rec_key r \<mapsto> rec_value r))"
    using that ts sz o' agree_write [OF a ts(1) _ o' sz] i
    by (intro extends_store [OF ext ok _ _ _ v']) (auto simp: recs_ok_def split: if_splits)
  show "store_ok crc xxh3 v' (m(rec_key r := None))"
    if "rec_kind r = Tombstone" "rec_value r = []" "vl_index v' = fst (index_remove (vl_index w) (rec_key r))"
      "s3.coherent (vl_cache v') (m(rec_key r := None))"
    using that ts sz o' agree_delete [OF a ts(1)] i
    by (intro extends_store [OF ext ok _ _ _ v']) (auto simp: recs_ok_def split: if_splits)
qed

lemma set_scoped_ok:
  assumes ok: "store_ok crc xxh3 v m" and crc: "crc_zero_ok crc" and fits: "rec_fits key val" and cl: "clock v \<noteq> - 1"
  shows "case set_scoped crc xxh3 v key val dur tenant limit of
      None \<Rightarrow> insert_for xxh3 (vl_cache v) key val (of_nat (length val)) tenant = None
    | Some (Inl e, v') \<Rightarrow> store_ok crc xxh3 v' m \<and> (e = DiskQuota \<and> limit \<noteq> None \<or> e = InvalidRecord ''segment id overflow'')
    | Some (Inr _, v') \<Rightarrow> store_ok crc xxh3 v' (m(key \<mapsto> val))"
proof -
  obtain ts w where n: "next_ts v = (ts, w)" by (cases "next_ts v")
  note nt = next_ts_ok [OF ok cl n]
  have wf: "log_wf crc w" and coh: "s3.coherent (vl_cache w) m"
    using nt(1) by (simp_all add: store_ok_def)
  obtain res u where a: "append_raw crc w key val Scalar ts dur = (res, u)"
    by (cases "append_raw crc w key val Scalar ts dur")
  show ?thesis
  proof (cases "case limit of None \<Rightarrow> False | Some l \<Rightarrow>
      tenant_disk_bytes v (tenant_from_key key) - (case index_get (vl_index v) key of None \<Rightarrow> 0 | Some p \<Rightarrow> unat (entry_size p))
        + padded_record_size (length key) (length val) > l")
    case True
    then show ?thesis
      using ok by (auto simp: set_scoped_def split: option.splits)
  next
    case q: False
    show ?thesis
    proof (cases res)
      case (Inl e)
      then show ?thesis
        using append_raw_err [OF wf a [unfolded Inl]] nt(1) q by (simp add: set_scoped_def Let_def n a)
    next
      case (Inr x)
      obtain sid off padded where x: "x = (sid, off, padded)" by (cases x)
      obtain o' where o': "off = of_nat o'" "o' < 2 ^ 32" "padded = of_nat (padded_record_size (length key) (length val))"
        "extends crc w u sid [(o', record_of key val Scalar ts)]"
        using append_raw_extends [OF wf crc fits _ a [unfolded Inr x]] by auto
      let ?r = "record_of key val Scalar ts"
      have r: "rec_key ?r = key" "rec_value ?r = val" "rec_kind ?r = Scalar" "rec_ts ?r = ts"
        by (simp_all add: record_of_def)
      have u: "vl_index u = vl_index v" "vl_cache u = vl_cache v"
        using o'(4) nt(2) by (simp_all add: extends_def same_but_log_def)
      define p where "p = (case index_get (vl_index v) key of None \<Rightarrow> u | Some p \<Rightarrow> dec_live u (segment_id p) (entry_size p))"
      define e where "e = \<lparr>fingerprint = fingerprint_of xxh3 key, segment_id = sid, entry_pad = 0, entry_offset = off, entry_size = padded\<rparr>"
      have p: "log_wf crc p = log_wf crc u" "all_recs crc p = all_recs crc u" "seg_ids p = seg_ids u" "vl_cache p = vl_cache v" "vl_index p = vl_index v" "vlog_log crc p = vlog_log crc u"
        "clock p = clock u" "vl_snap p = vl_snap u" "active p = active u"
        using u by (auto simp: p_def split: option.split)
      have e: "e = index_entry_for xxh3 sid o' ?r"
        by (simp add: e_def o' index_entry_for_def r)
      have "store_ok crc xxh3 (V\<lparr>vl_cache := c, tenant_disk := d\<rparr>) (m(key \<mapsto> val))"
        if "insert_for xxh3 (vl_cache v) key val (of_nat (length val)) tenant = Some c"
          and "V = (inc_live p sid padded)\<lparr>vl_index := index_set (vl_index v) key e\<rparr>" for c d V
        using extends_one(1) [OF o'(4) nt(1), unfolded r, OF nt(5,4) o'(2) fits, where v' = "V\<lparr>vl_cache := c, tenant_disk := d\<rparr>"]
          p s3.coherent_write [OF coh, of xxh3 key val "of_nat (length val)" tenant c] that nt(2) by (simp add: e)
      then show ?thesis
        using q p(4,5) by (auto simp: set_scoped_def Let_def n a Inr x p_def [symmetric] e_def [symmetric] split: option.split)
    qed
  qed
qed

lemma append_scoped_ok:
  assumes ok: "store_ok crc xxh3 v m" and crc: "crc_zero_ok crc" and cl: "clock v \<noteq> - 1"
    and fits: "rec_fits key ((case m key of None \<Rightarrow> [] | Some cur \<Rightarrow> cur) @ val)"
  defines "new \<equiv> (case m key of None \<Rightarrow> [] | Some cur \<Rightarrow> cur) @ val"
  shows "case append_scoped crc xxh3 v key val dur tenant limit of
      None \<Rightarrow> True
    | Some (Inl e, v') \<Rightarrow> store_ok crc xxh3 v' m \<and> (e = DiskQuota \<and> limit \<noteq> None \<or> e = InvalidRecord ''segment id overflow'')
    | Some (Inr n, v') \<Rightarrow> n = length new \<and> store_ok crc xxh3 v' (m(key \<mapsto> new))"
proof (cases "get_scoped crc xxh3 v key tenant")
  case None
  then show ?thesis
    by (simp add: append_scoped_def)
next
  case (Some x)
  obtain r w where x: "x = (r, w)" by (cases x)
  then have g: "r = Inr (m key)" "\<exists>c. w = v\<lparr>vl_cache := c\<rparr>" "store_ok crc xxh3 w m"
    using get_scoped_ok [OF ok, of key tenant] Some by auto
  then have "clock w \<noteq> - 1"
    using cl by auto
  moreover have "(case m key of Some cur \<Rightarrow> cur @ val | None \<Rightarrow> val) = new"
    by (simp add: new_def split: option.split)
  ultimately show ?thesis
    using set_scoped_ok [OF g(3) crc fits, folded new_def, where dur = dur and tenant = tenant and limit = limit] Some x g(1)
    by (auto simp: append_scoped_def split: option.splits sum.splits prod.splits)
qed

lemma vlog_del_ok:
  assumes ok: "store_ok crc xxh3 v m" and crc: "crc_zero_ok crc" and cl: "clock v \<noteq> - 1" and fits: "rec_fits key []"
  shows "case vlog_del crc v key dur of
      (Inl e, v') \<Rightarrow> store_ok crc xxh3 v' m \<and> e = InvalidRecord ''segment id overflow''
    | (Inr b, v') \<Rightarrow> b = (m key \<noteq> None) \<and> store_ok crc xxh3 v' (m(key := None))"
proof (cases "index_get (vl_index v) key")
  case None
  then have "m key = None"
    using ok by (auto simp: store_ok_def agree_def key_ok_def split: option.splits dest!: spec [of _ key])
  then show ?thesis
    using None ok by (simp add: vlog_del_def fun_upd_idem)
next
  case (Some p)
  then have mk: "m key \<noteq> None"
    using ok by (auto simp: store_ok_def agree_def key_ok_def split: option.splits dest!: spec [of _ key])
  obtain ts w where n: "next_ts v = (ts, w)" by (cases "next_ts v")
  note nt = next_ts_ok [OF ok cl n]
  have wf: "log_wf crc w" and coh: "s3.coherent (vl_cache w) m"
    using nt(1) by (simp_all add: store_ok_def)
  obtain res u where a: "append_raw crc w key [] Tombstone ts dur = (res, u)"
    by (cases "append_raw crc w key [] Tombstone ts dur")
  show ?thesis
  proof (cases res)
    case (Inl e)
    then show ?thesis
      using append_raw_err [OF wf a [unfolded Inl]] nt(1) Some by (simp add: vlog_del_def n a)
  next
    case (Inr x)
    obtain sid off padded where x: "x = (sid, off, padded)" by (cases x)
    obtain o' where o': "o' < 2 ^ 32" "extends crc w u sid [(o', record_of key [] Tombstone ts)]"
      using append_raw_extends [OF wf crc fits _ a [unfolded Inr x]] by auto
    let ?r = "record_of key [] Tombstone ts"
    have r: "rec_key ?r = key" "rec_value ?r = []" "rec_kind ?r = Tombstone" "rec_ts ?r = ts"
      by (simp_all add: record_of_def)
    let ?v = "(dec_live u (segment_id p) (entry_size p))\<lparr>vl_index := fst (index_remove (vl_index v) key),
        vl_cache := fst (cache_remove (vl_cache v) key)\<rparr>"
    have u: "vl_index u = vl_index v" "vl_cache u = vl_cache v"
      using o'(2) nt(2) by (simp_all add: extends_def same_but_log_def)
    have "store_ok crc xxh3 (?v\<lparr>tenant_disk := d\<rparr>) (m(key := None))" for d
      using extends_one(2) [OF o'(2) nt(1), unfolded r, OF nt(5,4) o'(1) fits, where v' = "?v\<lparr>tenant_disk := d\<rparr>"]
        s3.coherent_remove [OF coh, of key] nt(2) by simp
    then show ?thesis
      using Some mk u by (simp add: vlog_del_def n a Inr x Let_def)
  qed
qed

subsection \<open>Batches\<close>

text \<open>The records of a batch, their places in the blob, and what applying them does to index and map.\<close>

fun member_recs :: "u64 \<Rightarrow> (bytes \<times> bytes) list \<Rightarrow> log_record list" where
  "member_recs ts [] = []"
| "member_recs ts ((k, x) # ps) = record_of k x Scalar ts # member_recs (ts + 1) ps"

definition rel_places :: "nat \<Rightarrow> log_record list \<Rightarrow> (nat \<times> u32) list" where
  "rel_places pos rs = map (\<lambda>(p, r). (p, of_nat (record_size r))) (place pos rs)"

definition index_writes :: "(bytes \<Rightarrow> u64) \<Rightarrow> u16 \<Rightarrow> index \<Rightarrow> (nat \<times> log_record) list \<Rightarrow> index" where
  "index_writes xxh3 sid = foldl (\<lambda>idx (p, r). index_set idx (rec_key r) (index_entry_for xxh3 sid p r))"

definition map_writes :: "(bytes \<Rightarrow> bytes option) \<Rightarrow> (bytes \<times> bytes) list \<Rightarrow> bytes \<Rightarrow> bytes option" where
  "map_writes = foldl (\<lambda>m (k, x). m(k \<mapsto> x))"

lemma member_recs_sizes [simp]: "length (member_recs ts ps) = length ps"
  by (induction ts ps rule: member_recs.induct) simp_all

lemma member_recs_kind: "r \<in> set (member_recs ts ps) \<Longrightarrow> rec_kind r = Scalar"
  by (induction ts ps rule: member_recs.induct) (auto simp: record_of_def)

lemma member_recs_ts:
  assumes "r \<in> set (member_recs ts ps)" and "unat ts + length ps < 2 ^ 64"
  shows "ts \<le> rec_ts r \<and> rec_ts r < ts + of_nat (length ps)"
  using assms
proof (induction ts ps rule: member_recs.induct)
  case (2 ts k x ps)
  have s: "unat (ts + 1) = unat ts + 1"
    using 2(3) by (simp add: unat_word_ariths)
  have e: "unat (ts + (1 + of_nat (length ps))) = unat ts + (1 + length ps)"
    using 2(3) by (simp add: unat_word_ariths unat_of_nat_small)
  from 2(2) consider "r = record_of k x Scalar ts" | "r \<in> set (member_recs (ts + 1) ps)"
    by auto
  then show ?case
  proof cases
    case 1
    then show ?thesis
      using e by (simp add: record_of_def word_less_nat_alt)
  next
    case b: 2
    from "2.IH" [OF b] 2(3) s have "ts + 1 \<le> rec_ts r" "rec_ts r < ts + 1 + of_nat (length ps)"
      by simp_all
    then show ?thesis
      using s by (simp add: word_le_nat_alt add.assoc)
  qed
qed simp

lemma encode_members_ok:
  assumes "\<And>k x. (k, x) \<in> set ps \<Longrightarrow> rec_fits k x"
  shows "case encode_members crc v blob ps of
      None \<Rightarrow> False
    | Some (Inl e, v') \<Rightarrow> e = InvalidRecord ''batch too large'' \<and> (\<exists>n\<le>length ps. v' = v\<lparr>clock := clock v + of_nat n\<rparr>)
    | Some (Inr (b, rels), v') \<Rightarrow> b = blob @ log_bytes crc (member_recs (clock v) ps) \<and>
        rels = rel_places (length blob) (member_recs (clock v) ps) \<and> v' = v\<lparr>clock := clock v + of_nat (length ps)\<rparr>"
  using assms
proof (induction ps arbitrary: v blob)
  case (Cons p ps)
  obtain k x where p: "p = (k, x)" by (cases p)
  let ?w = "v\<lparr>clock := clock v + 1\<rparr>" and ?r = "record_of k x Scalar (clock v)"
  have e: "encode_record crc k x Scalar (clock v) = encode_rec crc ?r"
    by (simp add: encode_rec_def record_of_def)
  have sz: "record_size ?r = padded_record_size (length k) (length x)" "padded_record_size (length k) (length x) < 2 ^ 32"
    using Cons.prems [of k x] by (simp_all add: p rec_fits_def record_size_def record_of_def)
  have ih: "case encode_members crc ?w (blob @ encode_rec crc ?r) ps of
      None \<Rightarrow> False
    | Some (Inl e, v') \<Rightarrow> e = InvalidRecord ''batch too large'' \<and> (\<exists>n\<le>length ps. v' = ?w\<lparr>clock := clock ?w + of_nat n\<rparr>)
    | Some (Inr (b, rels), v') \<Rightarrow> b = (blob @ encode_rec crc ?r) @ log_bytes crc (member_recs (clock ?w) ps) \<and>
        rels = rel_places (length (blob @ encode_rec crc ?r)) (member_recs (clock ?w) ps) \<and> v' = ?w\<lparr>clock := clock ?w + of_nat (length ps)\<rparr>"
    by (rule Cons.IH) (use Cons.prems in auto)
  have n: "\<exists>n'\<le>length (p # ps). v\<lparr>clock := clock v + 1 + of_nat n\<rparr> = v\<lparr>clock := clock v + of_nat n'\<rparr>" if "n \<le> length ps" for n
    using that by (intro exI [of _ "Suc n"]) (simp add: add.assoc)
  show ?case
  proof (cases "length blob \<ge> 2 ^ 32")
    case True
    then show ?thesis
      by (auto simp: p intro!: exI [of _ 0])
  next
    case False
    then show ?thesis
      using ih sz n by (auto simp: p e next_ts_def Let_def rel_places_def add.assoc split: option.splits sum.splits prod.splits)
  qed
qed (simp add: rel_places_def)

lemma agree_writes:
  assumes "agree xxh3 L idx m" and "\<And>k x. x \<in> set (keylog k L) \<Longrightarrow> rec_ts x < ts"
    and "unat ts + length ps < 2 ^ 64" and "\<And>k x. (k, x) \<in> set ps \<Longrightarrow> rec_fits k x"
    and "pos + sum_list (map record_size (member_recs ts ps)) \<le> 2 ^ 32"
  shows "agree xxh3 (L @ map (\<lambda>(p, r). (sid, p, r)) (place pos (member_recs ts ps)))
    (index_writes xxh3 sid idx (place pos (member_recs ts ps))) (map_writes m ps)"
  using assms
proof (induction ps arbitrary: L idx m ts pos)
  case (Cons p ps)
  obtain k x where p: "p = (k, x)" by (cases p)
  let ?r = "record_of k x Scalar ts"
  have r: "rec_key ?r = k" "rec_value ?r = x" "rec_kind ?r = Scalar" "rec_ts ?r = ts"
    by (simp_all add: record_of_def)
  have s: "unat (ts + 1) = unat ts + 1"
    using Cons.prems(3) by (simp add: unat_word_ariths)
  have a: "agree xxh3 (L @ [(sid, pos, ?r)]) (index_set idx k (index_entry_for xxh3 sid pos ?r)) (m(k \<mapsto> x))"
    using agree_write [OF Cons.prems(1), of ?r pos sid] Cons.prems(2,4,5) record_size_pos [of ?r]
    by (auto simp: r p rec_fits_def record_size_def)
  have t: "rec_ts y < ts + 1" if "y \<in> set (keylog k' (L @ [(sid, pos, ?r)]))" for y k'
    using that Cons.prems(2) [of y k'] s r(4) by (auto simp: r(1) word_less_nat_alt split: if_splits)
  have "agree xxh3 ((L @ [(sid, pos, ?r)]) @ map (\<lambda>(p, r). (sid, p, r)) (place (pos + record_size ?r) (member_recs (ts + 1) ps)))
    (index_writes xxh3 sid (index_set idx k (index_entry_for xxh3 sid pos ?r)) (place (pos + record_size ?r) (member_recs (ts + 1) ps)))
    (map_writes (m(k \<mapsto> x)) ps)"
    using Cons.prems(3-5) s by (intro Cons.IH [OF a t]) (simp_all add: p add.assoc)
  then show ?case
    by (simp add: p r index_writes_def map_writes_def)
qed (simp_all add: index_writes_def map_writes_def)

lemma index_writes_ok: "index_ok idx \<Longrightarrow> index_ok (index_writes xxh3 sid idx xs)"
  by (induction xs arbitrary: idx) (auto simp: index_writes_def)

lemma apply_member_ok:
  fixes r :: log_record
  assumes "apply_member xxh3 sid start v ((k, x), pos, of_nat (record_size r)) = Some v'" and "s3.coherent (vl_cache v) m"
    and "rec_key r = k" and "rec_value r = x"
  shows "vl_index v' = index_set (vl_index v) k (index_entry_for xxh3 sid (start + pos) r)"
    and "s3.coherent (vl_cache v') (m(k \<mapsto> x))" and "log_wf crc v' = log_wf crc v \<and> all_recs crc v' = all_recs crc v \<and> seg_ids v' = seg_ids v" and "vlog_log crc v' = vlog_log crc v"
    and "clock v' = clock v" and "vl_snap v' = vl_snap v" and "active v' = active v"
proof -
  let ?w = "case index_get (vl_index v) k of
      None \<Rightarrow> v
    | Some prev \<Rightarrow>
        (let v = dec_live v (segment_id prev) (entry_size prev) in
         case map_of (tenant_disk v) (tenant_from_key k) of
           None \<Rightarrow> v
         | Some n \<Rightarrow> v\<lparr>tenant_disk := AList.update (tenant_from_key k) (n - unat (entry_size prev)) (tenant_disk v)\<rparr>)"
  have w: "vl_index ?w = vl_index v" "vl_cache ?w = vl_cache v" "clock ?w = clock v" "vl_snap ?w = vl_snap v"
    "active ?w = active v" "log_wf crc ?w = log_wf crc v" "all_recs crc ?w = all_recs crc v" "seg_ids ?w = seg_ids v" "vlog_log crc ?w = vlog_log crc v"
    by (auto simp: Let_def split: option.split)
  obtain c d where c: "insert_for xxh3 (vl_cache v) k x (of_nat (length x)) (tenant_from_key k) = Some c"
    and v': "v' = ((inc_live ?w sid (of_nat (record_size r)))\<lparr>vl_index := index_set (vl_index v) k
      \<lparr>fingerprint = fingerprint_of xxh3 k, segment_id = sid, entry_pad = 0,
       entry_offset = of_nat (start + pos), entry_size = of_nat (record_size r)\<rparr>\<rparr>)\<lparr>vl_cache := c, tenant_disk := d\<rparr>"
    using assms(1) w unfolding apply_member_def by (auto simp: Let_def split: if_splits option.splits)
  show "vl_index v' = index_set (vl_index v) k (index_entry_for xxh3 sid (start + pos) r)"
    by (simp add: v' index_entry_for_def assms(3,4) record_size_def)
  show "s3.coherent (vl_cache v') (m(k \<mapsto> x))"
    using s3.coherent_write [OF assms(2) c] by (simp add: v')
  show "log_wf crc v' = log_wf crc v \<and> all_recs crc v' = all_recs crc v \<and> seg_ids v' = seg_ids v" and "vlog_log crc v' = vlog_log crc v" and "clock v' = clock v"
    and "vl_snap v' = vl_snap v" and "active v' = active v"
    using w by (simp_all add: v')
qed

lemma apply_members_ok:
  assumes "apply_members xxh3 sid start v (zip ps (rel_places pos (member_recs ts ps))) = Some v'"
    and "s3.coherent (vl_cache v) m"
  shows "vl_index v' = index_writes xxh3 sid (vl_index v) (place (start + pos) (member_recs ts ps)) \<and>
    s3.coherent (vl_cache v') (map_writes m ps) \<and>
    log_wf crc v' = log_wf crc v \<and> all_recs crc v' = all_recs crc v \<and> seg_ids v' = seg_ids v \<and> vlog_log crc v' = vlog_log crc v \<and>
    clock v' = clock v \<and> vl_snap v' = vl_snap v \<and> active v' = active v"
  using assms
proof (induction ps arbitrary: v pos ts m)
  case (Cons p ps)
  obtain k x where p: "p = (k, x)" by (cases p)
  let ?r = "record_of k x Scalar ts"
  have r: "rec_key ?r = k" "rec_value ?r = x"
    by (simp_all add: record_of_def)
  obtain w where w: "apply_member xxh3 sid start v ((k, x), pos, of_nat (record_size ?r)) = Some w"
    "apply_members xxh3 sid start w (zip ps (rel_places (pos + record_size ?r) (member_recs (ts + 1) ps))) = Some v'"
    using Cons.prems(1) by (auto simp: p rel_places_def split: option.splits)
  note one = apply_member_ok [OF w(1) Cons.prems(2) r]
  from Cons.IH [OF w(2) one(2)] show ?case
    using one(1,3-7) by (simp add: p r index_writes_def map_writes_def add.assoc fun_upd_def)
qed (simp add: rel_places_def index_writes_def map_writes_def)

lemma clock_plus:
  assumes "unat (c :: u64) + n < 2 ^ 64" and "i \<le> n"
  shows "c \<le> c + of_nat i" and "unat (c + of_nat i) = unat c + i"
proof -
  have "unat (of_nat i :: u64) = i"
    using assms by (intro unat_of_nat_small) simp
  then show "unat (c + of_nat i) = unat c + i"
    using assms by (simp add: unat_word_ariths)
  then show "c \<le> c + of_nat i"
    by (simp add: word_le_nat_alt)
qed

lemma member_recs_ok: "(\<And>k x. (k, x) \<in> set ps \<Longrightarrow> rec_fits k x) \<Longrightarrow> list_all rec_ok (member_recs ts ps)"
  by (induction ts ps rule: member_recs.induct) (auto intro: rec_fits_ok)

lemma member_recs_size:
  "(\<And>k x. (k, x) \<in> set ps \<Longrightarrow> rec_fits k x) \<Longrightarrow> r \<in> set (member_recs ts ps) \<Longrightarrow> record_size r < 2 ^ 32"
  by (induction ts ps rule: member_recs.induct) (auto simp: rec_fits_def record_size_def record_of_def)

lemma place_bound: "(p, r) \<in> set (place pos rs) \<Longrightarrow> r \<in> set rs \<and> p \<le> pos + sum_list (map record_size rs)"
  by (induction pos rs rule: place.induct) auto

lemma place_snd: "x \<in> set (place pos rs) \<Longrightarrow> snd x \<in> set rs"
  by (metis map_snd_place imageI set_map)

lemma length_place [simp]: "length (place pos rs) = length rs"
  by (induction pos rs rule: place.induct) simp_all

lemma set_many_commit:
  assumes ok: "store_ok crc xxh3 v m" and crc: "crc_zero_ok crc" and fits: "\<And>k x. (k, x) \<in> set ps \<Longrightarrow> rec_fits k x"
    and cl: "unat (clock v) + Suc (length ps) < 2 ^ 64" and ne: "ps \<noteq> []" and len: "length ps < 2 ^ 32"
    and small: "length b \<le> max_seg_size v" and rot: "maybe_rotate u (length b) = Inr u'"
    and cm: "commit_append u' b dur = (w, start, n)"
    and app: "apply_members xxh3 (act_id (active u')) start w (zip ps rels) = Some v'"
  defines "h \<equiv> record_of [] (u32_to_le (of_nat (length ps))) BatchBegin (clock v)"
  assumes b: "b = log_bytes crc (h # member_recs (clock v + 1) ps)"
    and rels: "rels = rel_places (record_size h) (member_recs (clock v + 1) ps)"
    and u: "u = v\<lparr>clock := clock v + 1 + of_nat (length ps)\<rparr>"
  shows "store_ok crc xxh3 v' (map_writes m ps)"
proof -
  let ?rs = "member_recs (clock v + 1) ps" and ?sid = "act_id (active u')"
  have c: "clock v \<le> clock u" "unat (clock v + 1) = unat (clock v) + 1" "unat (clock v + 1) + length ps < 2 ^ 64"
    using clock_plus [OF cl, of "Suc (length ps)"] clock_plus(2) [OF cl, of 1] cl by (simp_all add: u add.assoc)
  have cu: "unat (clock u) = unat (clock v) + Suc (length ps)"
    using clock_plus(2) [OF cl, of "Suc (length ps)"] by (simp add: u add.assoc)
  have ts: "rec_ts r < clock u" if "r \<in> set ?rs" for r
    using member_recs_ts [OF that c(3)] by (simp add: u)
  have uok: "store_ok crc xxh3 u m" and wf: "log_wf crc u"
    using clock_advance [OF ok c(1)] by (simp_all add: u store_ok_def)
  have hk: "rec_kind h = BatchBegin" "rec_value h = u32_to_le (of_nat (length ?rs))" "rec_ts h = clock v" "rec_key h = []"
    by (simp_all add: h_def record_of_def)
  have plain: "list_all (\<lambda>x. rec_kind (snd x) \<noteq> BatchBegin) (place t ?rs)" for t
    by (auto simp: list_all_iff dest!: place_snd member_recs_kind)
  have recs: "list_all rec_ok (h # ?rs)"
    using member_recs_ok [OF fits] by (simp add: hk rec_ok_def)
  have hts: "rec_ts x < clock u" if "x \<in> set (h # ?rs)" for x
    using that ts cu hk(3) by (auto simp: word_less_nat_alt)
  have pass: "passes (place t (h # ?rs))" for t
    using passes_batch [OF hk(1), of "place (t + record_size h) ?rs" t] hk(2) plain ne len
    by (simp add: length_place)
  note k = commit_extends [OF wf crc rot [unfolded b] recs hts pass cm [unfolded b]]
  have out: "filter (\<lambda>x. rec_kind (snd x) \<noteq> BatchBegin) (place start (h # ?rs)) = place (start + record_size h) ?rs"
    using plain hk(1) by (auto simp: list_all_iff filter_id_conv)
  let ?out = "place (start + record_size h) ?rs"
  have ext: "extends crc u w ?sid ?out"
    using k(1) unfolding out .
  have sz: "record_size r < 2 ^ 32" if "r \<in> set ?rs" for r
    using member_recs_size [OF fits that] .
  have fit: "start + (record_size h + sum_list (map record_size ?rs)) < 2 ^ 32"
    using k(2) small wf unfolding b by (auto simp: length_log_bytes log_wf_simps u simp del: log_bytes_simps)
  have ag: "agree xxh3 (vlog_log crc u @ map (\<lambda>(p, r). (?sid, p, r)) ?out) (index_writes xxh3 ?sid (vl_index v) ?out) (map_writes m ps)"
    using ok c keylog_ts [of "clock v"] fits fit unfolding u
    by (intro agree_writes) (auto simp: store_ok_def word_less_nat_alt intro: less_SucI)
  have w: "vl_index w = vl_index v" "vl_cache w = vl_cache v"
    using ext by (simp_all add: extends_def same_but_log_def u)
  have "s3.coherent (vl_cache w) m" and i: "index_ok (vl_index v)"
    using ok by (simp_all add: store_ok_def w)
  note am = apply_members_ok [OF app [unfolded rels] this(1), of crc, unfolded w]
  have ro: "recs_ok (clock u) (map (\<lambda>(p, r). (?sid, p, r)) ?out)"
    using ts sz fit by (fastforce simp: recs_ok_def dest!: place_bound dest: place_snd member_recs_kind)
  have oth: "index_get (index_writes xxh3 sid idx xs) k = index_get idx k"
    if "keylog k (map (\<lambda>(p, r). (sid, p, r)) xs) = []" for k sid idx xs
    using that by (induction xs arbitrary: idx) (auto simp: index_writes_def keylog_def split: if_splits)
  show ?thesis
    using am ag i ro oth by (intro extends_store [OF ext uok]) (auto simp: u intro: index_writes_ok)
qed

lemma set_many_ok:
  assumes ok: "store_ok crc xxh3 v m" and crc: "crc_zero_ok crc" and fits: "\<And>k x. (k, x) \<in> set ps \<Longrightarrow> rec_fits k x"
    and cl: "unat (clock v) + Suc (length ps) < 2 ^ 64"
  shows "case set_many crc xxh3 v ps dur of
      None \<Rightarrow> True
    | Some (Inl e, v') \<Rightarrow> store_ok crc xxh3 v' m \<and> e \<in> {InvalidRecord ''batch too large'',
        InvalidRecord ''batch exceeds one segment'', InvalidRecord ''segment id overflow''}
    | Some (Inr _, v') \<Rightarrow> store_ok crc xxh3 v' (map_writes m ps)"
proof (cases "ps = [] \<or> length ps \<ge> 2 ^ 32")
  case True
  then show ?thesis
    using ok by (auto simp: set_many_def map_writes_def)
next
  case False
  let ?w = "v\<lparr>clock := clock v + 1\<rparr>" and ?h = "record_of [] (u32_to_le (of_nat (length ps))) BatchBegin (clock v)"
  let ?rs = "member_recs (clock v + 1) ps" and ?u = "v\<lparr>clock := clock v + 1 + of_nat (length ps)\<rparr>"
  have c1: "clock v \<le> clock v + 1 + of_nat n" if "n \<le> length ps" for n
    using clock_plus(1) [OF cl, of "Suc n"] that by (simp add: add.assoc)
  have adv: "store_ok crc xxh3 (v\<lparr>clock := clock v + 1 + of_nat n\<rparr>) m" if "n \<le> length ps" for n
    by (rule clock_advance [OF ok c1 [OF that]])
  have h: "encode_record crc [] (u32_to_le (of_nat (length ps))) BatchBegin (clock v) = encode_rec crc ?h"
    by (simp add: encode_rec_def record_of_def)
  note enc = encode_members_ok [where crc = crc and v = ?w and blob = "encode_rec crc ?h" and ps = ps, OF fits]
  show ?thesis
  proof (cases "encode_members crc ?w (encode_rec crc ?h) ps")
    case None
    then show ?thesis
      using enc by simp
  next
    case (Some x)
    obtain res w' where x: "x = (res, w')" by (cases x)
    show ?thesis
    proof (cases res)
      case (Inl e)
      then show ?thesis
        using enc Some x False adv by (auto simp: set_many_def next_ts_def h)
    next
      case (Inr y)
      obtain b rels where y: "y = (b, rels)" by (cases y)
      have b: "b = log_bytes crc (?h # ?rs)" and rels: "rels = rel_places (record_size ?h) ?rs" and w': "w' = ?u"
        using enc Some x Inr y by auto
      show ?thesis
        using set_many_commit [OF ok crc fits cl _ _ _ _ _ _ b rels w', where dur = dur] maybe_rotate_err [of crc ?u] adv [of "length ps"]
          False Some x Inr y h
        by (auto simp: set_many_def next_ts_def w' store_ok_def split: sum.splits option.splits prod.splits)
    qed
  qed
qed

end
