(* ===== verification/Core_Compact.thy ===== *)
theory Core_Compact
  imports Core_KV "HOL-Library.Sublist"
begin

text \<open>
  Compaction keeps the map. While a sealed segment is relocated record by record, the store satisfies
  its invariant for the same map after every single step, so stopping anywhere is harmless; once every
  record has been handled, the segment can be dropped from the log.
\<close>

subsection \<open>One relocation\<close>

lemma deleted_copy: "deleted xs \<Longrightarrow> r \<in> set xs \<Longrightarrow> rec_kind r = Tombstone \<Longrightarrow> deleted (xs @ [r])"
  by (auto simp: deleted_def)

text \<open>
  The source segment during a compaction: sealed, and its part of the log is the records of its scan
  without the batch headers.
\<close>

definition src_ok :: "(bytes \<Rightarrow> u32) \<Rightarrow> u16 \<Rightarrow> (nat \<times> log_record) list \<Rightarrow> vlog \<Rightarrow> bool" where
  "src_ok crc seg_id recs v \<longleftrightarrow> seg_id < act_id (active v) \<and>
     (\<forall>o' r. (seg_id, o', r) \<in> set (vlog_log crc v) \<longleftrightarrow> (o', r) \<in> set recs \<and> rec_kind r \<noteq> BatchBegin)"

definition functional_recs :: "(nat \<times> log_record) list \<Rightarrow> bool" where
  "functional_recs recs \<longleftrightarrow> (\<forall>o' r r'. (o', r) \<in> set recs \<longrightarrow> (o', r') \<in> set recs \<longrightarrow> r = r')"

lemma functional_scan: "functional_recs (fst (scan_file crc fb))"
proof -
  have "record_at crc fb o' = Some r" if "(o', r) \<in> set (fst (scan_file crc fb))" for o' r
    by (rule scan_file_entry(1) [of crc fb "fst (scan_file crc fb)" "snd (scan_file crc fb)"]) (use that in simp_all)
  then show ?thesis
    unfolding functional_recs_def by (metis option.inject)
qed

lemma extends_src:
  assumes "src_ok crc seg_id recs v" and "extends crc v v' sid out"
  shows "src_ok crc seg_id recs v'" and "seg_id < sid"
  using assms by (auto simp: src_ok_def extends_def)

lemma extends_target: "extends crc v v' sid out \<Longrightarrow> segment_file v' sid \<noteq> None"
  using find_segment_mem [of crc v' "last (read_segments v')"]
  by (auto simp: extends_def segment_file_def log_wf_simps active_ok_def)

lemma index_points_located:
  assumes ok: "store_ok crc xxh3 v m" and src: "src_ok crc seg_id recs v" "functional_recs recs"
    and pt: "index_points_at v (rec_key r) seg_id o'" and r: "(o', r) \<in> set recs" and k: "rec_key r = k"
  shows "newest (keylog k (vlog_log crc v)) r" and "rec_kind r \<noteq> Tombstone" and "rec_kind r \<noteq> BatchBegin"
    and "m k = Some (rec_value r)" and "record_size r < 2 ^ 32" and "rec_ts r < clock v"
proof -
  obtain e where e: "index_get (vl_index v) k = Some e" "segment_id e = seg_id" "unat (entry_offset e) = o'"
    using pt k by (auto simp: index_points_at_def split: option.splits)
  obtain r' where r': "newest (keylog k (vlog_log crc v)) r'" "rec_kind r' \<noteq> Tombstone"
    "located xxh3 (vlog_log crc v) e r'" "m k = Some (rec_value r')"
    using ok e(1) by (auto simp: store_ok_def agree_def key_ok_def dest!: spec [of _ k])
  obtain s p where p: "(s, p, r') \<in> set (vlog_log crc v)" "e = index_entry_for xxh3 s p r'" "p < 2 ^ 32"
    using r'(3) by (auto simp: located_def)
  have "s = seg_id" "p = o'"
    using e(2,3) p(3) by (simp_all add: p(2) index_entry_for_def unat_of_nat_small)
  then have rr: "(seg_id, o', r') \<in> set (vlog_log crc v)"
    using p(1) by simp
  then have "r' = r"
    using src r by (auto simp: src_ok_def functional_recs_def)
  with r' rr show "newest (keylog k (vlog_log crc v)) r" "rec_kind r \<noteq> Tombstone" "m k = Some (rec_value r)"
    "rec_kind r \<noteq> BatchBegin" "record_size r < 2 ^ 32" "rec_ts r < clock v"
    using ok src(1) recs_okD [OF _ rr, of "clock v"] by (auto simp: src_ok_def store_ok_def)
qed

lemma relocate_data:
  assumes ext: "extends crc v w sid [(p, r)]" and ok: "store_ok crc xxh3 v m" and p: "p < 2 ^ 32" and k: "rec_key r = k"
    and r: "newest (keylog k (vlog_log crc v)) r" "rec_kind r \<noteq> Tombstone" "m k = Some (rec_value r)"
      "record_size r < 2 ^ 32" "rec_ts r < clock v"
  shows "store_ok crc xxh3 (inc_live (w\<lparr>vl_index := index_set (vl_index w) k (index_entry_for xxh3 sid p r)\<rparr>) sid n) m"
proof -
  let ?e = "index_entry_for xxh3 sid p r" and ?L = "vlog_log crc v @ [(sid, p, r)]"
  have w: "vl_index w = vl_index v" "vl_cache w = vl_cache v"
    using ext by (simp_all add: extends_def same_but_log_def)
  have a: "key_ok xxh3 (vlog_log crc v) k' (index_get (vl_index v) k') (m k')" for k'
    using ok by (simp add: store_ok_def agree_def)
  have "key_ok xxh3 ?L k (Some ?e) (m k)"
    using newest_copy [OF r(1)] r k p by (fastforce simp: key_ok_def located_def)
  moreover have "k' \<noteq> k \<Longrightarrow> key_ok xxh3 ?L k' (index_get (vl_index v) k') (m k')" for k'
    using k by (intro key_ok_other [OF a]) simp
  ultimately have "agree xxh3 ?L (index_set (vl_index v) k ?e) m"
    by (simp add: agree_def)
  then show ?thesis
    using ok r k w p by (intro extends_store [OF ext ok]) (auto simp: recs_ok_def store_ok_def split: if_splits)
qed

lemma relocate_tombstone:
  assumes ext: "extends crc v w sid [(p, r)]" and ok: "store_ok crc xxh3 v m" and p: "p < 2 ^ 32" and k: "rec_key r = k"
    and r: "r \<in> set (keylog k (vlog_log crc v))" "rec_kind r = Tombstone" "index_get (vl_index v) k = None"
  shows "store_ok crc xxh3 w m"
proof -
  let ?L = "vlog_log crc v @ [(sid, p, r)]"
  have w: "vl_index w = vl_index v" "vl_cache w = vl_cache v"
    using ext by (simp_all add: extends_def same_but_log_def)
  have a: "key_ok xxh3 (vlog_log crc v) k' (index_get (vl_index v) k') (m k')" for k'
    using ok by (simp add: store_ok_def agree_def)
  have "key_ok xxh3 ?L k None (m k)"
    using a [of k] r k deleted_copy [OF _ r(1,2)] by (simp add: key_ok_def)
  moreover have "k' \<noteq> k \<Longrightarrow> key_ok xxh3 ?L k' (index_get (vl_index v) k') (m k')" for k'
    using k by (intro key_ok_other [OF a]) simp
  ultimately have ag: "agree xxh3 ?L (vl_index v) m"
    using r(3) by (metis agree_def)
  obtain s q where sq: "(s, q, r) \<in> set (vlog_log crc v)"
    using r(1) by (auto simp: set_keylog)
  have "recs_ok (clock v) [(sid, p, r)]"
    using ok sq p recs_okD [OF _ sq, of "clock v"] by (auto simp: store_ok_def recs_ok_def)
  then show ?thesis
    using ok ag w by (intro extends_store [OF ext ok]) (auto simp: store_ok_def split: if_splits)
qed

text \<open>What a relocation step may change, and what it means that a record of the source no longer matters.\<close>

definition last_seg :: "bytes \<Rightarrow> (u16 \<times> nat \<times> log_record) list \<Rightarrow> u16 option" where
  "last_seg k L = (let M = filter (\<lambda>(s, o', r). rec_key r = k) L in if M = [] then None else Some (fst (last M)))"

definition grows :: "(bytes \<Rightarrow> u32) \<Rightarrow> u16 \<Rightarrow> vlog \<Rightarrow> vlog \<Rightarrow> bool" where
  "grows crc seg_id v v' \<longleftrightarrow>
     (\<exists>M. vlog_log crc v' = vlog_log crc v @ M \<and> (\<forall>x\<in>set M. fst x \<noteq> seg_id)) \<and>
     (\<forall>k. index_get (vl_index v') k = None \<longleftrightarrow> index_get (vl_index v) k = None) \<and>
     (\<forall>k o'. index_points_at v' k seg_id o' \<longrightarrow> index_points_at v k seg_id o') \<and> clock v' = clock v"

definition handled :: "(bytes \<Rightarrow> u32) \<Rightarrow> u16 \<Rightarrow> vlog \<Rightarrow> nat \<times> log_record \<Rightarrow> bool" where
  "handled crc seg_id v x \<longleftrightarrow>
     (case x of (o', r) \<Rightarrow>
        if rec_kind r = Tombstone
        then index_get (vl_index v) (rec_key r) \<noteq> None \<or>
          (\<exists>s q. s \<noteq> seg_id \<and> (s, q, r) \<in> set (vlog_log crc v)) \<and> last_seg (rec_key r) (vlog_log crc v) \<noteq> Some seg_id
        else \<not> index_points_at v (rec_key r) seg_id o')"

lemma last_seg_append:
  "last_seg k L \<noteq> Some i \<Longrightarrow> (\<forall>x\<in>set M. fst x \<noteq> i) \<Longrightarrow> last_seg k (L @ M) \<noteq> Some i"
  by (auto simp: last_seg_def Let_def last_append split: if_splits)
    (metis (no_types, lifting) filter_is_subset last_in_set subset_iff)+

lemma last_seg_single [simp]: "last_seg k (L @ [(s, q, r)]) = (if rec_key r = k then Some s else last_seg k L)"
  by (simp add: last_seg_def Let_def)

lemma grows_refl [simp]: "grows crc seg_id v v"
  by (simp add: grows_def)

lemma grows_trans: "grows crc seg_id u v \<Longrightarrow> grows crc seg_id v w \<Longrightarrow> grows crc seg_id u w"
  by (fastforce simp: grows_def)

lemma handled_grows: "handled crc seg_id v x \<Longrightarrow> grows crc seg_id v v' \<Longrightarrow> handled crc seg_id v' x"
  by (cases x) (auto simp: handled_def grows_def dest: last_seg_append split: if_splits)

lemma extends_grows:
  assumes "extends crc v w sid [(p, r)]" and "seg_id < sid" and "vlog_log crc v' = vlog_log crc w" and "clock v' = clock w"
    and "vl_index v' = vl_index w \<or> (\<exists>e. vl_index v' = index_set (vl_index w) k e \<and> segment_id e = sid \<and> index_get (vl_index v) k \<noteq> None)"
  shows "grows crc seg_id v v'"
  using assms by (auto simp: grows_def extends_def same_but_log_def index_points_at_def split: if_splits option.splits)

lemma relocate_ok:
  assumes ok: "store_ok crc xxh3 v m" and crc: "crc_zero_ok crc" and src: "src_ok crc seg_id recs v" "functional_recs recs"
    and x: "(o', r) \<in> set recs" and rel: "relocate crc xxh3 seg_id v (o', r) = (out, v')"
  shows "store_ok crc xxh3 v' m \<and> src_ok crc seg_id recs v' \<and> grows crc seg_id v v' \<and> (\<not> isl out \<longrightarrow> handled crc seg_id v' (o', r))"
proof -
  let ?k = "rec_key r"
  have wf: "log_wf crc v"
    using ok by (simp add: store_ok_def)
  show ?thesis
  proof (cases "rec_kind r = Tombstone")
    case T: True
    show ?thesis
    proof (cases "index_get (vl_index v) ?k = None")
      case N: True
      have rl: "(seg_id, o', r) \<in> set (vlog_log crc v)"
        using src x T by (simp add: src_ok_def)
      have rv: "record_size r < 2 ^ 32" "rec_value r = []"
        using ok recs_okD [OF _ rl, of "clock v"] T by (simp_all add: store_ok_def)
      then have fits: "rec_fits ?k []" and ro: "record_of ?k [] Tombstone (rec_ts r) = r"
        using T by (simp_all add: rec_fits_def record_size_def record_of_def)
      obtain res w where a: "append_raw crc v ?k [] Tombstone (rec_ts r) Relaxed = (res, w)"
        by (cases "append_raw crc v ?k [] Tombstone (rec_ts r) Relaxed")
      show ?thesis
      proof (cases res)
        case (Inl e)
        then show ?thesis
          using append_raw_err [OF wf a [unfolded Inl]] rel T N a ok src by (auto simp: relocate_def)
      next
        case (Inr y)
        obtain sid off n where y: "y = (sid, off, n)" by (cases y)
        obtain p where ext: "extends crc v w sid [(p, r)]" and p: "p < 2 ^ 32"
          using append_raw_extends [OF wf crc fits _ a [unfolded Inr y]] ro by auto
        note es = extends_src [OF src(1) ext]
        have v': "v' = w" "\<not> isl out"
          using rel T N a Inr y extends_target [OF ext] by (auto simp: relocate_def)
        have "store_ok crc xxh3 w m"
          using rl by (intro relocate_tombstone [OF ext ok p refl _ T N]) (auto simp: set_keylog)
        moreover have "handled crc seg_id w (o', r)"
          using ext es(2) T by (auto simp: handled_def extends_def)
        ultimately show ?thesis
          using v' es extends_grows [OF ext es(2)] by simp
      qed
    next
      case False
      then show ?thesis
        using rel T ok src by (auto simp: relocate_def handled_def)
    qed
  next
    case D: False
    show ?thesis
    proof (cases "index_points_at v ?k seg_id o'")
      case pt: True
      note l = index_points_located [OF ok src pt x refl]
      then have fits: "rec_fits ?k (rec_value r)" and ro: "record_of ?k (rec_value r) (rec_kind r) (rec_ts r) = r"
        by (simp_all add: rec_fits_def record_size_def record_of_def)
      obtain res w where a: "append_raw crc v ?k (rec_value r) (rec_kind r) (rec_ts r) Relaxed = (res, w)"
        by (cases "append_raw crc v ?k (rec_value r) (rec_kind r) (rec_ts r) Relaxed")
      show ?thesis
      proof (cases res)
        case (Inl e)
        then show ?thesis
          using append_raw_err [OF wf a [unfolded Inl]] rel D pt a ok src by (auto simp: relocate_def)
      next
        case (Inr y)
        obtain sid off n where y: "y = (sid, off, n)" by (cases y)
        obtain p where ext: "extends crc v w sid [(p, r)]" and p: "off = of_nat p" "p < 2 ^ 32" "n = of_nat (record_size r)"
          using append_raw_extends [OF wf crc fits l(3) a [unfolded Inr y]] ro by (auto simp: record_size_def)
        note es = extends_src [OF src(1) ext]
        let ?e = "index_entry_for xxh3 sid p r"
        have e: "\<lparr>fingerprint = fingerprint_of xxh3 ?k, segment_id = sid, entry_pad = 0, entry_offset = off, entry_size = n\<rparr> = ?e"
          by (simp add: index_entry_for_def p record_size_def)
        have idx: "vl_index w = vl_index v"
          using ext by (simp add: extends_def same_but_log_def)
        then have pt': "index_points_at w ?k seg_id o'"
          using pt by (simp add: index_points_at_def)
        let ?v = "inc_live (w\<lparr>vl_index := index_set (vl_index w) ?k ?e\<rparr>) sid n"
        have v': "v' = ?v" "\<not> isl out"
          using rel D pt pt' a Inr y extends_target [OF ext] e by (auto simp: relocate_def Let_def)
        have "store_ok crc xxh3 ?v m"
          by (rule relocate_data [OF ext ok p(2) refl l(1,2,4,5,6)])
        moreover have "src_ok crc seg_id recs ?v"
          using es(1) by (simp add: src_ok_def)
        moreover have "index_get (vl_index v) ?k \<noteq> None"
          using pt by (auto simp: index_points_at_def split: option.splits)
        then have "grows crc seg_id v ?v"
          by (intro extends_grows [OF ext es(2), where k = ?k]) (auto simp: index_entry_for_def)
        moreover have "handled crc seg_id ?v (o', r)"
          using es(2) D by (auto simp: handled_def index_points_at_def index_entry_for_def)
        ultimately show ?thesis
          using v' by simp
      qed
    next
      case False
      then show ?thesis
        using rel D ok src by (auto simp: relocate_def handled_def)
    qed
  qed
qed

lemma relocate_all_ok:
  assumes "store_ok crc xxh3 v m" and "crc_zero_ok crc" and "src_ok crc seg_id recs v" and "functional_recs recs"
    and "set xs \<subseteq> set recs" and "relocate_all crc xxh3 seg_id v xs = (outs, v')"
  shows "store_ok crc xxh3 v' m \<and> src_ok crc seg_id recs v' \<and> grows crc seg_id v v' \<and>
    ((\<forall>out\<in>set outs. \<not> isl out) \<longrightarrow> (\<forall>x\<in>set xs. handled crc seg_id v' x))"
  using assms
proof (induction xs arbitrary: v outs)
  case (Cons x xs)
  obtain o' r where x: "x = (o', r)" by (cases x)
  obtain out w outs' where s: "relocate crc xxh3 seg_id v (o', r) = (out, w)" "relocate_all crc xxh3 seg_id w xs = (outs', v')" "outs = out # outs'"
    using Cons.prems(6) by (auto simp: x split: prod.splits)
  have one: "store_ok crc xxh3 w m" "src_ok crc seg_id recs w" "grows crc seg_id v w" "\<not> isl out \<longrightarrow> handled crc seg_id w (o', r)"
    using relocate_ok [OF Cons.prems(1-4) _ s(1)] Cons.prems(5) by (simp_all add: x)
  have rest: "store_ok crc xxh3 v' m" "src_ok crc seg_id recs v'" "grows crc seg_id w v'"
    "(\<forall>out\<in>set outs'. \<not> isl out) \<longrightarrow> (\<forall>x\<in>set xs. handled crc seg_id v' x)"
    using Cons.IH [OF one(1) Cons.prems(2) one(2) Cons.prems(4) _ s(2)] Cons.prems(5) by simp_all
  then show ?case
    using one grows_trans [OF one(3) rest(3)] handled_grows [OF _ rest(3)] by (auto simp: s(3) x)
qed simp

subsection \<open>Dropping the source\<close>

lemma segs_log_drop: "segs_log crc (filter (\<lambda>s. rs_id s \<noteq> i) ss) = filter (\<lambda>x. fst x \<noteq> i) (segs_log crc ss)"
proof (induction ss)
  case (Cons s ss)
  have "filter (\<lambda>x. fst x \<noteq> i) (seg_log crc s) = (if rs_id s = i then [] else seg_log crc s)"
    using seg_log_sub [of _ _ _ crc s] by (auto simp: filter_id_conv filter_empty_conv)
  then show ?case
    using Cons by simp
qed simp

lemma keylog_filter_subseq: "subseq (keylog k (filter P L)) (keylog k L)"
  unfolding keylog_def by (intro subseq_filter subseq_map subseq_filter_left)

lemma newest_subseq:
  assumes "newest xs r" and "subseq ys xs" and "r \<in> set ys"
  shows "newest ys r"
proof -
  obtain pre n where xs: "xs = pre @ replicate (Suc n) r" and pre: "\<And>x. x \<in> set pre \<Longrightarrow> rec_ts x < rec_ts r"
    using assms(1) by (auto simp: newest_def)
  obtain a b where ys: "ys = a @ b" "subseq a pre" "subseq b (replicate (Suc n) r)"
    using assms(2) unfolding xs by (rule subseq_appendE)
  have a: "set a \<subseteq> set pre" and "set b \<subseteq> set (replicate (Suc n) r)"
    using ys(2,3) by (fastforce elim: list_emb_set)+
  then have b: "b = replicate (length b) r"
    by (intro replicate_eqI) (auto split: if_splits)
  have "b \<noteq> []"
    using assms(3) a pre ys(1) by auto
  then have "ys = a @ replicate (Suc (length b - 1)) r"
    using ys(1) b by (metis Suc_pred' length_greater_0_conv)
  then show ?thesis
    using a pre unfolding newest_def by blast
qed

lemma keylog_last:
  assumes "keylog k L \<noteq> []" and "last_seg k L \<noteq> Some i"
  shows "keylog k (filter (\<lambda>x. fst x \<noteq> i) L) \<noteq> [] \<and> last (keylog k (filter (\<lambda>x. fst x \<noteq> i) L)) = last (keylog k L)"
  using assms
proof (induction L rule: rev_induct)
  case (snoc x L)
  obtain s q r where x: "x = (s, q, r)" by (cases x)
  show ?case
    using snoc by (auto simp: x split: if_splits)
qed simp

lemma last_seg_tomb:
  assumes "keylog k L \<noteq> []" and "rec_kind (last (keylog k L)) = Tombstone"
  shows "\<exists>s q r. last_seg k L = Some s \<and> (s, q, r) \<in> set L \<and> rec_kind r = Tombstone \<and> rec_key r = k"
  using assms
proof (induction L rule: rev_induct)
  case (snoc x L)
  obtain s q r where x: "x = (s, q, r)" by (cases x)
  show ?case
    using snoc by (cases "rec_key r = k") (auto simp: x)
qed simp

lemma drop_key:
  assumes ok: "store_ok crc xxh3 v m" and src: "src_ok crc seg_id recs v"
    and hd: "\<And>x. x \<in> set recs \<Longrightarrow> handled crc seg_id v x"
  shows "key_ok xxh3 (filter (\<lambda>x. fst x \<noteq> seg_id) (vlog_log crc v)) k (index_get (vl_index v) k) (m k)"
proof -
  let ?L = "vlog_log crc v" and ?M = "filter (\<lambda>x. fst x \<noteq> seg_id) (vlog_log crc v)"
  have key: "key_ok xxh3 ?L k (index_get (vl_index v) k) (m k)"
    using ok by (simp add: store_ok_def agree_def)
  have inseg: "(o', r) \<in> set recs \<and> rec_kind r \<noteq> BatchBegin" if "(seg_id, o', r) \<in> set ?L" for o' r
    using src that by (simp add: src_ok_def)
  show ?thesis
  proof (cases "index_get (vl_index v) k")
    case (Some e)
    then obtain r where r: "newest (keylog k ?L) r" "rec_kind r \<noteq> Tombstone" "located xxh3 ?L e r" "m k = Some (rec_value r)"
      using key by (auto simp: key_ok_def)
    then obtain s p where p: "(s, p, r) \<in> set ?L" "e = index_entry_for xxh3 s p r" "p < 2 ^ 32" "record_size r < 2 ^ 32"
      by (auto simp: located_def)
    have k: "rec_key r = k"
      using newest_in [OF r(1)] by (simp add: set_keylog)
    have "s \<noteq> seg_id"
    proof
      assume s: "s = seg_id"
      with p(1) have "handled crc seg_id v (p, r)"
        using hd inseg by blast
      then show False
        using r(2) Some k p(3) s by (simp add: handled_def index_points_at_def p(2) index_entry_for_def unat_of_nat_small)
    qed
    with p have "located xxh3 ?M e r" and "r \<in> set (keylog k ?M)"
      using k by (auto simp: located_def set_keylog intro!: exI [of _ s] exI [of _ p])
    then show ?thesis
      using newest_subseq [OF r(1) keylog_filter_subseq] r Some by (auto simp: key_ok_def)
  next
    case None
    have del: "deleted (keylog k ?L)"
      using key None by (simp add: key_ok_def)
    have tomb: "(\<exists>s q. s \<noteq> seg_id \<and> (s, q, t) \<in> set ?L) \<and> last_seg k ?L \<noteq> Some seg_id"
      if "(seg_id, q, t) \<in> set ?L" "rec_kind t = Tombstone" "rec_key t = k" for q t
      using hd [of "(q, t)"] inseg [OF that(1)] that None by (simp add: handled_def)
    have "deleted (keylog k ?M)"
    proof (cases "keylog k ?L = []")
      case True
      then have "keylog k ?M = []"
        using keylog_filter_subseq [of k "\<lambda>x. fst x \<noteq> seg_id" ?L] by simp
      then show ?thesis
        by (simp add: deleted_def)
    next
      case False
      then obtain t where t: "t \<in> set (keylog k ?L)" "rec_kind t = Tombstone" "\<And>x. x \<in> set (keylog k ?L) \<Longrightarrow> x = t \<or> rec_ts x < rec_ts t"
        and lt: "rec_kind (last (keylog k ?L)) = Tombstone"
        using del by (auto simp: deleted_def)
      have "last_seg k ?L \<noteq> Some seg_id"
        using last_seg_tomb [OF False lt] tomb by (metis option.inject)
      note kl = keylog_last [OF False this]
      obtain s q where sq: "(s, q, t) \<in> set ?L" "rec_key t = k"
        using t(1) by (auto simp: set_keylog)
      have "t \<in> set (keylog k ?M)"
        using sq tomb [of q t] t(2) by (cases "s = seg_id") (auto simp: set_keylog)
      moreover have "x = t \<or> rec_ts x < rec_ts t" if "x \<in> set (keylog k ?M)" for x
        using t(3) that by (auto simp: set_keylog)
      ultimately show ?thesis
        using kl lt t(2) unfolding deleted_def by metis
    qed
    then show ?thesis
      using key None by (simp add: key_ok_def)
  qed
qed
subsection \<open>Whole compactions\<close>

lemma src_ok_start:
  assumes wf: "log_wf crc v" and s: "find_segment v seg_id = Some s" and "act_id (active v) \<noteq> seg_id"
  shows "src_ok crc seg_id (seg_recs crc s) v"
proof -
  have sm: "s \<in> set (read_segments v)" "rs_id s = seg_id"
    using s by (auto simp: find_segment_def find_Some_iff)
  have lt: "seg_id < act_id (active v)"
    using wf sm assms(3) by (cases "read_segments v" rule: rev_cases) (auto simp: log_wf_simps active_ok_def sorted_wrt_append)
  have "(seg_id, o', r) \<in> set (vlog_log crc v) \<longleftrightarrow> (o', r) \<in> set (seg_recs crc s) \<and> rec_kind r \<noteq> BatchBegin" for o' r
  proof
    assume "(seg_id, o', r) \<in> set (vlog_log crc v)"
    then obtain t where t: "t \<in> set (read_segments v)" "rs_id t = seg_id" "(o', r) \<in> set (seg_recs crc t)" "rec_kind r \<noteq> BatchBegin"
      by (rule vlog_logD)
    then have "t = s"
      using find_segment_mem [OF _ t(1), of crc] wf s by (simp add: log_wf_def)
    with t show "(o', r) \<in> set (seg_recs crc s) \<and> rec_kind r \<noteq> BatchBegin"
      by simp
  next
    assume "(o', r) \<in> set (seg_recs crc s) \<and> rec_kind r \<noteq> BatchBegin"
    moreover have "passes (seg_recs crc s)"
      using wf sm by (simp add: log_wf_simps)
    ultimately have "(seg_id, o', r) \<in> set (seg_log crc s)"
      using sm by (force simp: seg_log_passes)
    then show "(seg_id, o', r) \<in> set (vlog_log crc v)"
      using sm by (auto simp: segs_log_def)
  qed
  with lt show ?thesis
    by (simp add: src_ok_def)
qed

lemma drop_segment_ok:
  assumes ok: "store_ok crc xxh3 v m" and src: "src_ok crc seg_id recs v"
    and hd: "\<And>x. x \<in> set recs \<Longrightarrow> handled crc seg_id v x"
  shows "store_ok crc xxh3 (v\<lparr>read_segments := filter (\<lambda>s. rs_id s \<noteq> seg_id) (read_segments v), vl_snap := snap_remove (vl_snap v)\<rparr>) m"
proof -
  let ?segs = "filter (\<lambda>s. rs_id s \<noteq> seg_id) (read_segments v)"
  have wf: "log_wf crc v" and lt: "seg_id < act_id (active v)"
    using ok src by (simp_all add: store_ok_def src_ok_def)
  obtain pre s where segs: "read_segments v = pre @ [s]" "rs_id s = act_id (active v)"
    using wf by (cases "read_segments v" rule: rev_cases) (auto simp: log_wf_simps active_ok_def)
  have fs: "?segs = filter (\<lambda>s. rs_id s \<noteq> seg_id) pre @ [s]"
    using segs lt by auto
  have "sorted_wrt (<) (map rs_id ?segs)"
    using wf by (auto simp: log_wf_simps sorted_wrt_map intro: sorted_wrt_filter)
  then have "log_wf crc (v\<lparr>read_segments := ?segs, vl_snap := snap_remove (vl_snap v)\<rparr>)"
    using wf segs lt unfolding log_wf_simps by (auto simp: fs)
  moreover have "agree xxh3 (filter (\<lambda>x. fst x \<noteq> seg_id) (vlog_log crc v)) (vl_index v) m"
    unfolding agree_def by (intro allI drop_key [OF ok src hd])
  moreover have "recs_ok (clock v) (filter (\<lambda>x. fst x \<noteq> seg_id) (vlog_log crc v))"
    using ok by (auto simp: store_ok_def recs_ok_def)
  ultimately show ?thesis
    using ok by (auto simp: store_ok_def segs_log_drop snap_ok_def snap_read_def snap_remove_def all_recs_def)
qed

lemma sync_segments_ok: "store_ok crc xxh3 v m \<Longrightarrow> store_ok crc xxh3 (sync_segments ds v) m"
proof -
  assume ok: "store_ok crc xxh3 v m"
  let ?g = "\<lambda>s. if rs_id s \<in> set ds then s\<lparr>rs_file := sync_durable (rs_file s)\<rparr> else s"
  have g: "rs_id (?g s) = rs_id s" "pf_bytes (rs_file (?g s)) = pf_bytes (rs_file s)" for s
    by (simp_all add: sync_durable_def)
  show ?thesis
    using ok unfolding sync_segments_def store_ok_def snap_ok_def
    by (simp add: map_segs_log [of ?g, OF g] seg_same [of ?g, OF g])
qed

lemma handled_sync: "handled crc seg_id (sync_segments ds v) x = handled crc seg_id v x"
  and src_sync: "src_ok crc seg_id recs (sync_segments ds v) = src_ok crc seg_id recs v"
proof -
  let ?g = "\<lambda>s. if rs_id s \<in> set ds then s\<lparr>rs_file := sync_durable (rs_file s)\<rparr> else s"
  have g: "rs_id (?g s) = rs_id s" "pf_bytes (rs_file (?g s)) = pf_bytes (rs_file s)" for s
    by (simp_all add: sync_durable_def)
  have "vlog_log crc (sync_segments ds v) = vlog_log crc v" "vl_index (sync_segments ds v) = vl_index v"
    "active (sync_segments ds v) = active v"
    unfolding sync_segments_def by (simp_all add: seg_same [of ?g, OF g])
  then show "handled crc seg_id (sync_segments ds v) x = handled crc seg_id v x"
    and "src_ok crc seg_id recs (sync_segments ds v) = src_ok crc seg_id recs v"
    by (simp_all add: handled_def src_ok_def index_points_at_def)
qed

lemma compact_segment_ok:
  assumes ok: "store_ok crc xxh3 v m" and crc: "crc_zero_ok crc"
  shows "case compact_segment crc xxh3 v seg_id of (res, v') \<Rightarrow> store_ok crc xxh3 v' m \<and> clock v' = clock v"
proof (cases "act_id (active v) = seg_id \<or> find_segment v seg_id = None")
  case True
  then show ?thesis
    using ok by (auto simp: compact_segment_def segment_file_def)
next
  case False
  then obtain s where s: "find_segment v seg_id = Some s" "act_id (active v) \<noteq> seg_id"
    by auto
  have wf: "log_wf crc v"
    using ok by (simp add: store_ok_def)
  obtain outs w where r: "relocate_all crc xxh3 seg_id v (seg_recs crc s) = (outs, w)"
    by (cases "relocate_all crc xxh3 seg_id v (seg_recs crc s)")
  have fr: "functional_recs (seg_recs crc s)"
    unfolding seg_recs_def by (rule functional_scan)
  note ra = relocate_all_ok [OF ok crc src_ok_start [OF wf s] fr subset_refl r]
  then have w: "store_ok crc xxh3 w m" "clock w = clock v"
    by (simp_all add: grows_def)
  show ?thesis
  proof (cases "List.find isl outs")
    case None
    then have "\<forall>out\<in>set outs. \<not> isl out"
      by (simp add: find_None_iff)
    then have "\<forall>x\<in>set (seg_recs crc s). handled crc seg_id w x" "src_ok crc seg_id (seg_recs crc s) w"
      using ra by auto
    then have "store_ok crc xxh3 ((sync_segments ds w)\<lparr>read_segments := filter (\<lambda>s. rs_id s \<noteq> seg_id) (read_segments (sync_segments ds w)),
        vl_snap := snap_remove (vl_snap (sync_segments ds w))\<rparr>) m" for ds
      by (intro drop_segment_ok [OF sync_segments_ok [OF w(1)]]) (auto simp: handled_sync src_sync)
    then show ?thesis
      using s r None w(2)
      by (simp add: compact_segment_def segment_file_def Let_def seg_recs_def) (simp add: sync_segments_def)
  next
    case (Some out)
    then show ?thesis
      using s r w by (simp add: compact_segment_def segment_file_def Let_def seg_recs_def)
  qed
qed

lemma maybe_rotate_ok:
  assumes "store_ok crc xxh3 v m" and "crc_zero_ok crc" and "maybe_rotate v n = Inr v'"
  shows "store_ok crc xxh3 v' m" and "clock v' = clock v"
proof -
  have wf: "log_wf crc v"
    using assms(1) by (simp add: store_ok_def)
  note r = maybe_rotate_log [OF wf assms(2,3)]
  then have ext: "extends crc v v' (act_id (active v')) []"
    by (simp add: extends_def)
  show "store_ok crc xxh3 v' m"
    using assms(1) r(2) by (intro extends_store [OF ext assms(1)]) (simp_all add: store_ok_def same_but_log_def recs_ok_def)
  show "clock v' = clock v"
    using r(2) by (simp add: same_but_log_def)
qed

lemma maybe_compact_ok:
  assumes "store_ok crc xxh3 v m" and "crc_zero_ok crc"
  shows "case maybe_compact crc xxh3 v of (res, v') \<Rightarrow> store_ok crc xxh3 v' m \<and> clock v' = clock v"
proof (cases "pick_compaction_candidate below_live_ratio v")
  case (Some sid)
  obtain res w where "compact_segment crc xxh3 v sid = (res, w)" by (cases "compact_segment crc xxh3 v sid")
  then show ?thesis
    using compact_segment_ok [OF assms, of sid] Some by (cases res) (simp_all add: maybe_compact_def)
qed (use assms in \<open>simp add: maybe_compact_def\<close>)

lemma compact_targets_ok:
  assumes "store_ok crc xxh3 v m" and "crc_zero_ok crc"
  shows "case compact_targets crc xxh3 v ts freed of (res, v') \<Rightarrow> store_ok crc xxh3 v' m \<and> clock v' = clock v"
  using assms
proof (induction ts arbitrary: v freed)
  case (Cons t ts)
  obtain sid dead where t: "t = (sid, dead)" by (cases t)
  obtain res w where c: "compact_segment crc xxh3 v sid = (res, w)" by (cases "compact_segment crc xxh3 v sid")
  have w: "store_ok crc xxh3 w m" "clock w = clock v"
    using compact_segment_ok [OF Cons.prems, of sid] by (simp_all add: c)
  then show ?case
    using Cons.IH [OF w(1) Cons.prems(2), of "freed + dead"] by (cases res) (simp_all add: t c)
qed simp

lemma reclaim_all_dead_ok:
  assumes "store_ok crc xxh3 v m" and "crc_zero_ok crc"
  shows "case reclaim_all_dead crc xxh3 v of (res, v') \<Rightarrow> store_ok crc xxh3 v' m \<and> clock v' = clock v"
proof (cases "maybe_rotate v (max_seg_size v)")
  case (Inr w)
  note r = maybe_rotate_ok [OF assms Inr]
  show ?thesis
    using compact_targets_ok [OF r(1) assms(2)] r(2) by (simp add: reclaim_all_dead_def Inr Let_def)
qed (use assms in \<open>simp add: reclaim_all_dead_def\<close>)

subsection \<open>Snapshots\<close>

lemma index_sets: "index_get (foldl (\<lambda>idx (k, e). index_set idx k e) idx xs) = index_get idx ++ map_of (rev xs)"
  by (induction xs arbitrary: idx) (auto simp: fun_eq_iff map_add_def split: option.splits)

lemma map_of_rev: "distinct (map fst xs) \<Longrightarrow> map_of (rev xs) = map_of xs"
  by (simp add: map_of_inject_set rev_map [symmetric])

lemma index_entries_ok:
  assumes "store_ok crc xxh3 v m"
  shows "list_all snap_entry_ok (index_iter (vl_index v))"
    and "list_all (\<lambda>(k, e). segment_id e \<in> seg_ids v) (vl_index v)"
proof -
  have "snap_entry_ok (k, e) \<and> segment_id e \<in> seg_ids v" if "(k, e) \<in> set (vl_index v)" for k e
  proof -
    have "index_get (vl_index v) k = Some e"
      using that assms by (simp add: store_ok_def index_ok_def index_get_def)
    moreover have "key_ok xxh3 (vlog_log crc v) k (index_get (vl_index v) k) (m k)"
      using assms by (simp add: store_ok_def agree_def)
    ultimately obtain r where r: "newest (keylog k (vlog_log crc v)) r" "located xxh3 (vlog_log crc v) e r"
      by (auto simp: key_ok_def)
    have "rec_key r = k"
      using newest_in [OF r(1)] by (simp add: set_keylog)
    then show ?thesis
      using r(2) padded_record_size_bounds(1) [of "length k" "length (rec_value r)"]
      by (auto simp: located_def snap_entry_ok_def index_entry_for_def record_size_def seg_ids_def elim!: vlog_logD)
  qed
  then show "list_all snap_entry_ok (index_iter (vl_index v))"
    and "list_all (\<lambda>(k, e). segment_id e \<in> seg_ids v) (vl_index v)"
    by (auto simp: list_all_iff index_iter_def)
qed

lemma write_snapshot_ok:
  assumes ok: "store_ok crc xxh3 v m" and n: "vlog_len v < 2 ^ 32"
  shows "store_ok crc xxh3 (write_snapshot crc v) m"
proof -
  let ?sn = "\<lparr>snap_hwm = act_id (active v), snap_max_ts = clock v, snap_entries = vl_index v\<rparr>"
  have "snap_read crc (vl_snap (write_snapshot crc v)) = Some ?sn"
    using snap_decode_encode [OF index_entries_ok(1) [OF ok]] n
    by (simp add: write_snapshot_def snap_write_def snap_write_states_def Let_def snap_read_def index_iter_def vlog_len_def index_len_def)
  moreover have "snap_agree ?sn (vlog_log crc v) (vl_index v)"
  proof -
    have "index_get (snap_index ?sn) = index_get (vl_index v)"
      using ok index_sets [of index_new "vl_index v"] map_of_rev [of "vl_index v"]
      by (simp add: snap_index_def store_ok_def index_ok_def) (simp add: index_get_def fun_eq_iff)
    then show ?thesis
      using ok by (auto simp: snap_agree_def store_ok_def dest!: recs_okD(1))
  qed
  ultimately have "snap_ok crc (write_snapshot crc v)"
    using index_entries_ok(2) [OF ok] by (simp add: snap_ok_def write_snapshot_def)
  then show ?thesis
    using ok by (simp add: store_ok_def write_snapshot_def)
qed

end
