(* ===== verification/Core_Recover.thy ===== *)
theory Core_Recover
  imports Core_Compact
begin

text \<open>
  Recovery: opening the directory a store leaves behind yields a store for the same map, whether the
  index snapshot is used or every segment is scanned, and whatever undecodable bytes a crash left after
  the last complete record.
\<close>

subsection \<open>The recovery loops\<close>

definition seg_dir :: "read_segment list \<Rightarrow> snap_dir \<Rightarrow> store_dir" where
  "seg_dir segs sd = \<lparr>sd_files = map (\<lambda>s. (segment_name (rs_id s), rs_file s)) segs, sd_snap = sd\<rparr>"

definition dir_of :: "vlog \<Rightarrow> store_dir" where
  "dir_of v = seg_dir (read_segments v) (vl_snap v)"

definition reopened :: "(bytes \<Rightarrow> u32) \<Rightarrow> nat \<Rightarrow> read_segment \<Rightarrow> read_segment" where
  "reopened crc max_size s =
    s\<lparr>rs_file := pf_preallocate (pf_truncate (rs_file s) (snd (scan_file crc (pf_bytes (rs_file s))))) max_size\<rparr>"

definition log_fold :: "(u16 \<Rightarrow> 'w \<Rightarrow> nat \<times> log_record \<Rightarrow> 'w) \<Rightarrow> 'w \<Rightarrow> (u16 \<times> nat \<times> log_record) list \<Rightarrow> 'w" where
  "log_fold app = foldl (\<lambda>w (i, o', r). app i w (o', r))"

definition scan_max :: "(bytes \<Rightarrow> u32) \<Rightarrow> u64 \<Rightarrow> read_segment list \<Rightarrow> u64" where
  "scan_max crc = foldl (\<lambda>t s. scan_max_ts t (seg_recs crc s))"

lemma log_fold_Nil [simp]: "log_fold app w [] = w"
  by (simp add: log_fold_def)

lemma log_fold_append [simp]: "log_fold app w (L @ M) = log_fold app (log_fold app w L) M"
  by (simp add: log_fold_def)

lemma log_fold_seg: "log_fold app w (seg_log crc s) = foldl (app (rs_id s)) w (snd (gate_run gate_new (seg_recs crc s)))"
proof -
  have "log_fold app w (map (\<lambda>(off, r). (i, off, r)) xs) = foldl (app i) w xs" for i xs w
    by (induction xs arbitrary: w) (auto simp: log_fold_def)
  then show ?thesis
    by (simp add: seg_log_def)
qed

lemma recover_segment_eff:
  "recover_segment crc app max_size last_id s (w, t, u) =
    (if Some (rs_id s) = last_id then reopened crc max_size s else s, log_fold app w (seg_log crc s),
     scan_max crc t [s], if Some (rs_id s) = last_id then Some (snd (scan_file crc (pf_bytes (rs_file s)))) else u)"
  by (simp add: recover_segment_def log_fold_seg scan_max_def reopened_def seg_recs_def Let_def split: prod.split)

lemma recover_segments_pre:
  assumes "\<And>s. s \<in> set segs \<Longrightarrow> Some (rs_id s) \<noteq> last_id"
  shows "recover_segments crc app max_size last_id skip segs (w, t, u) =
    (segs, log_fold app w (segs_log crc (filter (\<lambda>s. \<not> skip (rs_id s)) segs)),
     scan_max crc t (filter (\<lambda>s. \<not> skip (rs_id s)) segs), u)"
  using assms
  by (induction segs arbitrary: w t u) (auto simp: recover_segment_eff scan_max_def)

lemma recover_segments_append:
  "recover_segments crc app max_size last_id skip (ss @ ts) acc =
    (case recover_segments crc app max_size last_id skip ss acc of (ss', acc) \<Rightarrow>
     case recover_segments crc app max_size last_id skip ts acc of (ts', acc) \<Rightarrow> (ss' @ ts', acc))"
  by (induction ss arbitrary: acc) (auto split: prod.split)

lemma recover_segments_all:
  assumes "distinct (map rs_id (pre @ [s]))" and "\<not> skip (rs_id s)"
  shows "recover_segments crc app max_size (Some (rs_id s)) skip (pre @ [s]) (w, t, u) =
    (pre @ [reopened crc max_size s], log_fold app w (segs_log crc (filter (\<lambda>s. \<not> skip (rs_id s)) (pre @ [s]))),
     scan_max crc t (filter (\<lambda>s. \<not> skip (rs_id s)) (pre @ [s])), Some (snd (scan_file crc (pf_bytes (rs_file s)))))"
proof -
  have "recover_segments crc app max_size (Some (rs_id s)) skip pre (w, t, u) =
    (pre, log_fold app w (segs_log crc (filter (\<lambda>s. \<not> skip (rs_id s)) pre)), scan_max crc t (filter (\<lambda>s. \<not> skip (rs_id s)) pre), u)"
    using assms(1) by (intro recover_segments_pre) (fastforce simp: image_iff)
  then show ?thesis
    using assms(2) by (simp add: recover_segments_append recover_segment_eff scan_max_def)
qed

text \<open>Timestamps: the maximum bounds every scanned record and is one of them or the start.\<close>

lemma scan_max_ts_bounds:
  "t \<le> scan_max_ts t recs \<and> (\<forall>x\<in>set recs. rec_ts (snd x) \<le> scan_max_ts t recs) \<and>
    (scan_max_ts t recs = t \<or> (\<exists>x\<in>set recs. scan_max_ts t recs = rec_ts (snd x)))"
proof (induction recs arbitrary: t)
  case (Cons x recs)
  obtain o' r where x: "x = (o', r)" by (cases x)
  have "scan_max_ts t (x # recs) = scan_max_ts (max t (rec_ts r)) recs"
    by (simp add: scan_max_ts_def x)
  with Cons [of "max t (rec_ts r)"] show ?case
    by (auto simp: x max_def split: if_splits)
qed (simp add: scan_max_ts_def)

lemma scan_max_bounds:
  "t \<le> scan_max crc t segs \<and> (\<forall>s\<in>set segs. \<forall>x\<in>set (seg_recs crc s). rec_ts (snd x) \<le> scan_max crc t segs) \<and>
    (scan_max crc t segs = t \<or> (\<exists>s\<in>set segs. \<exists>x\<in>set (seg_recs crc s). scan_max crc t segs = rec_ts (snd x)))"
proof (induction segs arbitrary: t)
  case (Cons s segs)
  have "scan_max crc t (s # segs) = scan_max crc (scan_max_ts t (seg_recs crc s)) segs"
    by (simp add: scan_max_def)
  with Cons [of "scan_max_ts t (seg_recs crc s)"] scan_max_ts_bounds [of t "seg_recs crc s"] show ?case
    by (auto intro: order_trans; force)
qed (simp add: scan_max_def)

subsection \<open>The two index reconstructions\<close>

lemma winners_fold:
  assumes "distinct (map fst ws)"
  shows "distinct (map fst (log_fold (apply_newest xxh3) ws L))"
  using assms
  by (induction L arbitrary: ws) (auto simp: log_fold_def apply_newest_def AList.distinct_update)

definition winner_ok :: "(bytes \<Rightarrow> u64) \<Rightarrow> (u16 \<times> nat \<times> log_record) list \<Rightarrow> winners \<Rightarrow> bytes \<Rightarrow> bool" where
  "winner_ok xxh3 L ws k \<longleftrightarrow>
    (case map_of ws k of
       None \<Rightarrow> keylog k L = []
     | Some (t, kd, e) \<Rightarrow> \<exists>s o' r. (s, o', r) \<in> set L \<and> rec_key r = k \<and> t = rec_ts r \<and> kd = rec_kind r \<and>
         e = index_entry_for xxh3 s o' r \<and> (\<forall>x\<in>set (keylog k L). rec_ts x \<le> rec_ts r))"

lemma winner_step:
  assumes "winner_ok xxh3 L ws k"
  shows "winner_ok xxh3 (L @ [(s, o', r)]) (apply_newest xxh3 s ws (o', r)) k"
proof (cases "rec_key r = k")
  case k: True
  show ?thesis
  proof (cases "map_of ws k")
    case None
    then show ?thesis
      using assms k by (auto simp: winner_ok_def apply_newest_def amap.lookup_insert)
  next
    case (Some w)
    obtain t kd e where w: "w = (t, kd, e)" by (cases w)
    with Some assms obtain s1 o1 r1 where r1: "(s1, o1, r1) \<in> set L" "rec_key r1 = k" "t = rec_ts r1" "kd = rec_kind r1"
      "e = index_entry_for xxh3 s1 o1 r1" "\<And>x. x \<in> set (keylog k L) \<Longrightarrow> rec_ts x \<le> rec_ts r1"
      by (auto simp: winner_ok_def)
    show ?thesis
    proof (cases "rec_ts r > rec_ts r1")
      case True
      then have "\<And>x. x \<in> set (keylog k L) \<Longrightarrow> rec_ts x \<le> rec_ts r"
        using r1(6) by (meson less_imp_le order_trans)
      with True show ?thesis
        using Some w r1(3) k by (auto simp: winner_ok_def apply_newest_def amap.lookup_insert)
    next
      case False
      then show ?thesis
        using Some w r1 k by (auto simp: winner_ok_def apply_newest_def intro!: exI [of _ s1] exI [of _ o1] exI [of _ r1])
    qed
  qed
next
  case False
  then have "map_of (apply_newest xxh3 s ws (o', r)) k = map_of ws k"
    by (simp add: apply_newest_def amap.lookup_insert)
  with assms False show ?thesis
    by (auto simp: winner_ok_def split: option.splits; blast)
qed

lemma winner_fold: "winner_ok xxh3 L (log_fold (apply_newest xxh3) [] L) k"
proof (induction L rule: rev_induct)
  case (snoc x L)
  obtain s o' r where x: "x = (s, o', r)" by (cases x)
  have "log_fold (apply_newest xxh3) [] (L @ [x]) = apply_newest xxh3 s (log_fold (apply_newest xxh3) [] L) (o', r)"
    by (simp add: x) (simp add: log_fold_def)
  then show ?case
    using winner_step [OF snoc, of s o' r] by (simp add: x)
qed (simp add: winner_ok_def)

lemma index_of_winners_get:
  assumes "distinct (map fst ws)"
  shows "index_get (index_of_winners ws) k =
    (case map_of ws k of Some (t, kd, e) \<Rightarrow> if kd \<noteq> Tombstone then Some e else None | None \<Rightarrow> None)"
proof -
  have "index_get (foldl (\<lambda>idx (key, ts, kind, e). if kind \<noteq> Tombstone then index_set idx key e else idx) idx ws) k =
    (case map_of ws k of Some (t, kd, e) \<Rightarrow> if kd \<noteq> Tombstone then Some e else index_get idx k | None \<Rightarrow> index_get idx k)" for idx
    using assms
  proof (induction ws arbitrary: idx)
    case (Cons x ws)
    obtain k' t kd e where x: "x = (k', t, kd, e)" by (cases x)
    have "k' = k \<Longrightarrow> map_of ws k = None"
      using Cons.prems by (auto simp: x map_of_eq_None_iff)
    then show ?case
      using Cons by (auto simp: x split: option.splits)
  qed simp
  then show ?thesis
    by (auto simp: index_of_winners_def split: option.split)
qed

lemma index_of_winners_ok: "index_ok (index_of_winners ws)"
proof -
  have "index_ok idx \<Longrightarrow> index_ok (foldl (\<lambda>idx (key, ts, kind, e). if kind \<noteq> Tombstone then index_set idx key e else idx) idx ws)" for idx
    by (induction ws arbitrary: idx) auto
  then show ?thesis
    by (simp add: index_of_winners_def)
qed

lemma full_scan_agree:
  assumes ag: "agree xxh3 L idx m" and ro: "recs_ok c L"
  shows "agree xxh3 L (index_of_winners (log_fold (apply_newest xxh3) [] L)) m"
  unfolding agree_def
proof (rule allI)
  fix k
  let ?ws = "log_fold (apply_newest xxh3) [] L"
  have key: "key_ok xxh3 L k (index_get idx k) (m k)"
    using ag by (simp add: agree_def)
  have get: "index_get (index_of_winners ?ws) k =
    (case map_of ?ws k of Some (t, kd, e) \<Rightarrow> if kd \<noteq> Tombstone then Some e else None | None \<Rightarrow> None)"
    by (rule index_of_winners_get) (simp add: winners_fold)
  have win: "winner_ok xxh3 L ?ws k"
    by (rule winner_fold)
  show "key_ok xxh3 L k (index_get (index_of_winners ?ws) k) (m k)"
  proof (cases "map_of ?ws k")
    case None
    then have "keylog k L = []"
      using win by (simp add: winner_ok_def)
    then show ?thesis
      using key None get by (auto simp: key_ok_def newest_def split: option.splits)
  next
    case (Some w)
    obtain t kd e where w: "w = (t, kd, e)" by (cases w)
    obtain s o' r where r: "(s, o', r) \<in> set L" "rec_key r = k" "kd = rec_kind r" "e = index_entry_for xxh3 s o' r"
      "\<And>x. x \<in> set (keylog k L) \<Longrightarrow> rec_ts x \<le> rec_ts r"
      using win Some w by (auto simp: winner_ok_def)
    have rk: "r \<in> set (keylog k L)"
      using r(1,2) by (auto simp: set_keylog)
    have loc: "located xxh3 L e r"
      using r(1,4) recs_okD [OF ro r(1)] by (auto simp: located_def)
    show ?thesis
    proof (cases "index_get idx k")
      case None
      then obtain u where "u \<in> set (keylog k L)" "rec_kind u = Tombstone" "\<And>x. x \<in> set (keylog k L) \<Longrightarrow> x = u \<or> rec_ts x < rec_ts u"
        using key rk by (auto simp: key_ok_def deleted_def)
      then have "r = u"
        using r(5) rk by (meson leD)
      with \<open>rec_kind u = Tombstone\<close> show ?thesis
        using key None Some w r(3) get by (simp add: key_ok_def)
    next
      case (Some e')
      then obtain u where u: "newest (keylog k L) u" "rec_kind u \<noteq> Tombstone" "m k = Some (rec_value u)"
        using key by (auto simp: key_ok_def)
      then have "r = u"
        using newest_le [OF u(1) rk] r(5) [OF newest_in [OF u(1)]] by (meson leD)
      with u loc show ?thesis
        using \<open>map_of ?ws k = Some w\<close> w r(3) get by (auto simp: key_ok_def)
    qed
  qed
qed

lemma apply_last_get:
  "index_get (apply_last xxh3 s idx (o', r)) k =
    (if rec_key r = k then (if rec_kind r = Tombstone then None else Some (index_entry_for xxh3 s o' r)) else index_get idx k)"
  by (simp add: apply_last_def)

lemma last_fold:
  "index_get (log_fold (apply_last xxh3) idx M) k =
    (let F = filter (\<lambda>(s, o', r). rec_key r = k) M in
     if F = [] then index_get idx k
     else (case last F of (s, o', r) \<Rightarrow> if rec_kind r = Tombstone then None else Some (index_entry_for xxh3 s o' r)))"
proof (induction M rule: rev_induct)
  case (snoc x M)
  obtain s o' r where x: "x = (s, o', r)" by (cases x)
  have "log_fold (apply_last xxh3) idx (M @ [x]) = apply_last xxh3 s (log_fold (apply_last xxh3) idx M) (o', r)"
    by (simp add: x) (simp add: log_fold_def)
  then show ?case
    using snoc by (simp add: x apply_last_get Let_def del: log_fold_append)
qed simp

lemma last_fold_ok: "index_ok idx \<Longrightarrow> index_ok (log_fold (apply_last xxh3) idx M)"
  by (induction M arbitrary: idx) (auto simp: log_fold_def apply_last_def)

lemma snap_index_ok: "index_ok (snap_index sn)"
proof -
  have "index_ok idx \<Longrightarrow> index_ok (foldl (\<lambda>idx (key, e). index_set idx key e) idx xs)" for idx xs
    by (induction xs arbitrary: idx) auto
  then show ?thesis
    by (simp add: snap_index_def)
qed

lemma snap_path_agree:
  assumes ag: "agree xxh3 L idx m" and ro: "recs_ok c L" and sn: "snap_agree sn L idx"
    and L: "L = A @ B" "\<And>x. x \<in> set A \<Longrightarrow> fst x < snap_hwm sn" "\<And>x. x \<in> set B \<Longrightarrow> \<not> fst x < snap_hwm sn"
  shows "agree xxh3 L (log_fold (apply_last xxh3) (snap_index sn) B) m"
    and "snap_agree sn L (log_fold (apply_last xxh3) (snap_index sn) B)"
proof -
  let ?idx = "log_fold (apply_last xxh3) (snap_index sn) B"
  have same: "index_get ?idx k = index_get idx k" "index_get ?idx k = index_get (snap_index sn) k"
    if "filter (\<lambda>(s, o', r). rec_key r = k) B = []" for k
  proof -
    have "\<forall>(s, o', r)\<in>set L. rec_key r = k \<longrightarrow> s < snap_hwm sn"
      using that L by (fastforce simp: filter_empty_conv)
    then show "index_get ?idx k = index_get idx k" "index_get ?idx k = index_get (snap_index sn) k"
      using sn that by (simp_all add: snap_agree_def last_fold)
  qed
  have "key_ok xxh3 L k (index_get ?idx k) (m k)" for k
  proof (cases "filter (\<lambda>(s, o', r). rec_key r = k) B = []")
    case True
    then show ?thesis
      using same [OF True] ag by (simp add: agree_def)
  next
    case False
    have key: "key_ok xxh3 L k (index_get idx k) (m k)"
      using ag by (simp add: agree_def)
    obtain s o' r where r: "last (filter (\<lambda>(s, o', r). rec_key r = k) B) = (s, o', r)"
      by (cases "last (filter (\<lambda>(s, o', r). rec_key r = k) B)")
    then have rB: "(s, o', r) \<in> set B" "rec_key r = k"
      using last_in_set [OF False] by auto
    have kl: "keylog k L = map (snd \<circ> snd) (filter (\<lambda>(s, o', r). rec_key r = k) (A @ B))"
      by (simp add: L(1) keylog_def filter_map comp_def case_prod_unfold)
    then have last: "keylog k L \<noteq> []" "last (keylog k L) = r"
      using False r by (simp_all add: last_map last_append)
    have "(s, o', r) \<in> set L"
      using rB L(1) by simp
    then have loc: "located xxh3 L (index_entry_for xxh3 s o' r) r"
      using recs_okD [OF ro] by (fastforce simp: located_def)
    have get: "index_get ?idx k = (if rec_kind r = Tombstone then None else Some (index_entry_for xxh3 s o' r))"
      using False r by (simp add: last_fold)
    show ?thesis
    proof (cases "index_get idx k")
      case None
      then show ?thesis
        using key last get by (auto simp: key_ok_def deleted_def)
    next
      case (Some e)
      then obtain u where u: "newest (keylog k L) u" "rec_kind u \<noteq> Tombstone" "m k = Some (rec_value u)"
        using key by (auto simp: key_ok_def)
      then have "u = r"
        using last by (auto simp: newest_def simp del: replicate.simps)
      with u loc show ?thesis
        using get by (auto simp: key_ok_def)
    qed
  qed
  then show "agree xxh3 L ?idx m"
    by (simp add: agree_def)
  have "filter (\<lambda>(s, o', r). rec_key r = k) B = []"
    if "\<forall>(s, o', r)\<in>set L. rec_key r = k \<longrightarrow> s < snap_hwm sn" for k
    using that L(1,3) by (fastforce simp: filter_empty_conv)
  then show "snap_agree sn L ?idx"
    using sn same(2) by (simp add: snap_agree_def)
qed

subsection \<open>Opening\<close>

lemma list_segments_dir:
  assumes "sorted_wrt (<) (map rs_id segs)"
  shows "list_segments (map fst (sd_files (seg_dir segs sd))) = map rs_id segs"
proof -
  have "map fst (sd_files (seg_dir segs sd)) = map segment_name (map rs_id segs)"
    by (simp add: seg_dir_def)
  then show ?thesis
    using assms list_segments_names [of "map rs_id segs"] by (simp only: strict_sorted_iff sorted_sort_id)
qed

lemma open_segments_dir:
  assumes "sorted_wrt (<) (map rs_id segs)"
  shows "open_segments (seg_dir segs sd) (map rs_id segs) = Inr (map (\<lambda>s. s\<lparr>rs_live := 0\<rparr>) segs)"
proof -
  have "distinct (map fst (sd_files (seg_dir segs sd)))"
    using assms segment_name_inj by (auto simp: seg_dir_def strict_sorted_iff distinct_map comp_def inj_on_def)
  then have "map_of (sd_files (seg_dir segs sd)) (segment_name (rs_id s)) = Some (rs_file s)" if "s \<in> set segs" for s
    using that by (intro map_of_is_SomeI) (auto simp: seg_dir_def)
  then show ?thesis
    by (auto simp: open_segments_def list_all_iff)
qed

lemma sorted_split:
  fixes h :: u16
  assumes "sorted_wrt (<) (map rs_id segs)"
  shows "segs = filter (\<lambda>s. rs_id s < h) segs @ filter (\<lambda>s. \<not> rs_id s < h) segs"
  using assms
proof (induction segs)
  case (Cons s segs)
  show ?case
  proof (cases "rs_id s < h")
    case False
    then have "\<forall>t\<in>set segs. \<not> rs_id t < h"
      using Cons.prems by (auto dest: less_trans)
    then show ?thesis
      using False by (simp add: filter_empty_conv filter_id_conv)
  qed (use Cons in simp)
qed simp

lemma reopened_scan:
  assumes "crc_zero_ok crc"
  shows "scan_file crc (pf_bytes (rs_file (reopened crc n s))) = scan_file crc (pf_bytes (rs_file s))"
    and "zero_tail (snd (scan_file crc (pf_bytes (rs_file s)))) (pf_bytes (rs_file (reopened crc n s)))"
    and "rs_id (reopened crc n s) = rs_id s" and "seg_recs crc (reopened crc n s) = seg_recs crc s"
    and "seg_log crc (reopened crc n s) = seg_log crc s"
proof -
  let ?fb = "pf_bytes (rs_file s)"
  obtain recs e where sc: "scan_file crc ?fb = (recs, e)" by (cases "scan_file crc ?fb")
  have "e \<le> length ?fb"
    by (rule scan_file_bounds [OF sc])
  then have "pf_bytes (rs_file (reopened crc n s)) = take e ?fb @ replicate (n - e) 0"
    by (simp add: reopened_def sc pf_truncate_def pf_preallocate_def)
  with scan_file_truncate [OF sc assms] show a: "scan_file crc (pf_bytes (rs_file (reopened crc n s))) = scan_file crc ?fb"
    and "zero_tail (snd (scan_file crc ?fb)) (pf_bytes (rs_file (reopened crc n s)))"
    by (simp_all add: sc)
  show b: "rs_id (reopened crc n s) = rs_id s"
    by (simp add: reopened_def)
  show c: "seg_recs crc (reopened crc n s) = seg_recs crc s"
    by (simp add: seg_recs_def a)
  show "seg_log crc (reopened crc n s) = seg_log crc s"
    by (simp add: seg_log_def b c)
qed

text \<open>
  \<open>recoverable\<close> collects what a directory must satisfy: the gated log of its segments agrees with the
  map through some index, and a usable snapshot is consistent with that log.
\<close>

definition recoverable ::
  "(bytes \<Rightarrow> u32) \<Rightarrow> (bytes \<Rightarrow> u64) \<Rightarrow> u64 \<Rightarrow> read_segment list \<Rightarrow> snap_dir \<Rightarrow> index \<Rightarrow> (bytes \<Rightarrow> bytes option) \<Rightarrow> bool" where
  "recoverable crc xxh3 c segs sd idx m \<longleftrightarrow> segs \<noteq> [] \<and> sorted_wrt (<) (map rs_id segs) \<and> c \<noteq> - 1 \<and>
     agree xxh3 (segs_log crc segs) idx m \<and> recs_ok c (segs_log crc segs) \<and>
     (\<forall>s\<in>set segs. \<forall>x\<in>set (seg_recs crc s). rec_ts (snd x) \<noteq> - 1) \<and>
     (\<forall>sn. snap_read crc sd = Some sn \<longrightarrow> snap_hwm sn \<le> rs_id (last segs) \<and> snap_max_ts sn \<le> c \<and>
        snap_agree sn (segs_log crc segs) idx)"

lemma segs_log_seg: "x \<in> set (segs_log crc ss) \<Longrightarrow> \<exists>s\<in>set ss. fst x = rs_id s \<and> snd x \<in> set (seg_recs crc s)"
  using seg_log_sub by (cases x) (fastforce simp: segs_log_def)

lemma recs_ok_clock:
  assumes "recs_ok c L" and "\<And>s o' r. (s, o', r) \<in> set L \<Longrightarrow> rec_ts r \<le> t" and "t \<noteq> - 1"
  shows "recs_ok (t + 1) L"
proof -
  have "rec_ts r < t + 1" if "(s, o', r) \<in> set L" for s o' r
    using assms(2) [OF that] word_less_Suc [OF assms(3)] by (rule le_less_trans)
  then show ?thesis
    using assms(1) by (auto simp: recs_ok_def)
qed

lemma recover_full_ok:
  assumes rec: "recoverable crc xxh3 c (pre @ [s]) sd idx m"
  obtains idx' t where
    "recover_index crc xxh3 n (map rs_id (pre @ [s])) None (pre @ [s])
      = (pre @ [reopened crc n s], idx', t, Some (snd (scan_file crc (pf_bytes (rs_file s)))))"
    and "agree xxh3 (segs_log crc (pre @ [s])) idx' m" and "index_ok idx'"
    and "recs_ok (t + 1) (segs_log crc (pre @ [s]))"
proof -
  let ?segs = "pre @ [s]" and ?L = "segs_log crc (pre @ [s])" and ?t = "scan_max crc 0 (pre @ [s])"
  let ?ws = "log_fold (apply_newest xxh3) [] ?L"
  have d: "distinct (map rs_id ?segs)" and ag: "agree xxh3 ?L idx m" and ro: "recs_ok c ?L"
    using rec by (simp_all add: recoverable_def strict_sorted_iff)
  have tb: "?t = 0 \<or> (\<exists>s\<in>set ?segs. \<exists>x\<in>set (seg_recs crc s). ?t = rec_ts (snd x))"
    "\<And>s x. s \<in> set ?segs \<Longrightarrow> x \<in> set (seg_recs crc s) \<Longrightarrow> rec_ts (snd x) \<le> ?t"
    using scan_max_bounds [of 0 crc ?segs] by blast+
  have ne: "\<And>s x. s \<in> set ?segs \<Longrightarrow> x \<in> set (seg_recs crc s) \<Longrightarrow> rec_ts (snd x) \<noteq> - 1"
    using rec unfolding recoverable_def by blast
  have "?t \<noteq> - 1"
  proof -
    have "(0 :: u64) \<noteq> - 1"
      by simp
    then show ?thesis
      using tb(1) ne by metis
  qed
  moreover have "rec_ts r \<le> ?t" if "(i, o', r) \<in> set ?L" for i o' r
    using segs_log_seg [OF that] tb(2) by fastforce
  ultimately have "recs_ok (?t + 1) ?L"
    by (intro recs_ok_clock [OF ro])
  moreover have "recover_index crc xxh3 n (map rs_id ?segs) None ?segs
      = (pre @ [reopened crc n s], index_of_winners ?ws, ?t, Some (snd (scan_file crc (pf_bytes (rs_file s)))))"
    using recover_segments_all [OF d, where skip = "\<lambda>_. False" and app = "apply_newest xxh3"] by (simp add: recover_index_def)
  ultimately show thesis
    using that full_scan_agree [OF ag ro] index_of_winners_ok by blast
qed

lemma recover_snap_ok:
  assumes rec: "recoverable crc xxh3 c (pre @ [s]) sd idx m" and sn: "snap_read crc sd = Some sn"
  obtains idx' t where
    "recover_index crc xxh3 n (map rs_id (pre @ [s])) (Some sn) (pre @ [s])
      = (pre @ [reopened crc n s], idx', t, Some (snd (scan_file crc (pf_bytes (rs_file s)))))"
    and "agree xxh3 (segs_log crc (pre @ [s])) idx' m" and "index_ok idx'"
    and "recs_ok (t + 1) (segs_log crc (pre @ [s]))" and "snap_agree sn (segs_log crc (pre @ [s])) idx'"
    and "snap_max_ts sn \<le> t + 1"
proof -
  let ?segs = "pre @ [s]" and ?L = "segs_log crc (pre @ [s])"
  let ?suf = "filter (\<lambda>s. \<not> rs_id s < snap_hwm sn) ?segs" and ?pre = "filter (\<lambda>s. rs_id s < snap_hwm sn) ?segs"
  let ?t = "scan_max crc (snap_max_ts sn) ?suf" and ?idx = "log_fold (apply_last xxh3) (snap_index sn) (segs_log crc ?suf)"
  have d: "distinct (map rs_id ?segs)" and so: "sorted_wrt (<) (map rs_id ?segs)" and ag: "agree xxh3 ?L idx m" and ro: "recs_ok c ?L"
    and h: "snap_hwm sn \<le> rs_id s" "snap_max_ts sn \<le> c" "snap_agree sn ?L idx" "c \<noteq> - 1"
    using rec sn by (simp_all add: recoverable_def strict_sorted_iff)
  then have nh: "\<not> rs_id s < snap_hwm sn"
    by (simp add: not_less)
  have L: "?L = segs_log crc ?pre @ segs_log crc ?suf"
    using sorted_split [OF so, of "snap_hwm sn"] by (metis segs_log_simps(3))
  have pre: "fst x < snap_hwm sn" if "x \<in> set (segs_log crc ?pre)" for x
    using segs_log_seg [OF that] by (auto simp del: filter.simps filter_append)
  have suf: "\<not> fst x < snap_hwm sn" if "x \<in> set (segs_log crc ?suf)" for x
    using segs_log_seg [OF that] by (auto simp del: filter.simps filter_append)
  note ags = snap_path_agree [OF ag ro h(3) L pre suf]
  have tb: "snap_max_ts sn \<le> ?t" "\<And>s x. s \<in> set ?suf \<Longrightarrow> x \<in> set (seg_recs crc s) \<Longrightarrow> rec_ts (snd x) \<le> ?t"
    "?t = snap_max_ts sn \<or> (\<exists>s\<in>set ?suf. \<exists>x\<in>set (seg_recs crc s). ?t = rec_ts (snd x))"
    using scan_max_bounds [of "snap_max_ts sn" crc ?suf] by blast+
  have "snap_max_ts sn \<noteq> - 1"
    using h(2,4) by (metis word_order.extremum_unique)
  moreover have "\<And>s x. s \<in> set ?suf \<Longrightarrow> x \<in> set (seg_recs crc s) \<Longrightarrow> rec_ts (snd x) \<noteq> - 1"
    using rec unfolding recoverable_def set_filter by blast
  ultimately have tn: "?t \<noteq> - 1"
    using tb(3) by metis
  have "rec_ts r \<le> ?t" if m: "(i, o', r) \<in> set ?L" for i o' r
  proof (cases "i < snap_hwm sn")
    case True
    moreover have "case (i, o', r) of (s, o', r) \<Rightarrow> s < snap_hwm sn \<longrightarrow> rec_ts r \<le> snap_max_ts sn"
      using h(3) m unfolding snap_agree_def by blast
    ultimately show ?thesis
      using tb(1) by (auto intro: order_trans)
  next
    case False
    then have "(i, o', r) \<in> set (segs_log crc ?suf)"
      using m pre [of "(i, o', r)"] unfolding L by auto
    from segs_log_seg [OF this] show ?thesis
      using tb(2) by fastforce
  qed
  with tn have "recs_ok (?t + 1) ?L"
    by (intro recs_ok_clock [OF ro])
  moreover have "recover_index crc xxh3 n (map rs_id ?segs) (Some sn) ?segs
      = (pre @ [reopened crc n s], ?idx, ?t, Some (snd (scan_file crc (pf_bytes (rs_file s)))))"
    using recover_segments_all [OF d, where skip = "\<lambda>i. i < snap_hwm sn" and app = "apply_last xxh3"] nh by (simp add: recover_index_def snap_index_def)
  moreover have "snap_max_ts sn \<le> ?t + 1"
    using tb(1) word_less_Suc [OF tn] by simp
  ultimately show thesis
    using that ags last_fold_ok [OF snap_index_ok] by blast
qed
definition fresh_cache :: "bytes s3fifo" where
  "fresh_cache = the (cache_new CACHE_BUDGET_BYTES)"

lemma fresh_cache_contents: "contents fresh_cache = Map.empty"
  by (rule ext) (simp add: fresh_cache_def contents_def cache_new_def CACHE_BUDGET_BYTES_def)

lemma fresh_cache_coherent: "s3.coherent fresh_cache m"
  by (simp add: s3.coherent_def fresh_cache_contents)

lemma seed_live_same:
  "segs_log crc (seed_live idx ss) = segs_log crc ss" "map rs_id (seed_live idx ss) = map rs_id ss"
  "map rs_file (seed_live idx ss) = map rs_file ss"
  "(\<forall>s\<in>set (seed_live idx ss). P (seg_recs crc s)) \<longleftrightarrow> (\<forall>s\<in>set ss. P (seg_recs crc s))"
  unfolding seed_live_def by (simp_all add: seg_same)

lemma open_shared_ok:
  assumes rec: "recoverable crc xxh3 c segs sd idx m" and crc: "crc_zero_ok crc" and n: "n < 2 ^ 32"
  obtains v where "open_shared crc xxh3 (seg_dir segs sd) n disk = Inr v" and "readable crc xxh3 v m"
    and "vl_cache v = fresh_cache" and "map rs_id (read_segments v) = map rs_id segs"
    and "map (seg_recs crc) (read_segments v) = map (seg_recs crc) segs"
    and "(\<forall>s\<in>set segs. passes (seg_recs crc s)) \<Longrightarrow>
      (\<And>sn. snap_read crc sd = Some sn \<Longrightarrow> list_all (\<lambda>(k, e). segment_id e \<in> rs_id ` set segs) (snap_entries sn)) \<Longrightarrow>
      store_ok crc xxh3 v m"
proof -
  obtain pre s where segs0: "segs = pre @ [s]"
    using rec by (cases segs rule: rev_cases) (auto simp: recoverable_def)
  let ?z = "\<lambda>s. s\<lparr>rs_live := 0\<rparr>"
  let ?pre = "map ?z pre" and ?s = "?z s"
  have z: "segs_log crc (map ?z ss) = segs_log crc ss" "map rs_id (map ?z ss) = map rs_id ss" for ss
    by (simp_all add: seg_same)
  have zz: "map ?z segs = ?pre @ [?s]"
    by (simp add: segs0)
  have rec': "recoverable crc xxh3 c (?pre @ [?s]) sd idx m"
    using rec unfolding zz [symmetric] recoverable_def z by (simp add: last_map)
  have so: "sorted_wrt (<) (map rs_id segs)"
    using rec by (simp add: recoverable_def)
  have ids: "map rs_id (?pre @ [?s]) = map rs_id segs"
    by (simp add: segs0 comp_def)
  define us where "us = usable_snapshot crc sd (map rs_id segs)"
  have "\<exists>idx' t. recover_index crc xxh3 n (map rs_id segs) us (?pre @ [?s])
      = (?pre @ [reopened crc n ?s], idx', t, Some (snd (scan_file crc (pf_bytes (rs_file s)))))
    \<and> agree xxh3 (segs_log crc segs) idx' m \<and> index_ok idx' \<and> recs_ok (t + 1) (segs_log crc segs)
    \<and> (\<forall>sn. us = Some sn \<longrightarrow> snap_agree sn (segs_log crc segs) idx' \<and> snap_max_ts sn \<le> t + 1)"
  proof (cases us)
    case None
    then show ?thesis
      using recover_full_ok [OF rec', of n] unfolding ids zz [symmetric] z by simp metis
  next
    case (Some sn)
    then have "snap_read crc sd = Some sn"
      by (auto simp: us_def usable_snapshot_def split: option.splits if_splits)
    then show ?thesis
      using recover_snap_ok [OF rec', of sn n] Some unfolding ids zz [symmetric] z by simp metis
  qed
  then obtain idx' t where ri: "recover_index crc xxh3 n (map rs_id segs) us (?pre @ [?s])
      = (?pre @ [reopened crc n ?s], idx', t, Some (snd (scan_file crc (pf_bytes (rs_file s)))))"
    and i: "agree xxh3 (segs_log crc segs) idx' m" "index_ok idx'" "recs_ok (t + 1) (segs_log crc segs)"
    "\<And>sn. us = Some sn \<Longrightarrow> snap_agree sn (segs_log crc segs) idx' \<and> snap_max_ts sn \<le> t + 1"
    by blast
  let ?ss = "seed_live idx' (?pre @ [reopened crc n ?s])"
  let ?e = "snd (scan_file crc (pf_bytes (rs_file s)))"
  define v where "v = \<lparr>max_seg_size = n, read_segments = ?ss, vl_index = idx', vl_cache = fresh_cache,
    tenant_disk = recover_tenant_disk idx' disk, active = \<lparr>act_id = rs_id s, act_size = ?e, act_tail = ?e\<rparr>,
    clock = t + 1, vl_snap = sd\<rparr>"
  note ro = reopened_scan [OF crc, where n = n and s = ?s]
  obtain l where last: "last ?ss = (reopened crc n ?s)\<lparr>rs_live := l\<rparr>" and ne: "?ss \<noteq> []"
    by (simp add: seed_live_def)
  have sd: "sd_snap (seg_dir segs sd) = sd"
    by (simp add: seg_dir_def)
  have open_eq: "open_shared crc xxh3 (seg_dir segs sd) n disk = Inr v"
    using ri [folded zz] ne last ro(3) unfolding open_shared_def Let_def list_segments_dir [OF so] open_segments_dir [OF so] sd
    by (simp add: us_def [symmetric] v_def fresh_cache_def)
  have log: "vlog_log crc v = segs_log crc segs"
    using ro(5) z(1) [of pre] by (simp add: v_def seed_live_same segs0)
  have idsv: "map rs_id (read_segments v) = map rs_id segs"
    using ro(3) by (simp add: v_def seed_live_same segs0 comp_def)
  have "active_ok crc (active v) (last ?ss)"
    unfolding active_ok_def last using ro(1,2,3) by (simp add: v_def)
  then have base: "log_base crc v"
    using n so idsv ne by (simp add: log_base_def v_def)
  have rd: "readable crc xxh3 v m"
    using base i(1) by (simp add: readable_def log) (simp add: v_def fresh_cache_coherent)
  have recs: "map (seg_recs crc) (read_segments v) = map (seg_recs crc) segs"
    using ro(4) by (simp add: v_def seed_live_def segs0 comp_def)
  have "store_ok crc xxh3 v m" if p: "\<forall>s\<in>set segs. passes (seg_recs crc s)"
    and us': "\<And>sn. snap_read crc sd = Some sn \<Longrightarrow> list_all (\<lambda>(k, e). segment_id e \<in> rs_id ` set segs) (snap_entries sn)"
  proof -
    have set_recs: "seg_recs crc ` set (read_segments v) = seg_recs crc ` set segs"
      unfolding set_map [symmetric] recs ..
    have ids': "seg_ids v = rs_id ` set segs"
      unfolding seg_ids_def set_map [symmetric] idsv ..
    have "log_wf crc v"
      using base p set_recs by (auto simp: log_wf_def) (metis imageE imageI)
    moreover have "\<forall>x\<in>all_recs crc v. rec_ts x \<noteq> - 1"
    proof -
      have "all_recs crc v = (\<Union>rs\<in>seg_recs crc ` set segs. snd ` set rs)"
        unfolding set_recs [symmetric] by (simp add: all_recs_def)
      then show ?thesis
        using rec by (auto simp: recoverable_def)
    qed
    moreover have "snap_ok crc v"
      unfolding snap_ok_def
    proof (intro allI impI)
      fix sn
      assume "snap_read crc (vl_snap v) = Some sn"
      then have sn: "snap_read crc sd = Some sn"
        by (simp add: v_def)
      then have "us = Some sn" and u: "list_all (\<lambda>(k, e). segment_id e \<in> rs_id ` set segs) (snap_entries sn)"
        using us' by (simp_all add: us_def usable_snapshot_def)
      then show "snap_hwm sn \<le> act_id (active v) \<and> snap_max_ts sn \<le> clock v \<and> snap_agree sn (vlog_log crc v) (vl_index v) \<and>
        list_all (\<lambda>(k, e). segment_id e \<in> seg_ids v) (snap_entries sn)"
        using i(4) [of sn] sn rec ids' by (simp add: log) (simp add: v_def recoverable_def segs0)
    qed
    ultimately show ?thesis
      using i rd by (simp add: store_ok_def readable_def log) (simp add: v_def)
  qed
  with that open_eq rd idsv recs show thesis
    by (simp add: v_def)
qed

lemma store_recoverable:
  assumes "store_ok crc xxh3 v m" and "clock v \<noteq> - 1"
  shows "recoverable crc xxh3 (clock v) (read_segments v) (vl_snap v) (vl_index v) m"
  using assms by (auto simp: recoverable_def store_ok_def log_wf_simps all_recs_def snap_ok_def active_ok_def image_iff)

text \<open>
  A crash may leave anything after the last complete record of the active segment that does not itself
  decode as a record; it does not change what the scan finds.
\<close>

definition torn :: "(bytes \<Rightarrow> u32) \<Rightarrow> bytes \<Rightarrow> bool" where
  "torn crc junk \<longleftrightarrow> record_at crc junk 0 = None"

definition with_tail :: "vlog \<Rightarrow> bytes \<Rightarrow> read_segment list" where
  "with_tail v junk = butlast (read_segments v) @
     [(last (read_segments v))\<lparr>rs_file := (rs_file (last (read_segments v)))
       \<lparr>pf_bytes := take (act_tail (active v)) (pf_bytes (rs_file (last (read_segments v)))) @ junk\<rparr>\<rparr>]"

lemma scan_file_tail:
  assumes "scan_file crc fb = (recs, e)" and "record_at crc junk 0 = None"
  shows "scan_file crc (take e fb @ junk) = (recs, e)"
proof -
  have e: "e \<le> length fb"
    by (rule scan_file_bounds [OF assms(1)])
  then have "record_at crc (take e fb @ junk) e = None"
    using record_at_shift [of crc "take e fb" junk] assms(2) by (simp add: min_absorb2)
  then have "scan_from crc (take e fb @ junk) e = ([], e)"
    by (subst scan_from_record) simp
  moreover have "take e (take e fb @ junk) = take e fb"
    using e by simp
  ultimately show ?thesis
    using scan_from_extend [OF assms(1) [unfolded scan_file_def], of "take e fb @ junk"] by (simp add: scan_file_def)
qed

lemma with_tail_log:
  assumes "log_base crc v" and "torn crc junk"
  shows "map (seg_recs crc) (with_tail v junk) = map (seg_recs crc) (read_segments v)"
    and "map rs_id (with_tail v junk) = map rs_id (read_segments v)"
    and "segs_log crc (with_tail v junk) = vlog_log crc v"
proof -
  obtain pre s where segs: "read_segments v = pre @ [s]"
    using assms(1) by (cases "read_segments v" rule: rev_cases) (auto simp: log_base_def)
  let ?s = "s\<lparr>rs_file := (rs_file s)\<lparr>pf_bytes := take (act_tail (active v)) (pf_bytes (rs_file s)) @ junk\<rparr>\<rparr>"
  have w: "with_tail v junk = pre @ [?s]"
    by (simp add: with_tail_def segs)
  have "snd (scan_file crc (pf_bytes (rs_file s))) = act_tail (active v)"
    using assms(1) by (simp add: log_base_def active_ok_def segs)
  then have r: "seg_recs crc ?s = seg_recs crc s"
    using scan_file_tail [of crc "pf_bytes (rs_file s)" "seg_recs crc s" "act_tail (active v)" junk] assms(2)
    by (simp add: seg_recs_def torn_def prod_eq_iff)
  then show "map (seg_recs crc) (with_tail v junk) = map (seg_recs crc) (read_segments v)"
    by (simp add: w segs)
  show "map rs_id (with_tail v junk) = map rs_id (read_segments v)"
    by (simp add: w segs)
  have "seg_log crc ?s = seg_log crc s"
    by (simp add: seg_log_def r)
  then show "segs_log crc (with_tail v junk) = vlog_log crc v"
    by (simp add: w segs)
qed

lemma with_tail_recoverable:
  assumes ok: "store_ok crc xxh3 v m" and "clock v \<noteq> - 1" and t: "torn crc junk"
  shows "recoverable crc xxh3 (clock v) (with_tail v junk) (vl_snap v) (vl_index v) m"
proof -
  have b: "log_base crc v"
    using ok by (simp add: store_ok_def log_wf_def)
  note w = with_tail_log [OF b t]
  have ne: "read_segments v \<noteq> []"
    using b by (simp add: log_base_def)
  have "seg_recs crc ` set (with_tail v junk) = seg_recs crc ` set (read_segments v)"
    unfolding set_map [symmetric] w(1) ..
  then have "\<forall>s\<in>set (with_tail v junk). \<exists>t\<in>set (read_segments v). seg_recs crc s = seg_recs crc t"
    by (metis imageE imageI)
  moreover have "rs_id (last (with_tail v junk)) = rs_id (last (read_segments v))" "with_tail v junk \<noteq> []"
    by (simp_all add: with_tail_def)
  ultimately show ?thesis
    using store_recoverable [OF ok assms(2)] unfolding recoverable_def w(2,3) by fastforce
qed

lemma reopen_ok:
  assumes ok: "store_ok crc xxh3 v m" and cl: "clock v \<noteq> - 1" and crc: "crc_zero_ok crc" and t: "torn crc junk"
  obtains w where "open_shared crc xxh3 (seg_dir (with_tail v junk) (vl_snap v)) (max_seg_size v) disk = Inr w"
    and "store_ok crc xxh3 w m" and "vl_cache w = fresh_cache"
proof -
  have b: "log_base crc v" and n: "max_seg_size v < 2 ^ 32" and p: "\<forall>s\<in>set (read_segments v). passes (seg_recs crc s)"
    using ok by (simp_all add: store_ok_def log_wf_simps)
  note w = with_tail_log [OF b t]
  obtain u where u: "open_shared crc xxh3 (seg_dir (with_tail v junk) (vl_snap v)) (max_seg_size v) disk = Inr u"
    "vl_cache u = fresh_cache"
    "(\<forall>s\<in>set (with_tail v junk). passes (seg_recs crc s)) \<Longrightarrow>
      (\<And>sn. snap_read crc (vl_snap v) = Some sn \<Longrightarrow> list_all (\<lambda>(k, e). segment_id e \<in> rs_id ` set (with_tail v junk)) (snap_entries sn)) \<Longrightarrow>
      store_ok crc xxh3 u m"
    using open_shared_ok [OF with_tail_recoverable [OF ok cl t] crc n] by metis
  have "seg_recs crc ` set (with_tail v junk) = seg_recs crc ` set (read_segments v)"
    unfolding set_map [symmetric] w(1) ..
  then have "\<forall>s\<in>set (with_tail v junk). passes (seg_recs crc s)"
    using p by (metis imageE imageI)
  moreover have "rs_id ` set (with_tail v junk) = seg_ids v"
    unfolding seg_ids_def set_map [symmetric] w(2) ..
  ultimately have "store_ok crc xxh3 u m"
    using u(3) ok by (simp add: store_ok_def snap_ok_def)
  with that u(1,2) show thesis
    by blast
qed

text \<open>A directory with no segment yields an empty store.\<close>

lemma open_empty_ok:
  assumes crc: "crc_zero_ok crc" and n: "n < 2 ^ 32"
  obtains v where "open_shared crc xxh3 \<lparr>sd_files = [], sd_snap = \<lparr>snap_file = None, snap_tmp = None\<rparr>\<rparr> n disk = Inr v"
    and "store_ok crc xxh3 v Map.empty" and "vl_cache v = fresh_cache" and "clock v = 1" and "max_seg_size v = n"
proof -
  let ?s = "\<lparr>rs_id = 0, rs_file = pf_preallocate pf_create n, rs_live = 0\<rparr>"
  define v where "v = \<lparr>max_seg_size = n, read_segments = [?s], vl_index = index_new, vl_cache = fresh_cache,
    tenant_disk = recover_tenant_disk index_new disk, active = \<lparr>act_id = 0, act_size = 0, act_tail = 0\<rparr>,
    clock = 1, vl_snap = \<lparr>snap_file = None, snap_tmp = None\<rparr>\<rparr>"
  have e: "open_shared crc xxh3 \<lparr>sd_files = [], sd_snap = \<lparr>snap_file = None, snap_tmp = None\<rparr>\<rparr> n disk = Inr v"
    by (simp add: open_shared_def list_segments_def open_segments_def usable_snapshot_def snap_read_def
        recover_index_def index_of_winners_def seed_live_def v_def fresh_cache_def)
  have "seg_recs crc ?s = []" and a: "active_ok crc \<lparr>act_id = 0, act_size = 0, act_tail = 0\<rparr> ?s"
    using log_wf_fresh [OF crc] by simp_all
  then have "store_ok crc xxh3 v Map.empty"
    using n fresh_cache_coherent
    by (simp add: store_ok_def log_wf_simps v_def seg_log_def recs_ok_def agree_def key_ok_def deleted_def keylog_def
        snap_ok_def snap_read_def all_recs_def)
  with e that show thesis
    by (simp add: v_def)
qed

end
