(* ===== verification/Core_Spec.thy ===== *)
theory Core_Spec
  imports Core_Recover
begin

text \<open>
  The contract of the value log: a map from keys to values. \<open>store_op\<close> collects the operations of the
  store, maintenance and restarts included, \<open>exec_op\<close> runs one of them on the model of the code, and
  \<open>spec_step\<close> says what a map does. The store refines the map over every history.
\<close>

subsection \<open>Operations and their specification\<close>

datatype store_op =
    Op_get bytes u128
  | Op_mget "bytes list" u128
  | Op_set bytes bytes durability u128 "nat option"
  | Op_append bytes bytes durability u128 "nat option"
  | Op_del bytes durability
  | Op_mset "(bytes \<times> bytes) list" durability
  | Op_snapshot
  | Op_compact u16
  | Op_maintain
  | Op_reclaim
  | Op_restart bytes

datatype store_res =
    R_value "bytes option"
  | R_values "bytes option list"
  | R_done
  | R_length nat
  | R_deleted bool
  | R_error error

text \<open>A restart finds the directory of the running store, with arbitrary bytes after the last record.\<close>

fun exec_op :: "(bytes \<Rightarrow> u32) \<Rightarrow> (bytes \<Rightarrow> u64) \<Rightarrow> vlog \<Rightarrow> store_op \<Rightarrow> (store_res \<times> vlog) option" where
  "exec_op crc xxh3 v (Op_get k t) = map_option (map_prod (case_sum R_error R_value) id) (get_scoped crc xxh3 v k t)"
| "exec_op crc xxh3 v (Op_mget ks t) = map_option (map_prod (case_sum R_error R_values) id) (mget_scoped crc xxh3 v ks t)"
| "exec_op crc xxh3 v (Op_set k x d t l) = map_option (map_prod (case_sum R_error (\<lambda>_. R_done)) id) (set_scoped crc xxh3 v k x d t l)"
| "exec_op crc xxh3 v (Op_append k x d t l) = map_option (map_prod (case_sum R_error R_length) id) (append_scoped crc xxh3 v k x d t l)"
| "exec_op crc xxh3 v (Op_del k d) = Some (map_prod (case_sum R_error R_deleted) id (vlog_del crc v k d))"
| "exec_op crc xxh3 v (Op_mset ps d) = map_option (map_prod (case_sum R_error (\<lambda>_. R_done)) id) (set_many crc xxh3 v ps d)"
| "exec_op crc xxh3 v Op_snapshot = Some (R_done, write_snapshot crc v)"
| "exec_op crc xxh3 v (Op_compact sid) = Some (map_prod (case_sum R_error (\<lambda>_. R_done)) id (compact_segment crc xxh3 v sid))"
| "exec_op crc xxh3 v Op_maintain = Some (map_prod (case_sum R_error (\<lambda>_. R_done)) id (maybe_compact crc xxh3 v))"
| "exec_op crc xxh3 v Op_reclaim = Some (map_prod (case_sum R_error (\<lambda>_. R_done)) id (reclaim_all_dead crc xxh3 v))"
| "exec_op crc xxh3 v (Op_restart junk) =
    (case open_shared crc xxh3 (seg_dir (with_tail v junk) (vl_snap v)) (max_seg_size v) [] of
       Inl e \<Rightarrow> Some (R_error e, v)
     | Inr w \<Rightarrow> Some (R_done, w))"

text \<open>The errors an operation may return.\<close>

fun may_fail :: "store_op \<Rightarrow> error \<Rightarrow> bool" where
  "may_fail (Op_set k x d t l) e \<longleftrightarrow> e = DiskQuota \<and> l \<noteq> None \<or> e = InvalidRecord ''segment id overflow''"
| "may_fail (Op_append k x d t l) e \<longleftrightarrow> e = DiskQuota \<and> l \<noteq> None \<or> e = InvalidRecord ''segment id overflow''"
| "may_fail (Op_del k d) e \<longleftrightarrow> e = InvalidRecord ''segment id overflow''"
| "may_fail (Op_mset ps d) e \<longleftrightarrow> e \<in> {InvalidRecord ''batch too large'', InvalidRecord ''batch exceeds one segment'',
    InvalidRecord ''segment id overflow''}"
| "may_fail (Op_compact sid) e \<longleftrightarrow> True"
| "may_fail Op_maintain e \<longleftrightarrow> True"
| "may_fail Op_reclaim e \<longleftrightarrow> True"
| "may_fail op e \<longleftrightarrow> False"

text \<open>The map: what each operation returns and leaves. A write that fails leaves the map as it was.\<close>

inductive spec_step :: "(bytes \<Rightarrow> bytes option) \<Rightarrow> store_op \<Rightarrow> store_res \<Rightarrow> (bytes \<Rightarrow> bytes option) \<Rightarrow> bool" where
  get: "spec_step m (Op_get k t) (R_value (m k)) m"
| mget: "spec_step m (Op_mget ks t) (R_values (map m ks)) m"
| set: "spec_step m (Op_set k x d t l) R_done (m(k \<mapsto> x))"
| append: "y = (case m k of None \<Rightarrow> [] | Some cur \<Rightarrow> cur) @ x \<Longrightarrow>
    spec_step m (Op_append k x d t l) (R_length (length y)) (m(k \<mapsto> y))"
| del: "spec_step m (Op_del k d) (R_deleted (m k \<noteq> None)) (m(k := None))"
| mset: "spec_step m (Op_mset ps d) R_done (map_writes m ps)"
| snapshot: "spec_step m Op_snapshot R_done m"
| compact: "spec_step m (Op_compact sid) R_done m"
| maintain: "spec_step m Op_maintain R_done m"
| reclaim: "spec_step m Op_reclaim R_done m"
| restart: "spec_step m (Op_restart junk) R_done m"
| fails: "may_fail op e \<Longrightarrow> spec_step m op (R_error e) m"

inductive_cases spec_getE: "spec_step m (Op_get k t) r m'"
inductive_cases spec_restartE: "spec_step m (Op_restart junk) r m'"

text \<open>
  The bounds under which the code's 32-bit sizes and 64-bit clock hold: records fit the 32-bit size
  field, the clock does not wrap, fewer than \<open>2 ^ 32\<close> keys are snapshotted, and the bytes a crash left
  after the last record do not decode as one.
\<close>

fun op_fits :: "(bytes \<Rightarrow> u32) \<Rightarrow> (bytes \<Rightarrow> u64) \<Rightarrow> vlog \<Rightarrow> store_op \<Rightarrow> bool" where
  "op_fits crc xxh3 v (Op_set k x d t l) \<longleftrightarrow> rec_fits k x \<and> clock v \<noteq> - 1"
| "op_fits crc xxh3 v (Op_append k x d t l) \<longleftrightarrow> clock v \<noteq> - 1 \<and>
    (case get_scoped crc xxh3 v k t of
       Some (Inr cur, _) \<Rightarrow> rec_fits k ((case cur of None \<Rightarrow> [] | Some y \<Rightarrow> y) @ x)
     | _ \<Rightarrow> True)"
| "op_fits crc xxh3 v (Op_del k d) \<longleftrightarrow> rec_fits k [] \<and> clock v \<noteq> - 1"
| "op_fits crc xxh3 v (Op_mset ps d) \<longleftrightarrow> list_all (\<lambda>(k, x). rec_fits k x) ps \<and> unat (clock v) + Suc (length ps) < 2 ^ 64"
| "op_fits crc xxh3 v Op_snapshot \<longleftrightarrow> vlog_len v < 2 ^ 32"
| "op_fits crc xxh3 v (Op_restart junk) \<longleftrightarrow> clock v \<noteq> - 1 \<and> record_at crc junk 0 = None"
| "op_fits crc xxh3 v op \<longleftrightarrow> True"

fun run_ops :: "(bytes \<Rightarrow> u32) \<Rightarrow> (bytes \<Rightarrow> u64) \<Rightarrow> vlog \<Rightarrow> store_op list \<Rightarrow> (store_res list \<times> vlog) option" where
  "run_ops crc xxh3 v [] = Some ([], v)"
| "run_ops crc xxh3 v (op # ops) =
    (case exec_op crc xxh3 v op of
       None \<Rightarrow> None
     | Some (r, w) \<Rightarrow> map_option (map_prod ((#) r) id) (run_ops crc xxh3 w ops))"

fun run_fits :: "(bytes \<Rightarrow> u32) \<Rightarrow> (bytes \<Rightarrow> u64) \<Rightarrow> vlog \<Rightarrow> store_op list \<Rightarrow> bool" where
  "run_fits crc xxh3 v [] = True"
| "run_fits crc xxh3 v (op # ops) \<longleftrightarrow> op_fits crc xxh3 v op \<and>
    (case exec_op crc xxh3 v op of None \<Rightarrow> True | Some (r, w) \<Rightarrow> run_fits crc xxh3 w ops)"

inductive spec_run :: "(bytes \<Rightarrow> bytes option) \<Rightarrow> store_op list \<Rightarrow> store_res list \<Rightarrow> (bytes \<Rightarrow> bytes option) \<Rightarrow> bool" where
  run_Nil: "spec_run m [] [] m"
| run_Cons: "spec_step m op r m' \<Longrightarrow> spec_run m' ops rs m'' \<Longrightarrow> spec_run m (op # ops) (r # rs) m''"

subsection \<open>Refinement\<close>

lemma mget_scoped_ok:
  assumes "store_ok crc xxh3 v m"
  shows "case mget_scoped crc xxh3 v ks t of
      None \<Rightarrow> True
    | Some (r, v') \<Rightarrow> r = Inr (map m ks) \<and> store_ok crc xxh3 v' m \<and> clock v' = clock v"
  using assms
proof (induction ks arbitrary: v)
  case (Cons k ks)
  show ?case
  proof (cases "get_scoped crc xxh3 v k t")
    case (Some x)
    obtain r w where x: "x = (r, w)" by (cases x)
    have w: "r = Inr (m k)" "store_ok crc xxh3 w m" "clock w = clock v"
      using get_scoped_ok [OF Cons.prems, of k t] Some x by auto
    show ?thesis
      using Cons.IH [OF w(2)] w(1,3) Some x by (auto split: option.splits sum.splits)
  qed simp
qed simp

lemma spec_okI:
  "spec_step m op r m' \<Longrightarrow> store_ok crc xxh3 v m' \<Longrightarrow> \<exists>m'. spec_step m op r m' \<and> store_ok crc xxh3 v m'"
  by blast

lemma exec_op_refines:
  assumes ok: "store_ok crc xxh3 v m" and crc: "crc_zero_ok crc" and fits: "op_fits crc xxh3 v op"
    and ex: "exec_op crc xxh3 v op = Some (r, v')"
  shows "\<exists>m'. spec_step m op r m' \<and> store_ok crc xxh3 v' m'"
proof (cases op)
  case (Op_get k t)
  then show ?thesis
    using ex get_scoped_ok [OF ok, of k t] by (auto intro!: spec_okI intro: spec_step.get)
next
  case (Op_mget ks t)
  then show ?thesis
    using ex mget_scoped_ok [OF ok, of ks t] by (auto intro!: spec_okI intro: spec_step.mget)
next
  case (Op_set k x d t l)
  obtain res where e: "set_scoped crc xxh3 v k x d t l = Some (res, v')" "r = case_sum R_error (\<lambda>_. R_done) res"
    using ex by (auto simp: Op_set)
  then show ?thesis
    using fits set_scoped_ok [OF ok crc, where key = k and val = x and dur = d and tenant = t and limit = l]
    by (cases res) (auto simp: Op_set intro!: spec_okI intro: spec_step.set spec_step.fails)
next
  case (Op_append k x d t l)
  show ?thesis
  proof (cases "get_scoped crc xxh3 v k t")
    case None
    then show ?thesis
      using ex by (simp add: Op_append append_scoped_def)
  next
    case (Some y)
    then have "rec_fits k ((case m k of None \<Rightarrow> [] | Some cur \<Rightarrow> cur) @ x)" "clock v \<noteq> - 1"
      using fits get_scoped_ok [OF ok, of k t] by (auto simp: Op_append split: prod.splits)
    then have fit: "rec_fits k ((case m k of None \<Rightarrow> [] | Some cur \<Rightarrow> cur) @ x)" "clock v \<noteq> - 1"
      by simp_all
    obtain res where e: "append_scoped crc xxh3 v k x d t l = Some (res, v')" "r = case_sum R_error R_length res"
      using ex by (auto simp: Op_append)
    then show ?thesis
      using append_scoped_ok [OF ok crc fit(2,1), where dur = d and tenant = t and limit = l]
      by (cases res) (auto simp: Op_append simp del: length_append intro!: spec_okI intro: spec_step.append spec_step.fails)
  qed
next
  case (Op_del k d)
  obtain res where e: "vlog_del crc v k d = (res, v')" "r = case_sum R_error R_deleted res"
    using ex by (cases "vlog_del crc v k d") (auto simp: Op_del)
  then show ?thesis
    using fits vlog_del_ok [OF ok crc, where key = k and dur = d]
    by (cases res) (auto simp: Op_del simp del: not_None_eq intro!: spec_okI intro: spec_step.del spec_step.fails)
next
  case (Op_mset ps d)
  obtain res where e: "set_many crc xxh3 v ps d = Some (res, v')" "r = case_sum R_error (\<lambda>_. R_done) res"
    using ex by (auto simp: Op_mset)
  have "\<And>k x. (k, x) \<in> set ps \<Longrightarrow> rec_fits k x" "unat (clock v) + Suc (length ps) < 2 ^ 64"
    using fits by (auto simp: Op_mset list_all_iff)
  from set_many_ok [OF ok crc this, where dur = d] e show ?thesis
    by (cases res) (auto simp: Op_mset intro!: spec_okI intro: spec_step.mset spec_step.fails)
next
  case Op_snapshot
  then show ?thesis
    using ex fits write_snapshot_ok [OF ok] by (auto intro!: spec_okI intro: spec_step.snapshot)
next
  case (Op_compact sid)
  obtain res where e: "compact_segment crc xxh3 v sid = (res, v')" "r = case_sum R_error (\<lambda>_. R_done) res"
    using ex by (cases "compact_segment crc xxh3 v sid") (auto simp: Op_compact)
  then show ?thesis
    using compact_segment_ok [OF ok crc, of sid] by (cases res) (auto simp: Op_compact intro!: spec_okI intro: spec_step.compact spec_step.fails)
next
  case Op_maintain
  obtain res where e: "maybe_compact crc xxh3 v = (res, v')" "r = case_sum R_error (\<lambda>_. R_done) res"
    using ex by (cases "maybe_compact crc xxh3 v") (auto simp: Op_maintain)
  then show ?thesis
    using maybe_compact_ok [OF ok crc] by (cases res) (auto simp: Op_maintain intro!: spec_okI intro: spec_step.maintain spec_step.fails)
next
  case Op_reclaim
  obtain res where e: "reclaim_all_dead crc xxh3 v = (res, v')" "r = case_sum R_error (\<lambda>_. R_done) res"
    using ex by (cases "reclaim_all_dead crc xxh3 v") (auto simp: Op_reclaim)
  then show ?thesis
    using reclaim_all_dead_ok [OF ok crc] by (cases res) (auto simp: Op_reclaim intro!: spec_okI intro: spec_step.reclaim spec_step.fails)
next
  case (Op_restart junk)
  have t: "torn crc junk" "clock v \<noteq> - 1"
    using fits by (simp_all add: Op_restart torn_def)
  obtain w where "open_shared crc xxh3 (seg_dir (with_tail v junk) (vl_snap v)) (max_seg_size v) [] = Inr w" "store_ok crc xxh3 w m"
    using reopen_ok [OF ok t(2) crc t(1)] by metis
  then show ?thesis
    using ex by (auto simp: Op_restart intro!: spec_okI intro: spec_step.restart)
qed

lemma run_ops_refines:
  assumes "store_ok crc xxh3 v m" and "crc_zero_ok crc" and "run_fits crc xxh3 v ops"
    and "run_ops crc xxh3 v ops = Some (rs, v')"
  shows "\<exists>m'. spec_run m ops rs m' \<and> store_ok crc xxh3 v' m'"
  using assms
proof (induction ops arbitrary: v m rs)
  case (Cons op ops)
  obtain r w rs' where s: "exec_op crc xxh3 v op = Some (r, w)" "run_ops crc xxh3 w ops = Some (rs', v')" "rs = r # rs'"
    using Cons.prems(4) by (auto split: option.splits)
  obtain m1 where m1: "spec_step m op r m1" "store_ok crc xxh3 w m1"
    using exec_op_refines [OF Cons.prems(1,2) _ s(1)] Cons.prems(3) by auto
  have "run_fits crc xxh3 w ops"
    using Cons.prems(3) s(1) by simp
  from Cons.IH [OF m1(2) Cons.prems(2) this s(2)] m1(1) show ?case
    by (auto simp: s(3) intro: spec_run.run_Cons)
qed (auto intro: spec_run.run_Nil)

end
