(* ===== verification/Core_Live.thy ===== *)
theory Core_Live
  imports Core_Spec "HOL-Library.Code_Target_Numeral"
begin

text \<open>
  When operations return. The only loop of the store that may not end is the eviction loop of the
  cache (see \<open>insert_spins\<close>); without deletions, and with entries that leave room for the small queue,
  it does, and so every operation of the store returns.
\<close>

subsection \<open>The cache of a store without deletions\<close>

definition ENTRY_MAX :: nat where
  "ENTRY_MAX = 30198989"

definition cache_live :: "nat \<Rightarrow> bytes s3fifo \<Rightarrow> bool" where
  "cache_live n c \<longleftrightarrow> acct c \<and> queues_ok c \<and> budget_bytes c = CACHE_BUDGET_BYTES \<and> small_budget c = 3355443 \<and>
     entry_sum (cmap c) + n * ENTRY_MAX < 2 ^ 64"

lemma fresh_cache_live: "n * ENTRY_MAX < 2 ^ 64 \<Longrightarrow> cache_live n fresh_cache"
proof -
  assume n: "n * ENTRY_MAX < 2 ^ 64"
  have "cache_new CACHE_BUDGET_BYTES = Some fresh_cache"
    by (simp add: fresh_cache_def cache_new_def CACHE_BUDGET_BYTES_def)
  note c = cache_new_ok [OF this]
  have "max (CACHE_BUDGET_BYTES div 10) 1 = 3355443"
    by (simp add: CACHE_BUDGET_BYTES_def max_def word_le_nat_alt)
  with c n show ?thesis
    by (simp add: cache_live_def entry_sum_def)
qed

lemma cache_live_get: "cache_live n c \<Longrightarrow> cache_live n (snd (cache_get c k))"
  using acct_cache_get [of c k] queues_ok_cache_get [of c k] budgets_run_cache [of xxh3 c "[Get_op k]"]
  by (simp add: cache_live_def)

lemma cache_live_mono: "cache_live n c \<Longrightarrow> m \<le> n \<Longrightarrow> cache_live m c"
proof -
  assume c: "cache_live n c" and "m \<le> n"
  then have "m * ENTRY_MAX \<le> n * ENTRY_MAX"
    by (intro mult_le_mono1)
  with c show ?thesis
    unfolding cache_live_def by linarith
qed

lemma cache_live_insert:
  fixes x :: bytes
  assumes c: "cache_live (Suc n) c" and sz: "length k + length x + 64 \<le> ENTRY_MAX"
  shows "\<exists>d. insert_for xxh3 c k x (of_nat (length x)) t = Some d \<and> cache_live n d"
proof -
  let ?op = "Insert_op k x (of_nat (length x)) t"
  have l: "unat (of_nat (length x) :: u64) = length x"
    using sz by (intro unat_of_nat_small) (simp add: ENTRY_MAX_def)
  have b: "op_bytes ?op \<le> ENTRY_MAX"
    using sz l by simp
  have a: "acct c" "queues_ok c" "entry_sum (cmap c) + ENTRY_MAX + n * ENTRY_MAX < 2 ^ 64"
    "budget_bytes c = CACHE_BUDGET_BYTES" "small_budget c = 3355443"
    using c by (simp_all add: cache_live_def)
  have fit: "entry_sum (cmap c) + sum_list (map op_bytes [?op]) < 2 ^ 64"
    using a(3) b by simp
  have "op_bytes ?op + unat (small_budget c) \<le> unat (budget_bytes c)"
    using b a(4,5) by (simp add: CACHE_BUDGET_BYTES_def ENTRY_MAX_def)
  then obtain d where d: "run_cache xxh3 c [?op] = Some d"
    using run_cache_returns [OF a(1,2) fit] by auto
  have "acct d \<and> entry_sum (cmap d) \<le> entry_sum (cmap c) + op_bytes ?op"
    using run_cache_acct [OF a(1) d] fit by simp
  moreover have "queues_ok d"
    using run_cache_ok [OF a(1,2) d fit] by simp
  ultimately have "cache_live n d"
    using a(3-5) b budgets_run_cache [OF d] by (simp add: cache_live_def)
  then show ?thesis
    using d by (auto split: bind_splits)
qed

subsection \<open>Operations\<close>

lemma maybe_rotate_cache: "maybe_rotate v n = Inr w \<Longrightarrow> vl_cache w = vl_cache v"
  by (auto simp: maybe_rotate_def Let_def split: if_splits)

lemma commit_append_cache: "commit_append v b d = (w, p, n) \<Longrightarrow> vl_cache w = vl_cache v"
  by (auto simp: commit_append_def Let_def)

lemma append_raw_cache: "append_raw crc v k x kd ts d = (r, w) \<Longrightarrow> vl_cache w = vl_cache v"
  by (auto simp: append_raw_def Let_def split: sum.splits prod.splits dest!: maybe_rotate_cache commit_append_cache)

lemma relocate_cache: "relocate crc xxh3 i v x = (r, w) \<Longrightarrow> vl_cache w = vl_cache v"
  by (auto simp: relocate_def Let_def split: prod.splits sum.splits if_splits dest!: append_raw_cache)

lemma relocate_all_cache: "relocate_all crc xxh3 i v xs = (rs, w) \<Longrightarrow> vl_cache w = vl_cache v"
  by (induction xs arbitrary: v rs) (auto split: prod.splits dest!: relocate_cache)

lemma compact_segment_cache: "compact_segment crc xxh3 v i = (r, w) \<Longrightarrow> vl_cache w = vl_cache v"
  by (auto simp: compact_segment_def Let_def sync_segments_def split: if_splits option.splits prod.splits dest!: relocate_all_cache)

lemma compact_targets_cache: "compact_targets crc xxh3 v ts n = (r, w) \<Longrightarrow> vl_cache w = vl_cache v"
  by (induction crc xxh3 v ts n rule: compact_targets.induct) (auto split: prod.splits sum.splits dest!: compact_segment_cache)

lemma maintenance_cache:
  "maybe_compact crc xxh3 v = (r, w) \<Longrightarrow> vl_cache w = vl_cache v"
  "reclaim_all_dead crc xxh3 v = (r', w) \<Longrightarrow> vl_cache w = vl_cache v"
  by (auto simp: maybe_compact_def reclaim_all_dead_def Let_def split: option.splits prod.splits sum.splits
      dest!: compact_segment_cache compact_targets_cache maybe_rotate_cache)

definition small_entry :: "bytes \<Rightarrow> bytes \<Rightarrow> bool" where
  "small_entry k x \<longleftrightarrow> length k + length x + 64 \<le> ENTRY_MAX"

definition small_map :: "(bytes \<Rightarrow> bytes option) \<Rightarrow> bool" where
  "small_map m \<longleftrightarrow> (\<forall>k x. m k = Some x \<longrightarrow> small_entry k x)"

lemma small_fits: "small_entry k x \<Longrightarrow> rec_fits k x"
  using padded_record_size_bounds(2) [of "length k" "length x"] by (simp add: small_entry_def rec_fits_def ENTRY_MAX_def HEADER_SIZE_def)

lemma get_scoped_live:
  assumes ok: "store_ok crc xxh3 v m" and sm: "small_map m" and c: "cache_live (Suc n) (vl_cache v)"
  shows "\<exists>r d. get_scoped crc xxh3 v k t = Some (r, v\<lparr>vl_cache := d\<rparr>) \<and> cache_live n d"
proof (cases "get_scoped crc xxh3 v k t")
  case None
  then obtain x where "m k = Some x" "insert_for xxh3 (snd (cache_get (vl_cache v) k)) k x (of_nat (length x)) t = None"
    using get_scoped_read [OF store_ok_readable [OF ok], of k t] by auto
  moreover from this have "length k + length x + 64 \<le> ENTRY_MAX"
    using sm by (simp add: small_map_def small_entry_def)
  ultimately show ?thesis
    using cache_live_insert [OF cache_live_get [OF c, of k], of k x] by (metis option.distinct(1))
next
  case (Some y)
  obtain hit d where g: "cache_get (vl_cache v) k = (hit, d)" by (cases "cache_get (vl_cache v) k")
  have gd: "cache_live (Suc n) d"
    using cache_live_get [OF c, of k] by (simp add: g)
  have "\<exists>r e. y = (r, v\<lparr>vl_cache := e\<rparr>) \<and> (e = d \<or> (\<exists>x. r = Inr (Some x) \<and> insert_for xxh3 d k x (of_nat (length x)) t = Some e))"
    using Some by (auto simp: get_scoped_def g Let_def split: option.splits sum.splits)
  then obtain r e where e: "y = (r, v\<lparr>vl_cache := e\<rparr>)" "e = d \<or> (\<exists>x. r = Inr (Some x) \<and> insert_for xxh3 d k x (of_nat (length x)) t = Some e)"
    by blast
  have "r = Inr (m k)"
    using get_scoped_ok [OF ok, of k t] Some e(1) by auto
  then have small: "length k + length x + 64 \<le> ENTRY_MAX" if "r = Inr (Some x)" for x
    using that sm by (simp add: small_map_def small_entry_def)
  have "cache_live n e"
    using e(2)
  proof
    assume "e = d"
    then show ?thesis
      using cache_live_mono [OF gd, of n] by simp
  next
    assume "\<exists>x. r = Inr (Some x) \<and> insert_for xxh3 d k x (of_nat (length x)) t = Some e"
    then obtain x where x: "r = Inr (Some x)" "insert_for xxh3 d k x (of_nat (length x)) t = Some e"
      by blast
    show ?thesis
      using cache_live_insert [OF gd small [OF x(1)], of xxh3 t] x(2) by auto
  qed
  with Some e(1) show ?thesis
    by blast
qed

lemma mget_scoped_live:
  assumes "store_ok crc xxh3 v m" and "small_map m" and "cache_live (length ks + n) (vl_cache v)"
  shows "\<exists>r w. mget_scoped crc xxh3 v ks t = Some (r, w) \<and> cache_live n (vl_cache w)"
  using assms
proof (induction ks arbitrary: v)
  case (Cons k ks)
  obtain r d where g: "get_scoped crc xxh3 v k t = Some (r, v\<lparr>vl_cache := d\<rparr>)" "cache_live (length ks + n) d"
    using get_scoped_live [OF Cons.prems(1,2), of "length ks + n" k t] Cons.prems(3) by auto
  then have r: "r = Inr (m k)" "store_ok crc xxh3 (v\<lparr>vl_cache := d\<rparr>) m"
    using get_scoped_ok [OF Cons.prems(1), of k t] by auto
  obtain r' w where w: "mget_scoped crc xxh3 (v\<lparr>vl_cache := d\<rparr>) ks t = Some (r', w)" "cache_live n (vl_cache w)"
    using Cons.IH [OF r(2) Cons.prems(2)] g(2) by auto
  then show ?case
    using g(1) r(1) by (cases r') auto
qed auto

lemma set_scoped_live:
  assumes ok: "store_ok crc xxh3 v m" and c: "cache_live (Suc n) (vl_cache v)" and sz: "small_entry k x"
  shows "\<exists>r w. set_scoped crc xxh3 v k x d t l = Some (r, w) \<and> cache_live n (vl_cache w)"
proof -
  obtain c' where c': "insert_for xxh3 (vl_cache v) k x (of_nat (length x)) t = Some c'" "cache_live n c'"
    using cache_live_insert [OF c sz [unfolded small_entry_def], of xxh3 t] by auto
  have ts: "vl_cache (snd (next_ts v)) = vl_cache v"
    by (simp add: next_ts_def)
  obtain res u where a: "append_raw crc (snd (next_ts v)) k x Scalar (fst (next_ts v)) d = (res, u)"
    by (cases "append_raw crc (snd (next_ts v)) k x Scalar (fst (next_ts v)) d")
  have u: "vl_cache u = vl_cache v"
    using append_raw_cache [OF a] ts by simp
  have "cache_live n (vl_cache v)"
    using cache_live_mono [OF c, of n] by simp
  then show ?thesis
    using c' u a by (cases res) (auto simp: set_scoped_def Let_def split_beta split: option.split prod.split)
qed

lemma append_scoped_live:
  assumes ok: "store_ok crc xxh3 v m" and sm: "small_map m" and c: "cache_live (Suc (Suc n)) (vl_cache v)"
    and sz: "small_entry k ((case m k of None \<Rightarrow> [] | Some cur \<Rightarrow> cur) @ x)"
  shows "\<exists>r w. append_scoped crc xxh3 v k x d t l = Some (r, w) \<and> cache_live n (vl_cache w)"
proof -
  obtain r e where g: "get_scoped crc xxh3 v k t = Some (r, v\<lparr>vl_cache := e\<rparr>)" "cache_live (Suc n) e"
    using get_scoped_live [OF ok sm c, of k t] by auto
  then have r: "r = Inr (m k)" "store_ok crc xxh3 (v\<lparr>vl_cache := e\<rparr>) m"
    using get_scoped_ok [OF ok, of k t] by auto
  have new: "(case m k of Some cur \<Rightarrow> cur @ x | None \<Rightarrow> x) = (case m k of None \<Rightarrow> [] | Some cur \<Rightarrow> cur) @ x"
    by (simp split: option.split)
  obtain r' w where w: "set_scoped crc xxh3 (v\<lparr>vl_cache := e\<rparr>) k ((case m k of None \<Rightarrow> [] | Some cur \<Rightarrow> cur) @ x) d t l = Some (r', w)"
    "cache_live n (vl_cache w)"
    using set_scoped_live [OF r(2) _ sz, of n d t l] g(2) by auto
  then show ?thesis
    using g(1) r(1) new by (cases r') (auto simp: append_scoped_def)
qed

lemma apply_member_live:
  assumes "cache_live (Suc n) (vl_cache v)" and "small_entry k x" and "start + rel < 2 ^ 32"
  shows "\<exists>w. apply_member xxh3 sid start v ((k, x), rel, p) = Some w \<and> cache_live n (vl_cache w)"
proof -
  obtain c where c: "insert_for xxh3 (vl_cache v) k x (of_nat (length x)) (tenant_from_key k) = Some c" "cache_live n c"
    using cache_live_insert [OF assms(1) assms(2) [unfolded small_entry_def], of xxh3 "tenant_from_key k"] by auto
  then show ?thesis
    using assms(3) by (auto simp: apply_member_def Let_def split: option.split)
qed

lemma apply_members_live:
  assumes "cache_live (length ps + n) (vl_cache v)" and "list_all (\<lambda>(k, x). small_entry k x) ps"
    and "start + pos + sum_list (map record_size (member_recs ts ps)) < 2 ^ 32"
  shows "\<exists>w. apply_members xxh3 sid start v (zip ps (rel_places pos (member_recs ts ps))) = Some w \<and> cache_live n (vl_cache w)"
  using assms
proof (induction ps arbitrary: v pos ts)
  case (Cons p ps)
  obtain k x where p: "p = (k, x)" by (cases p)
  let ?r = "record_of k x Scalar ts"
  obtain w where w: "apply_member xxh3 sid start v ((k, x), pos, of_nat (record_size ?r)) = Some w" "cache_live (length ps + n) (vl_cache w)"
    using apply_member_live [of "length ps + n" v k x start pos xxh3 sid] Cons.prems by (auto simp: p)
  obtain u where "apply_members xxh3 sid start w (zip ps (rel_places (pos + record_size ?r) (member_recs (ts + 1) ps))) = Some u" "cache_live n (vl_cache u)"
    using Cons.IH [OF w(2), of "pos + record_size ?r" "ts + 1"] Cons.prems(2,3) by (auto simp: p add.assoc)
  then show ?case
    using w(1) by (auto simp: p rel_places_def)
qed auto

lemma encode_members_cache:
  "encode_members crc v b ps = Some (r, w) \<Longrightarrow> vl_cache w = vl_cache v \<and> read_segments w = read_segments v \<and>
     active w = active v \<and> max_seg_size w = max_seg_size v"
  by (induction crc v b ps arbitrary: r w rule: encode_members.induct)
    (auto simp: next_ts_def Let_def split: if_splits option.splits sum.splits)

lemma maybe_rotate_tail:
  assumes "maybe_rotate v n = Inr w" and "act_size (active v) = act_tail (active v)"
  shows "act_tail (active w) = 0 \<or> act_tail (active w) + n \<le> max_seg_size v"
  using assms by (auto simp: maybe_rotate_def needs_rotation_def Let_def split: if_splits)

lemma commit_append_start: "commit_append v b d = (w, p, n) \<Longrightarrow> p = act_tail (active v)"
  by (auto simp: commit_append_def Let_def)

lemma set_many_live:
  assumes ok: "store_ok crc xxh3 v m" and c: "cache_live (length ps + n) (vl_cache v)"
    and sz: "list_all (\<lambda>(k, x). small_entry k x) ps"
  shows "\<exists>r w. set_many crc xxh3 v ps d = Some (r, w) \<and> cache_live n (vl_cache w)"
proof (cases "ps = [] \<or> length ps \<ge> 2 ^ 32")
  case True
  then show ?thesis
    using cache_live_mono [OF c, of n] by (auto simp: set_many_def)
next
  case False
  let ?w = "v\<lparr>clock := clock v + 1\<rparr>" and ?h = "record_of [] (u32_to_le (of_nat (length ps))) BatchBegin (clock v)"
  let ?rs = "member_recs (clock v + 1) ps"
  have h: "encode_record crc [] (u32_to_le (of_nat (length ps))) BatchBegin (clock v) = encode_rec crc ?h"
    by (simp add: encode_rec_def record_of_def)
  have c': "cache_live n (vl_cache v)"
    using cache_live_mono [OF c, of n] by simp
  have fits: "\<And>k x. (k, x) \<in> set ps \<Longrightarrow> rec_fits k x"
    using sz small_fits by (auto simp: list_all_iff)
  note enc = encode_members_ok [where crc = crc and v = ?w and blob = "encode_rec crc ?h" and ps = ps, OF fits]
  obtain res u where e: "encode_members crc ?w (encode_rec crc ?h) ps = Some (res, u)"
    using enc by (auto split: option.splits)
  have u: "vl_cache u = vl_cache v" "active u = active v" "max_seg_size u = max_seg_size v"
    using encode_members_cache [OF e] by simp_all
  have act: "act_size (active u) = act_tail (active u)" "max_seg_size u < 2 ^ 32"
    using ok u by (simp_all add: store_ok_def log_wf_simps active_ok_def)
  have ex: "\<exists>w. apply_members xxh3 sid start x (zip ps rels) = Some w \<and> cache_live n (vl_cache w)"
    if "res = Inr (b, rels)" "length b \<le> max_seg_size u" "maybe_rotate u (length b) = Inr u'" "commit_append u' b d = (x, start, p)"
    for b rels u' x start p sid
  proof -
    have b: "b = encode_rec crc ?h @ log_bytes crc ?rs" "rels = rel_places (record_size ?h) ?rs"
      using enc e that(1) by simp_all
    have "start + length b < 2 ^ 32"
      using maybe_rotate_tail [OF that(3) act(1)] commit_append_start [OF that(4)] that(2) act(2) by auto
    then have "start + record_size ?h + sum_list (map record_size ?rs) < 2 ^ 32"
      by (simp add: b length_log_bytes)
    moreover have "vl_cache x = vl_cache v"
      using commit_append_cache [OF that(4)] maybe_rotate_cache [OF that(3)] u by simp
    ultimately show ?thesis
      using apply_members_live [of ps n x start "record_size ?h" "clock v + 1" xxh3 sid] c sz b(2) by auto
  qed
  show ?thesis
  proof (cases res)
    case (Inl er)
    then show ?thesis
      using False e u c' by (simp add: set_many_def next_ts_def h)
  next
    case (Inr y)
    obtain b rels where y: "y = (b, rels)" by (cases y)
    show ?thesis
    proof (cases "maybe_rotate u (length b)")
      case (Inl er)
      then show ?thesis
        using False e u c' Inr y by (simp add: set_many_def next_ts_def h)
    next
      case r: (Inr u')
      obtain x start p where cm: "commit_append u' b d = (x, start, p)" by (cases "commit_append u' b d")
      show ?thesis
        using ex [of b rels u' x start p "act_id (active u')"] False e u c' Inr y r cm
        by (cases "length b \<le> max_seg_size u") (auto simp: set_many_def next_ts_def h split: option.splits)
    qed
  qed
qed

subsection \<open>Histories\<close>

text \<open>
  Histories without deletions whose entries are small, and the number of cache insertions an
  operation may make.
\<close>

fun op_small :: "(bytes \<Rightarrow> u32) \<Rightarrow> (bytes \<Rightarrow> u64) \<Rightarrow> vlog \<Rightarrow> store_op \<Rightarrow> bool" where
  "op_small crc xxh3 v (Op_set k x d t l) \<longleftrightarrow> small_entry k x"
| "op_small crc xxh3 v (Op_append k x d t l) \<longleftrightarrow>
    (case get_scoped crc xxh3 v k t of
       Some (Inr cur, _) \<Rightarrow> small_entry k ((case cur of None \<Rightarrow> [] | Some y \<Rightarrow> y) @ x)
     | _ \<Rightarrow> True)"
| "op_small crc xxh3 v (Op_mset ps d) \<longleftrightarrow> list_all (\<lambda>(k, x). small_entry k x) ps"
| "op_small crc xxh3 v (Op_del k d) \<longleftrightarrow> False"
| "op_small crc xxh3 v op \<longleftrightarrow> True"

fun op_weight :: "store_op \<Rightarrow> nat" where
  "op_weight (Op_get k t) = 1"
| "op_weight (Op_mget ks t) = length ks"
| "op_weight (Op_set k x d t l) = 1"
| "op_weight (Op_append k x d t l) = 2"
| "op_weight (Op_mset ps d) = length ps"
| "op_weight op = 0"

fun run_small :: "(bytes \<Rightarrow> u32) \<Rightarrow> (bytes \<Rightarrow> u64) \<Rightarrow> vlog \<Rightarrow> store_op list \<Rightarrow> bool" where
  "run_small crc xxh3 v [] = True"
| "run_small crc xxh3 v (op # ops) \<longleftrightarrow> op_small crc xxh3 v op \<and>
    (case exec_op crc xxh3 v op of None \<Rightarrow> True | Some (r, w) \<Rightarrow> run_small crc xxh3 w ops)"

lemma small_map_upd: "small_map m \<Longrightarrow> small_entry k x \<Longrightarrow> small_map (m(k \<mapsto> x))"
  by (simp add: small_map_def)

lemma small_map_writes: "small_map m \<Longrightarrow> list_all (\<lambda>(k, x). small_entry k x) ps \<Longrightarrow> small_map (map_writes m ps)"
proof (induction ps arbitrary: m)
  case (Cons p ps)
  have "small_map (m(fst p \<mapsto> snd p))"
    using Cons.prems by (intro small_map_upd) auto
  then have "small_map (map_writes (m(fst p \<mapsto> snd p)) ps)"
    by (rule Cons.IH) (use Cons.prems in simp)
  then show ?case
    by (simp add: map_writes_def split_beta)
qed (simp add: map_writes_def)

lemma spec_step_small:
  assumes "spec_step m op r m'" and "small_map m" and "op_small crc xxh3 v op" and "store_ok crc xxh3 v m"
    and "cache_live (Suc n) (vl_cache v) \<or> (\<forall>k x d t l. op \<noteq> Op_append k x d t l)"
  shows "small_map m'"
  using assms
proof (induction rule: spec_step.induct)
  case (append y m k x d t l)
  obtain r e where "get_scoped crc xxh3 v k t = Some (r, v\<lparr>vl_cache := e\<rparr>)"
    using get_scoped_live [OF append.prems(3,1), of n k t] append.prems(4) by auto
  then have "small_entry k y"
    using append get_scoped_ok [OF append.prems(3), of k t] by auto
  then show ?case
    by (rule small_map_upd [OF append.prems(1)])
qed (simp_all add: small_map_upd small_map_writes)

lemma exec_op_live:
  assumes ok: "store_ok crc xxh3 v m" and sm: "small_map m" and c: "cache_live (op_weight op + n) (vl_cache v)"
    and s: "op_small crc xxh3 v op" and crc: "crc_zero_ok crc" and fits: "op_fits crc xxh3 v op"
  shows "\<exists>r w. exec_op crc xxh3 v op = Some (r, w) \<and> cache_live n (vl_cache w)"
proof (cases op)
  case (Op_get k t)
  then show ?thesis
    using get_scoped_live [OF ok sm, of n k t] c by force
next
  case (Op_mget ks t)
  then show ?thesis
    using mget_scoped_live [OF ok sm, of ks n t] c by force
next
  case (Op_set k x d t l)
  then show ?thesis
    using set_scoped_live [OF ok, of n k x d t l] c s by force
next
  case (Op_append k x d t l)
  obtain r e where "get_scoped crc xxh3 v k t = Some (r, v\<lparr>vl_cache := e\<rparr>)"
    using get_scoped_live [OF ok sm, of "Suc n" k t] c by (auto simp: Op_append)
  then have "small_entry k ((case m k of None \<Rightarrow> [] | Some cur \<Rightarrow> cur) @ x)"
    using s get_scoped_ok [OF ok, of k t] by (auto simp: Op_append)
  then show ?thesis
    using append_scoped_live [OF ok sm, of n k x d t l] c by (force simp: Op_append)
next
  case (Op_mset ps d)
  then show ?thesis
    using set_many_live [OF ok, of ps n d] c s by force
next
  case (Op_compact i)
  then show ?thesis
    using compact_segment_cache [of crc xxh3 v i] c by (cases "compact_segment crc xxh3 v i") auto
next
  case Op_maintain
  then show ?thesis
    using maintenance_cache(1) [of crc xxh3 v] c by (cases "maybe_compact crc xxh3 v") auto
next
  case Op_reclaim
  then show ?thesis
    using maintenance_cache(2) [of crc xxh3 v] c by (cases "reclaim_all_dead crc xxh3 v") auto
next
  case (Op_restart junk)
  have "torn crc junk" "clock v \<noteq> - 1"
    using fits by (simp_all add: Op_restart torn_def)
  from reopen_ok [OF ok this(2) crc this(1), of "[]"]
  obtain w where "open_shared crc xxh3 (seg_dir (with_tail v junk) (vl_snap v)) (max_seg_size v) [] = Inr w" "vl_cache w = fresh_cache"
    by metis
  moreover have "cache_live n fresh_cache"
    using c by (intro fresh_cache_live) (simp add: cache_live_def Op_restart)
  ultimately show ?thesis
    by (simp add: Op_restart)
qed (use s c in \<open>auto simp: write_snapshot_def\<close>)

lemma run_ops_returns:
  assumes "store_ok crc xxh3 v m" and "small_map m" and "cache_live (sum_list (map op_weight ops)) (vl_cache v)"
    and "crc_zero_ok crc" and "run_fits crc xxh3 v ops" and "run_small crc xxh3 v ops"
  shows "\<exists>rs w. run_ops crc xxh3 v ops = Some (rs, w)"
  using assms
proof (induction ops arbitrary: v m)
  case (Cons op ops)
  let ?n = "sum_list (map op_weight ops)"
  have f: "op_fits crc xxh3 v op" "op_small crc xxh3 v op" and c: "cache_live (op_weight op + ?n) (vl_cache v)"
    using Cons.prems by simp_all
  obtain r w where w: "exec_op crc xxh3 v op = Some (r, w)" "cache_live ?n (vl_cache w)"
    using exec_op_live [OF Cons.prems(1,2) c f(2) Cons.prems(4) f(1)] by blast
  obtain m' where m': "spec_step m op r m'" "store_ok crc xxh3 w m'"
    using exec_op_refines [OF Cons.prems(1,4) f(1) w(1)] by blast
  have "cache_live (Suc 0) (vl_cache v) \<or> (\<forall>k x d t l. op \<noteq> Op_append k x d t l)"
    using cache_live_mono [OF c, of "Suc 0"] by (cases op) auto
  then have "small_map m'"
    by (rule spec_step_small [OF m'(1) Cons.prems(2) f(2) Cons.prems(1)])
  then obtain rs u where "run_ops crc xxh3 w ops = Some (rs, u)"
    using Cons.IH [OF m'(2) _ w(2) Cons.prems(4)] Cons.prems(5,6) w(1) by auto
  then show ?case
    using w(1) by simp
qed simp

subsection \<open>The store as a map\<close>

abbreviation empty_dir :: store_dir where
  "empty_dir \<equiv> \<lparr>sd_files = [], sd_snap = \<lparr>snap_file = None, snap_tmp = None\<rparr>\<rparr>"

definition demo_store :: vlog where
  "demo_store = projr (open_shared (\<lambda>_. 5) (\<lambda>_. 7) empty_dir 64 [])"

definition demo_ops :: "store_op list" where
  "demo_ops = [Op_set [1] [2] Power 0 None, Op_restart [9], Op_append [1] [3] Power 0 None, Op_maintain, Op_get [1] 0]"

declare make_room.simps [code]

lemma demo_store_open: "open_shared (\<lambda>_. 5) (\<lambda>_. 7) empty_dir 64 [] = Inr demo_store"
proof -
  have "\<not> isl (open_shared (\<lambda>_. 5) (\<lambda>_. 7) empty_dir 64 [])"
    by code_simp
  then show ?thesis
    by (simp add: demo_store_def)
qed

lemma demo_fits: "run_fits (\<lambda>_. 5) (\<lambda>_. 7) demo_store demo_ops \<and> run_small (\<lambda>_. 5) (\<lambda>_. 7) demo_store demo_ops"
  by code_simp

lemma demo_run: "map_option fst (run_ops (\<lambda>_. 5) (\<lambda>_. 7) demo_store demo_ops) =
    Some [R_done, R_done, R_length 2, R_done, R_value (Some [2, 3])]"
  by code_simp

text \<open>
  C2: The value log is a map. Start from an empty directory and run any history of reads, writes,
  deletions, batches, snapshots, compactions and restarts, where a restart finds the files of the
  running store with undecodable bytes after the last record. Whatever the history returns, a map
  updated by the same operations returns, and the store reached still represents that map. Writes fail
  only with the errors named in \<open>may_fail\<close>, and then change nothing.
\<close>

theorem store_refines_map:
  assumes "crc_zero_ok crc" and "n < 2 ^ 32" and "open_shared crc xxh3 empty_dir n [] = Inr v0"
    and "run_fits crc xxh3 v0 ops" and "run_ops crc xxh3 v0 ops = Some (rs, v')"
  shows "\<exists>m'. spec_run Map.empty ops rs m' \<and> store_ok crc xxh3 v' m'"
proof -
  obtain v where "open_shared crc xxh3 empty_dir n [] = Inr v" "store_ok crc xxh3 v Map.empty"
    using open_empty_ok [OF assms(1,2), of xxh3 "[]"] by metis
  then have "store_ok crc xxh3 v0 Map.empty"
    using assms(3) by simp
  from run_ops_refines [OF this assms(1,4,5)] show ?thesis .
qed

theorem store_refines_map_witness:
  "\<exists>m'. spec_run Map.empty demo_ops [R_done, R_done, R_length 2, R_done, R_value (Some [2, 3])] m'"
proof -
  obtain v' where v': "run_ops (\<lambda>_. 5) (\<lambda>_. 7) demo_store demo_ops = Some ([R_done, R_done, R_length 2, R_done, R_value (Some [2, 3])], v')"
    using demo_run by auto
  have "crc_zero_ok (\<lambda>_. 5)" "(64 :: nat) < 2 ^ 32"
    by (simp_all add: crc_zero_ok_def)
  from store_refines_map [OF this demo_store_open _ v'] demo_fits show ?thesis
    by blast
qed

text \<open>
  C13: Operations return. A history without deletions whose entries take at most 90 percent of the
  cache budget, and whose operations insert into the cache fewer times than a 64-bit counter
  allows, runs to its end and answers as the map does.
\<close>

theorem store_returns:
  assumes "crc_zero_ok crc" and "n < 2 ^ 32" and "open_shared crc xxh3 empty_dir n [] = Inr v0"
    and "run_fits crc xxh3 v0 ops" and "run_small crc xxh3 v0 ops" and "sum_list (map op_weight ops) * ENTRY_MAX < 2 ^ 64"
  shows "\<exists>rs v' m'. run_ops crc xxh3 v0 ops = Some (rs, v') \<and> spec_run Map.empty ops rs m'"
proof -
  obtain v where "open_shared crc xxh3 empty_dir n [] = Inr v" "store_ok crc xxh3 v Map.empty" "vl_cache v = fresh_cache"
    using open_empty_ok [OF assms(1,2), of xxh3 "[]"] by metis
  then have v0: "store_ok crc xxh3 v0 Map.empty" "vl_cache v0 = fresh_cache"
    using assms(3) by simp_all
  have "small_map Map.empty" "cache_live (sum_list (map op_weight ops)) (vl_cache v0)"
    using fresh_cache_live [OF assms(6)] by (simp_all add: small_map_def v0(2))
  from run_ops_returns [OF v0(1) this assms(1,4,5)] run_ops_refines [OF v0(1) assms(1,4)] show ?thesis
    by blast
qed

theorem store_returns_witness:
  "\<exists>rs v' m'. run_ops (\<lambda>_. 5) (\<lambda>_. 7) demo_store demo_ops = Some (rs, v') \<and> spec_run Map.empty demo_ops rs m'"
proof -
  have "crc_zero_ok (\<lambda>_. 5)" "(64 :: nat) < 2 ^ 32"
    by (simp_all add: crc_zero_ok_def)
  moreover have "sum_list (map op_weight demo_ops) * ENTRY_MAX < 2 ^ 64"
    by (simp add: demo_ops_def ENTRY_MAX_def)
  ultimately show ?thesis
    using store_returns [OF _ _ demo_store_open] demo_fits by blast
qed

end
