(* ===== verification/Text.thy ===== *)
theory Text
  imports Utf8
begin

text \<open>
  Decimal text of the standard library over byte strings: \<open>to_string\<close> of the integer types and
  \<open>str::parse\<close> with its optional sign and overflow check, ASCII upper case, the search for the
  first CRLF that ends a protocol line, white space and lines.
\<close>

definition lit :: "string \<Rightarrow> bytes" where
  "lit s = map of_char s"

lemma lit_simps [simp]: "lit [] = []" "lit (c # s) = of_char c # lit s"
  by (simp_all add: lit_def)

definition is_ascii_digit :: "u8 \<Rightarrow> bool" where
  "is_ascii_digit b \<longleftrightarrow> 48 \<le> b \<and> b \<le> 57"

definition to_ascii_uppercase :: "bytes \<Rightarrow> bytes" where
  "to_ascii_uppercase = map (\<lambda>b. if 97 \<le> b \<and> b \<le> 122 then b - 32 else b)"

lemma length_to_ascii_uppercase [simp]: "length (to_ascii_uppercase s) = length s"
  by (simp add: to_ascii_uppercase_def)

subsection \<open>Integers\<close>

fun dec_text :: "nat \<Rightarrow> bytes" where
  "dec_text n = (if n < 10 then [of_nat (48 + n)] else dec_text (n div 10) @ [of_nat (48 + n mod 10)])"

declare dec_text.simps [simp del]

definition int_text :: "int \<Rightarrow> bytes" where
  "int_text i = (if i < 0 then 45 # dec_text (nat (- i)) else dec_text (nat i))"

fun parse_dec :: "nat \<Rightarrow> nat \<Rightarrow> bytes \<Rightarrow> nat option" where
  "parse_dec bound acc [] = Some acc"
| "parse_dec bound acc (b # bs) =
    (if \<not> is_ascii_digit b then None
     else let n = acc * 10 + (unat b - 48) in
       if n > bound then None else parse_dec bound n bs)"

text \<open>An unsigned type with the given maximum: an optional \<open>+\<close> and at least one digit.\<close>

definition parse_uint :: "nat \<Rightarrow> bytes \<Rightarrow> nat option" where
  "parse_uint bound s =
    (let body = (case s of b # bs \<Rightarrow> if b = 43 then bs else s | [] \<Rightarrow> []) in
     if body = [] then None else parse_dec bound 0 body)"

definition parse_i64 :: "bytes \<Rightarrow> int option" where
  "parse_i64 s =
    (case s of
       b # bs \<Rightarrow>
         if b = 45 then (if bs = [] then None else map_option (\<lambda>n. - int n) (parse_dec (2 ^ 63) 0 bs))
         else map_option int (parse_uint (2 ^ 63 - 1) s)
     | [] \<Rightarrow> None)"

definition is_i64 :: "int \<Rightarrow> bool" where
  "is_i64 i \<longleftrightarrow> - (2 ^ 63) \<le> i \<and> i < 2 ^ 63"

lemma digit_of_nat:
  assumes "d < 10"
  shows "is_ascii_digit (of_nat (48 + d))" and "unat (of_nat (48 + d) :: u8) = 48 + d"
proof -
  show u: "unat (of_nat (48 + d) :: u8) = 48 + d"
    using assms by (intro unat_of_nat_small) simp
  then show "is_ascii_digit (of_nat (48 + d))"
    using assms by (simp add: is_ascii_digit_def word_le_nat_alt)
qed

lemma parse_dec_append: "parse_dec b acc (xs @ ys) = Option.bind (parse_dec b acc xs) (\<lambda>a. parse_dec b a ys)"
  by (induction b acc xs rule: parse_dec.induct) (auto simp: Let_def)

lemma parse_dec_text: "n \<le> b \<Longrightarrow> parse_dec b 0 (dec_text n) = Some n"
proof (induction n rule: dec_text.induct)
  case (1 n)
  show ?case
  proof (cases "n < 10")
    case True
    then show ?thesis
      using 1(2) digit_of_nat [OF True] by (simp add: dec_text.simps [of n])
  next
    case False
    then have "parse_dec b 0 (dec_text (n div 10)) = Some (n div 10)"
      using 1 by simp
    with False 1(2) digit_of_nat [of "n mod 10"] show ?thesis
      by (simp add: dec_text.simps [of n] parse_dec_append)
  qed
qed

lemma dec_text_digits: "list_all is_ascii_digit (dec_text n)"
proof (induction n rule: dec_text.induct)
  case (1 n)
  then show ?case
    using digit_of_nat(1) [of n] digit_of_nat(1) [of "n mod 10"] by (cases "n < 10") (simp_all add: dec_text.simps [of n])
qed

lemma dec_text_Cons: "\<exists>b bs. dec_text n = b # bs \<and> is_ascii_digit b"
proof -
  have "dec_text n \<noteq> []"
    by (simp add: dec_text.simps [of n])
  then obtain b bs where "dec_text n = b # bs"
    by (cases "dec_text n") auto
  then show ?thesis
    using dec_text_digits [of n] by simp
qed

lemma not_digit [simp]: "\<not> is_ascii_digit 43" "\<not> is_ascii_digit 45" "\<not> is_ascii_digit 13" "\<not> is_ascii_digit 10"
  by (simp_all add: is_ascii_digit_def)

lemma parse_uint_text: "n \<le> b \<Longrightarrow> parse_uint b (dec_text n) = Some n"
  using dec_text_Cons [of n] parse_dec_text [of n b] by (auto simp: parse_uint_def)

lemma parse_i64_text: "is_i64 i \<Longrightarrow> parse_i64 (int_text i) = Some i"
proof -
  assume i: "is_i64 i"
  show ?thesis
  proof (cases "i < 0")
    case True
    then have "parse_dec (2 ^ 63) 0 (dec_text (nat (- i))) = Some (nat (- i))"
      using i by (intro parse_dec_text) (simp add: is_i64_def nat_le_iff)
    with True dec_text_Cons [of "nat (- i)"] show ?thesis
      by (auto simp: parse_i64_def int_text_def)
  next
    case False
    then have "parse_uint (2 ^ 63 - 1) (dec_text (nat i)) = Some (nat i)"
      using i by (intro parse_uint_text) (simp add: is_i64_def nat_le_iff)
    with False dec_text_Cons [of "nat i"] show ?thesis
      by (auto simp: parse_i64_def int_text_def)
  qed
qed

lemma parse_dec_le: "parse_dec b acc s = Some n \<Longrightarrow> acc \<le> b \<Longrightarrow> n \<le> b"
  by (induction b acc s rule: parse_dec.induct) (auto simp: Let_def split: if_splits)

lemma parse_uint_le: "parse_uint b s = Some n \<Longrightarrow> n \<le> b"
  by (auto simp: parse_uint_def Let_def split: if_splits dest: parse_dec_le)

lemma parse_i64_range: "parse_i64 s = Some i \<Longrightarrow> is_i64 i"
  by (auto simp: parse_i64_def is_i64_def split: list.splits if_splits dest!: parse_dec_le parse_uint_le)

subsection \<open>Lines\<close>

fun find_crlf :: "bytes \<Rightarrow> nat option" where
  "find_crlf (a # b # s) = (if a = 13 \<and> b = 10 then Some 0 else map_option Suc (find_crlf (b # s)))"
| "find_crlf s = None"

lemma find_crlf_append: "find_crlf xs = Some i \<Longrightarrow> find_crlf (xs @ ys) = Some i"
  by (induction xs arbitrary: i rule: find_crlf.induct) (auto split: if_splits)

lemma find_crlf_bound: "find_crlf xs = Some i \<Longrightarrow> i + 2 \<le> length xs"
  by (induction xs arbitrary: i rule: find_crlf.induct) (auto split: if_splits)

lemma find_crlf_line: "find_crlf line = None \<Longrightarrow> find_crlf (line @ 13 # 10 # rest) = Some (length line)"
  by (induction line rule: find_crlf.induct) (auto split: if_splits)

lemma find_crlf_None: "13 \<notin> set s \<Longrightarrow> find_crlf s = None"
  by (induction s rule: find_crlf.induct) auto

lemma digits_line:
  assumes "list_all is_ascii_digit s"
  shows "find_crlf s = None" and "from_utf8 s = Some s"
proof -
  show "find_crlf s = None"
    using assms by (intro find_crlf_None) (auto simp: list_all_iff)
  have "list_all (\<lambda>b. b < 128) s"
    using assms by (auto simp: list_all_iff is_ascii_digit_def word_le_nat_alt word_less_nat_alt)
  then show "from_utf8 s = Some s"
    by (simp add: from_utf8_def utf8_valid_ascii ascii_def)
qed

lemma int_text_line: "find_crlf (int_text i) = None" "from_utf8 (int_text i) = Some (int_text i)"
proof -
  have d: "list_all (\<lambda>b. b < 128 \<and> b \<noteq> 13) (dec_text n)" for n
    using dec_text_digits [of n] by (auto simp: list_all_iff is_ascii_digit_def word_le_nat_alt word_less_nat_alt)
  then have "13 \<notin> set (int_text i)" "list_all (\<lambda>b. b < 128) (int_text i)"
    by (auto simp: int_text_def list_all_iff)
  then show "find_crlf (int_text i) = None" "from_utf8 (int_text i) = Some (int_text i)"
    by (simp_all add: find_crlf_None from_utf8_def utf8_valid_ascii ascii_def)
qed

subsection \<open>Splitting valid text at an ASCII byte\<close>

lemma is_cont_ge: "is_cont b \<Longrightarrow> 128 \<le> b"
  using word_and_le1 [of b 192] word_and_le2 [of b 192] by (simp add: is_cont_def)

lemma utf8_step_conts:
  assumes "utf8_step bs = (n, True)" and "0 < i" and "i < n"
  shows "128 \<le> get0 bs i"
proof -
  have s: "second3_ok b c \<Longrightarrow> 128 \<le> c" "second4_ok b c \<Longrightarrow> 128 \<le> c" for b c
    by (auto simp: second3_ok_def second4_ok_def word_le_nat_alt)
  have "n \<le> 4"
    using assms(1) by (auto simp: utf8_step_def Let_def split: nat.splits if_splits)
  then consider "i = Suc 0" | "i = 2" | "i = 3"
    using assms(2,3) by linarith
  then show ?thesis
    using assms(1,3) s by cases (auto simp: utf8_step_def Let_def dest!: is_cont_ge split: nat.splits if_splits)
qed

lemma utf8_step_append:
  assumes "utf8_step (xs @ ys) = (n, True)" and "n \<le> length xs"
  shows "utf8_step xs = (n, True)"
proof -
  have "get0 (xs @ ys) i = get0 xs i" if "i < n" for i
    using that assms(2) by (simp add: get0_def nth_append)
  then show ?thesis
    using assms(1) by (auto simp: utf8_step_def Let_def split: nat.splits if_splits)
qed

lemma utf8_valid_split:
  assumes "utf8_valid (xs @ b # ys)" and "b < 128"
  shows "utf8_valid xs" and "utf8_valid ys"
proof -
  have "utf8_valid xs \<and> utf8_valid ys"
    using assms
  proof (induction "length xs" arbitrary: xs rule: less_induct)
    case less
    show ?case
    proof (cases xs)
      case Nil
      then show ?thesis
        using less.prems by (simp add: utf8_step_ascii)
    next
      case (Cons x xs')
      obtain n where n: "utf8_step (xs @ b # ys) = (n, True)" "utf8_valid (drop n (xs @ b # ys))"
        using less.prems(1) by (auto simp: Cons)
      have le: "n \<le> length xs"
      proof (rule ccontr)
        assume "\<not> n \<le> length xs"
        then have "128 \<le> get0 (xs @ b # ys) (length xs)"
          using n(1) by (intro utf8_step_conts) (auto simp: Cons)
        with less.prems(2) show False
          by (simp add: get0_def)
      qed
      have "0 < n"
        using utf8_step_pos [of "xs @ b # ys"] n(1) by simp
      moreover have "utf8_valid (drop n xs @ b # ys)"
        using n(2) le by simp
      ultimately have "utf8_valid (drop n xs) \<and> utf8_valid ys"
        using less.hyps [of "drop n xs"] less.prems(2) by (simp add: Cons)
      then show ?thesis
        using utf8_step_append [OF n(1) le] by (simp add: Cons)
    qed
  qed
  then show "utf8_valid xs" and "utf8_valid ys"
    by simp_all
qed

subsection \<open>White space and lines of text\<close>

text \<open>
  The bytes of the white-space character a text starts with, none when it starts with another one:
  the ASCII ones, U+0085, U+00A0, U+1680, U+2000 to U+200A, U+2028, U+2029, U+202F, U+205F, U+3000.
\<close>

definition ws_len :: "bytes \<Rightarrow> nat" where
  "ws_len bs =
    (let a = get0 bs 0; b = get0 bs 1; c = get0 bs 2 in
     if bs = [] then 0
     else if a = 0x20 \<or> 0x09 \<le> a \<and> a \<le> 0x0D then 1
     else if a = 0xC2 \<and> (b = 0x85 \<or> b = 0xA0) then 2
     else if a = 0xE1 \<and> b = 0x9A \<and> c = 0x80 \<or>
       a = 0xE2 \<and> b = 0x80 \<and> (0x80 \<le> c \<and> c \<le> 0x8A \<or> c = 0xA8 \<or> c = 0xA9 \<or> c = 0xAF) \<or>
       a = 0xE2 \<and> b = 0x81 \<and> c = 0x9F \<or> a = 0xE3 \<and> b = 0x80 \<and> c = 0x80 then 3
     else 0)"

function split_whitespace_acc :: "bytes \<Rightarrow> bytes \<Rightarrow> bytes list" where
  "split_whitespace_acc word [] = (if word = [] then [] else [word])"
| "split_whitespace_acc word (b # bs) =
    (let n = ws_len (b # bs) in
     if n = 0 then split_whitespace_acc (word @ [b]) bs
     else (if word = [] then [] else [word]) @ split_whitespace_acc [] (drop (n - 1) bs))"
  by pat_completeness auto
termination
  by (relation "measure (\<lambda>(w, bs). length bs)") auto

definition split_whitespace :: "bytes \<Rightarrow> bytes list" where
  "split_whitespace bs = split_whitespace_acc [] bs"

fun strip_cr :: "bytes \<Rightarrow> bytes" where
  "strip_cr l = (if l \<noteq> [] \<and> last l = 13 then butlast l else l)"

text \<open>\<open>str::lines\<close>: a final line feed ends the last line, and a carriage return before one is dropped.\<close>

fun text_lines_acc :: "bytes \<Rightarrow> bytes \<Rightarrow> bytes list" where
  "text_lines_acc l [] = (if l = [] then [] else [l])"
| "text_lines_acc l (b # bs) = (if b = 10 then strip_cr l # text_lines_acc [] bs else text_lines_acc (l @ [b]) bs)"

definition text_lines :: "bytes \<Rightarrow> bytes list" where
  "text_lines bs = text_lines_acc [] bs"

lemma text_lines_line:
  "10 \<notin> set l \<Longrightarrow> text_lines_acc acc (l @ 10 # rest) = strip_cr (acc @ l) # text_lines rest"
  by (induction l arbitrary: acc) (auto simp: text_lines_def)

lemma split_whitespace_acc_word:
  assumes "list_all (\<lambda>b. ws_len (b # rest) = 0 \<and> (\<forall>xs. ws_len (b # xs) = 0)) w"
  shows "split_whitespace_acc acc (w @ rest) = split_whitespace_acc (acc @ w) rest"
  using assms by (induction w arbitrary: acc) auto

definition plain_word :: "bytes \<Rightarrow> bool" where
  "plain_word w \<longleftrightarrow> w \<noteq> [] \<and> list_all (\<lambda>b. 0x20 < b \<and> b < 0x80) w"

lemma ws_len_plain: "0x20 < b \<Longrightarrow> b < 0x80 \<Longrightarrow> ws_len (b # xs) = 0"
proof -
  assume b: "0x20 < b" "b < 0x80"
  have "b \<noteq> 0x20" "b \<noteq> 0xC2" "b \<noteq> 0xE1" "b \<noteq> 0xE2" "b \<noteq> 0xE3"
    using b by auto
  moreover have "\<not> b \<le> 0x0D"
    using b(1) by (simp add: word_less_nat_alt word_le_nat_alt)
  ultimately show ?thesis
    by (simp add: ws_len_def get0_def Let_def)
qed

lemma ws_len_blank: "ws_len (32 # xs) = 1"
  by (simp add: ws_len_def get0_def)

lemma split_whitespace_words:
  assumes "plain_word a" and "plain_word b" and "plain_word c"
  shows "split_whitespace (a @ 32 # b @ 32 # c) = [a, b, c]"
proof -
  have word: "split_whitespace_acc acc (w @ rest) = split_whitespace_acc (acc @ w) rest" if "plain_word w" for w acc rest
    using that by (intro split_whitespace_acc_word) (auto simp: plain_word_def list_all_iff ws_len_plain)
  show ?thesis
    using assms word [OF assms(3), of _ "[]"]
    by (simp add: split_whitespace_def word ws_len_blank) (auto simp: plain_word_def)
qed

end
