(* ===== verification/Resp_Frame.thy ===== *)
theory Resp_Frame
  imports Text
begin

text \<open>
  The RESP2 and RESP3 wire format of \<open>skeg-resp3\<close>: frames (\<open>frame.rs\<close>), the parser (\<open>parser.rs\<close>),
  the encoder with its RESP2 downgrades (\<open>encoder.rs\<close>) and the buffering decoder (\<open>decoder.rs\<close>). A
  double is its 64-bit pattern; the decimal text of a finite double is a parameter.
\<close>

subsection \<open>Frames\<close>

datatype resp_frame =
    Frame_Simple bytes
  | Frame_Error bytes
  | Frame_Integer int
  | Frame_Bulk bytes
  | Frame_Null
  | Frame_Array "resp_frame list"
  | Frame_BlobError bytes bytes
  | Frame_Boolean bool
  | Frame_Double u64
  | Frame_Map "(resp_frame \<times> resp_frame) list"
  | Frame_Set "resp_frame list"
  | Frame_Push "resp_frame list"
  | Frame_Verbatim "u8 \<times> u8 \<times> u8" bytes
  | Frame_BigNumber bytes

definition frame_ok_reply :: resp_frame where
  "frame_ok_reply = Frame_Simple (lit ''OK'')"

definition frame_pong :: resp_frame where
  "frame_pong = Frame_Simple (lit ''PONG'')"

datatype proto_version = Resp2 | Resp3

definition is_resp3 :: "proto_version \<Rightarrow> bool" where
  "is_resp3 v \<longleftrightarrow> v = Resp3"

subsection \<open>Parser\<close>

definition MAX_AGGREGATE_LEN :: nat where
  "MAX_AGGREGATE_LEN = 1048576"

definition MAX_BULK_LEN :: nat where
  "MAX_BULK_LEN = 512 * 1024 * 1024"

definition MAX_NESTING_DEPTH :: nat where
  "MAX_NESTING_DEPTH = 128"

datatype resp_parse_error =
    UnknownTypeMarker u8
  | InvalidUtf8
  | InvalidInteger bytes
  | InvalidLength int
  | AggregateTooLarge nat
  | NestingTooDeep nat
  | BulkTooLarge nat
  | InvalidBoolean bytes
  | InvalidDouble bytes
  | InvalidVerbatim
  | UnexpectedPayload

type_synonym 'a parsed = "resp_parse_error + ('a \<times> nat) option"

definition shift :: "('a \<times> nat) option \<Rightarrow> ('a \<times> nat) option" where
  "shift x = map_option (\<lambda>(f, n). (f, n + 1)) x"

text \<open>The first line of a body as text; \<open>k\<close> continues with the line and its length.\<close>

definition text_line :: "bytes \<Rightarrow> (bytes \<Rightarrow> nat \<Rightarrow> 'a parsed) \<Rightarrow> 'a parsed" where
  "text_line body k =
    (case find_crlf body of
       None \<Rightarrow> Inr None
     | Some e \<Rightarrow> (case from_utf8 (take e body) of None \<Rightarrow> Inl InvalidUtf8 | Some s \<Rightarrow> k s e))"

text \<open>A first line that must be an \<open>i64\<close>.\<close>

definition int_line :: "bytes \<Rightarrow> (int \<Rightarrow> nat \<Rightarrow> 'a parsed) \<Rightarrow> 'a parsed" where
  "int_line body k =
    text_line body (\<lambda>s e. case parse_i64 s of None \<Rightarrow> Inl (InvalidInteger s) | Some n \<Rightarrow> k n e)"

definition parse_line :: "bytes \<Rightarrow> bytes parsed" where
  "parse_line body = text_line body (\<lambda>s e. Inr (Some (s, e + 2)))"

definition parse_integer_line :: "bytes \<Rightarrow> int parsed" where
  "parse_integer_line body = int_line body (\<lambda>n e. Inr (Some (n, e + 2)))"

definition parse_bulk :: "bytes \<Rightarrow> resp_frame parsed" where
  "parse_bulk body = int_line body (\<lambda>len len_end.
     if len = - 1 then Inr (Some (Frame_Null, len_end + 2))
     else if len < 0 then Inl (InvalidLength len)
     else let len = nat len in
       if len > MAX_BULK_LEN then Inl (BulkTooLarge len)
       else let start = len_end + 2; e = start + len in
         if length body < e + 2 then Inr None
         else if bslice e (e + 2) body \<noteq> [13, 10] then Inr None
         else Inr (Some (Frame_Bulk (bslice start e body), e + 2)))"

datatype agg_kind = Agg_Array | Agg_Set | Agg_Push | Agg_Map

definition parse_null_resp3 :: "bytes \<Rightarrow> resp_frame parsed" where
  "parse_null_resp3 body =
    (case find_crlf body of
       None \<Rightarrow> Inr None
     | Some e \<Rightarrow> if e \<noteq> 0 then Inl UnexpectedPayload else Inr (Some (Frame_Null, 2)))"

definition parse_boolean :: "bytes \<Rightarrow> resp_frame parsed" where
  "parse_boolean body =
    (case find_crlf body of
       None \<Rightarrow> Inr None
     | Some e \<Rightarrow>
         if take e body = lit ''t'' then Inr (Some (Frame_Boolean True, e + 2))
         else if take e body = lit ''f'' then Inr (Some (Frame_Boolean False, e + 2))
         else Inl (InvalidBoolean (take e body)))"

text \<open>\<open>f64_parse\<close> stands for \<open>str::parse::<f64>\<close>.\<close>

definition parse_double :: "(bytes \<Rightarrow> u64 option) \<Rightarrow> bytes \<Rightarrow> resp_frame parsed" where
  "parse_double f64_parse body = text_line body (\<lambda>s e.
     case f64_parse s of None \<Rightarrow> Inl (InvalidDouble s) | Some v \<Rightarrow> Inr (Some (Frame_Double v, e + 2)))"

fun split_space :: "bytes \<Rightarrow> bytes \<times> bytes" where
  "split_space [] = ([], [])"
| "split_space (b # bs) = (if b = 32 then ([], bs) else (case split_space bs of (c, m) \<Rightarrow> (b # c, m)))"

definition parse_blob_error :: "bytes \<Rightarrow> resp_frame parsed" where
  "parse_blob_error body = int_line body (\<lambda>len len_end.
     if len < 0 then Inl (InvalidLength len)
     else let len = nat len in
       if len > MAX_BULK_LEN then Inl (BulkTooLarge len)
       else let start = len_end + 2; e = start + len in
         if length body < e + 2 then Inr None
         else if bslice e (e + 2) body \<noteq> [13, 10] then Inr None
         else (case from_utf8 (bslice start e body) of
                 None \<Rightarrow> Inl InvalidUtf8
               | Some payload \<Rightarrow>
                   (case split_space payload of (code, message) \<Rightarrow> Inr (Some (Frame_BlobError code message, e + 2)))))"

definition parse_verbatim :: "bytes \<Rightarrow> resp_frame parsed" where
  "parse_verbatim body = int_line body (\<lambda>len len_end.
     if len < 0 then Inl (InvalidLength len)
     else let len = nat len in
       if len > MAX_BULK_LEN then Inl (BulkTooLarge len)
       else if len < 4 then Inl InvalidVerbatim
       else let start = len_end + 2; e = start + len in
         if length body < e + 2 then Inr None
         else if bslice e (e + 2) body \<noteq> [13, 10] then Inr None
         else if body ! (start + 3) \<noteq> 58 then Inl InvalidVerbatim
         else Inr (Some (Frame_Verbatim (body ! start, body ! (start + 1), body ! (start + 2))
                           (bslice (start + 4) e body), e + 2)))"

definition big_number_valid :: "bytes \<Rightarrow> bool" where
  "big_number_valid s =
    (case s of
       [] \<Rightarrow> False
     | b # bs \<Rightarrow>
         if b = 45 \<or> b = 43 then length s > 1 \<and> list_all is_ascii_digit bs
         else list_all is_ascii_digit s)"

definition parse_big_number :: "bytes \<Rightarrow> resp_frame parsed" where
  "parse_big_number body = text_line body (\<lambda>s e.
     if \<not> big_number_valid s then Inl (InvalidInteger s) else Inr (Some (Frame_BigNumber s, e + 2)))"

text \<open>The pairs of a map from its frames; the source's \<open>expect\<close> on an odd count is unreachable.\<close>

fun pairs_of :: "'a list \<Rightarrow> ('a \<times> 'a) list" where
  "pairs_of (k # v # rest) = (k, v) # pairs_of rest"
| "pairs_of _ = []"

definition agg_frame :: "agg_kind \<Rightarrow> resp_frame list \<Rightarrow> resp_frame" where
  "agg_frame kind items =
    (case kind of
       Agg_Array \<Rightarrow> Frame_Array items
     | Agg_Set \<Rightarrow> Frame_Set items
     | Agg_Push \<Rightarrow> Frame_Push items
     | Agg_Map \<Rightarrow> Frame_Map (pairs_of items))"

text \<open>
  The header of an aggregate: \<open>None\<close> in the second place for the RESP2 null array, else the number of
  frames that follow.
\<close>

definition agg_header :: "agg_kind \<Rightarrow> bytes \<Rightarrow> (nat option) parsed" where
  "agg_header kind body = int_line body (\<lambda>count len_end.
     if count = - 1
     then (if kind = Agg_Array then Inr (Some (None, len_end + 2)) else Inl (InvalidLength (- 1)))
     else if count < 0 then Inl (InvalidLength count)
     else let count = nat count in
       if count > MAX_AGGREGATE_LEN then Inl (AggregateTooLarge count)
       else Inr (Some (Some (if kind = Agg_Map then count * 2 else count), len_end + 2)))"

definition agg_of_marker :: "u8 \<Rightarrow> agg_kind option" where
  "agg_of_marker m =
    (if m = 42 then Some Agg_Array else if m = 37 then Some Agg_Map
     else if m = 126 then Some Agg_Set else if m = 62 then Some Agg_Push else None)"

text \<open>The arms of the type marker that hold no frames.\<close>

definition parse_scalar :: "(bytes \<Rightarrow> u64 option) \<Rightarrow> u8 \<Rightarrow> bytes \<Rightarrow> resp_frame parsed" where
  "parse_scalar f64_parse m body =
    (if m = 43 then map_sum id (map_option (\<lambda>(s, n). (Frame_Simple s, n + 1))) (parse_line body)
     else if m = 45 then map_sum id (map_option (\<lambda>(s, n). (Frame_Error s, n + 1))) (parse_line body)
     else if m = 58 then map_sum id (map_option (\<lambda>(i, n). (Frame_Integer i, n + 1))) (parse_integer_line body)
     else if m = 36 then map_sum id shift (parse_bulk body)
     else if m = 95 then map_sum id shift (parse_null_resp3 body)
     else if m = 35 then map_sum id shift (parse_boolean body)
     else if m = 44 then map_sum id shift (parse_double f64_parse body)
     else if m = 33 then map_sum id shift (parse_blob_error body)
     else if m = 61 then map_sum id shift (parse_verbatim body)
     else if m = 40 then map_sum id shift (parse_big_number body)
     else Inl (UnknownTypeMarker m))"

text \<open>
  One frame, and \<open>n\<close> frames in a row with the bytes they take together. The source's loop is
  \<open>parse_items\<close>; it passes \<open>depth + 1\<close> on.
\<close>

fun parse_frame_depth :: "(bytes \<Rightarrow> u64 option) \<Rightarrow> bytes \<Rightarrow> nat \<Rightarrow> resp_frame parsed"
  and parse_items :: "(bytes \<Rightarrow> u64 option) \<Rightarrow> bytes \<Rightarrow> nat \<Rightarrow> nat \<Rightarrow> (resp_frame list) parsed" where
  "parse_frame_depth f64_parse [] depth = Inr None"
| "parse_frame_depth f64_parse (m # body) depth =
    (if depth > MAX_NESTING_DEPTH then Inl (NestingTooDeep depth)
     else case agg_of_marker m of
       None \<Rightarrow> parse_scalar f64_parse m body
     | Some kind \<Rightarrow>
         (case agg_header kind body of
            Inl e \<Rightarrow> Inl e
          | Inr None \<Rightarrow> Inr None
          | Inr (Some (None, n)) \<Rightarrow> Inr (Some (Frame_Null, n + 1))
          | Inr (Some (Some count, n)) \<Rightarrow>
              (case parse_items f64_parse (drop n body) depth count of
                 Inl e \<Rightarrow> Inl e
               | Inr None \<Rightarrow> Inr None
               | Inr (Some (items, k)) \<Rightarrow> Inr (Some (agg_frame kind items, n + k + 1)))))"
| "parse_items f64_parse rest depth 0 = Inr (Some ([], 0))"
| "parse_items f64_parse rest depth (Suc c) =
    (case parse_frame_depth f64_parse rest (depth + 1) of
       Inl e \<Rightarrow> Inl e
     | Inr None \<Rightarrow> Inr None
     | Inr (Some (f, n)) \<Rightarrow>
         (case parse_items f64_parse (drop n rest) depth c of
            Inl e \<Rightarrow> Inl e
          | Inr None \<Rightarrow> Inr None
          | Inr (Some (fs, k)) \<Rightarrow> Inr (Some (f # fs, n + k))))"

definition parse_frame :: "(bytes \<Rightarrow> u64 option) \<Rightarrow> bytes \<Rightarrow> resp_frame parsed" where
  "parse_frame f64_parse input = parse_frame_depth f64_parse input 0"

subsection \<open>Encoder\<close>

definition f64_is_nan :: "u64 \<Rightarrow> bool" where
  "f64_is_nan d \<longleftrightarrow> d AND 0x7FF0000000000000 = 0x7FF0000000000000 \<and> d AND 0x000FFFFFFFFFFFFF \<noteq> 0"

definition f64_is_infinite :: "u64 \<Rightarrow> bool" where
  "f64_is_infinite d \<longleftrightarrow> d = 0x7FF0000000000000 \<or> d = 0xFFF0000000000000"

text \<open>\<open>f64_show\<close> stands for the \<open>Display\<close> text of a finite double.\<close>

definition format_double :: "(u64 \<Rightarrow> bytes) \<Rightarrow> u64 \<Rightarrow> bytes" where
  "format_double f64_show d =
    (if f64_is_nan d then lit ''nan''
     else if f64_is_infinite d
     then (if d AND 0x8000000000000000 = 0 then lit ''inf'' else lit ''-inf'')
     else f64_show d)"

definition crlf :: bytes where
  "crlf = [13, 10]"

definition write_line :: "u8 \<Rightarrow> bytes \<Rightarrow> bytes" where
  "write_line marker line = marker # line @ crlf"

definition write_int :: "int \<Rightarrow> bytes" where
  "write_int n = int_text n"

definition write_usize :: "nat \<Rightarrow> bytes" where
  "write_usize n = dec_text n"

definition write_bulk :: "bytes \<Rightarrow> bytes" where
  "write_bulk data = 36 # write_usize (length data) @ crlf @ data @ crlf"

definition write_blob_error :: "bytes \<Rightarrow> bytes \<Rightarrow> proto_version \<Rightarrow> bytes" where
  "write_blob_error code message version =
    (let payload_len = (if message = [] then length code else length code + 1 + length message) in
     (if is_resp3 version then 33 # write_usize payload_len @ crlf else [45]) @
     code @ (if message \<noteq> [] then 32 # message else []) @ crlf)"

definition write_verbatim :: "u8 \<times> u8 \<times> u8 \<Rightarrow> bytes \<Rightarrow> proto_version \<Rightarrow> bytes" where
  "write_verbatim fmt data version =
    (if is_resp3 version
     then (let payload_len = 3 + 1 + length data in
           61 # write_usize payload_len @ crlf @
           [fst fmt, fst (snd fmt), snd (snd fmt)] @ [58] @ data @ crlf)
     else write_bulk data)"

text \<open>\<open>write_frames\<close> and \<open>write_map\<close> over the encodings of the elements.\<close>

definition write_frames :: "u8 \<Rightarrow> bytes list \<Rightarrow> bytes" where
  "write_frames marker items = marker # write_usize (length items) @ crlf @ concat items"

definition write_map :: "(bytes \<times> bytes) list \<Rightarrow> proto_version \<Rightarrow> bytes" where
  "write_map pairs version =
    (if is_resp3 version then 37 # write_usize (length pairs) else 42 # write_usize (length pairs * 2)) @ crlf @
    concat (map (\<lambda>(k, v). k @ v) pairs)"

primrec resp_encode :: "(u64 \<Rightarrow> bytes) \<Rightarrow> proto_version \<Rightarrow> resp_frame \<Rightarrow> bytes" where
  "resp_encode f64_show version (Frame_Simple s) = write_line 43 s"
| "resp_encode f64_show version (Frame_Error s) = write_line 45 s"
| "resp_encode f64_show version (Frame_Integer n) = 58 # write_int n @ crlf"
| "resp_encode f64_show version (Frame_Bulk b) = write_bulk b"
| "resp_encode f64_show version Frame_Null = (if is_resp3 version then 95 # crlf else lit ''$-1'' @ crlf)"
| "resp_encode f64_show version (Frame_Array items) = write_frames 42 (map (resp_encode f64_show version) items)"
| "resp_encode f64_show version (Frame_Boolean v) =
    (if is_resp3 version then (if v then lit ''#t'' else lit ''#f'') @ crlf
     else (if v then lit '':1'' else lit '':0'') @ crlf)"
| "resp_encode f64_show version (Frame_Double d) =
    (let s = format_double f64_show d in if is_resp3 version then 44 # s @ crlf else write_bulk s)"
| "resp_encode f64_show version (Frame_Map pairs) =
    write_map (map (map_prod (resp_encode f64_show version) (resp_encode f64_show version)) pairs) version"
| "resp_encode f64_show version (Frame_Set items) =
    write_frames (if is_resp3 version then 126 else 42) (map (resp_encode f64_show version) items)"
| "resp_encode f64_show version (Frame_Push items) =
    write_frames (if is_resp3 version then 62 else 42) (map (resp_encode f64_show version) items)"
| "resp_encode f64_show version (Frame_BlobError code message) = write_blob_error code message version"
| "resp_encode f64_show version (Frame_Verbatim fmt data) = write_verbatim fmt data version"
| "resp_encode f64_show version (Frame_BigNumber s) = (if is_resp3 version then 40 # s @ crlf else write_bulk s)"

subsection \<open>What a frame is on the wire\<close>

text \<open>The RESP2 downgrade table of the encoder's header, and the bounds under which a frame can be sent.\<close>

definition blob_text :: "bytes \<Rightarrow> bytes \<Rightarrow> bytes" where
  "blob_text code message = (if message = [] then code else code @ 32 # message)"

primrec downgrade :: "(u64 \<Rightarrow> bytes) \<Rightarrow> resp_frame \<Rightarrow> resp_frame" where
  "downgrade sh (Frame_Simple s) = Frame_Simple s"
| "downgrade sh (Frame_Error s) = Frame_Error s"
| "downgrade sh (Frame_Integer n) = Frame_Integer n"
| "downgrade sh (Frame_Bulk b) = Frame_Bulk b"
| "downgrade sh Frame_Null = Frame_Null"
| "downgrade sh (Frame_Array items) = Frame_Array (map (downgrade sh) items)"
| "downgrade sh (Frame_Boolean v) = Frame_Integer (if v then 1 else 0)"
| "downgrade sh (Frame_Double d) = Frame_Bulk (format_double sh d)"
| "downgrade sh (Frame_Map pairs) = Frame_Array (concat (map (\<lambda>(k, v). [k, v]) (map (map_prod (downgrade sh) (downgrade sh)) pairs)))"
| "downgrade sh (Frame_Set items) = Frame_Array (map (downgrade sh) items)"
| "downgrade sh (Frame_Push items) = Frame_Array (map (downgrade sh) items)"
| "downgrade sh (Frame_BlobError code message) = Frame_Error (blob_text code message)"
| "downgrade sh (Frame_Verbatim fmt data) = Frame_Bulk data"
| "downgrade sh (Frame_BigNumber s) = Frame_Bulk s"

definition on_wire :: "(u64 \<Rightarrow> bytes) \<Rightarrow> proto_version \<Rightarrow> resp_frame \<Rightarrow> resp_frame" where
  "on_wire sh v f = (if is_resp3 v then f else downgrade sh f)"

definition line_ok :: "bytes \<Rightarrow> bool" where
  "line_ok s \<longleftrightarrow> utf8_valid s \<and> find_crlf s = None"

primrec frame_fits :: "resp_frame \<Rightarrow> bool" where
  "frame_fits (Frame_Simple s) \<longleftrightarrow> line_ok s"
| "frame_fits (Frame_Error s) \<longleftrightarrow> line_ok s"
| "frame_fits (Frame_Integer n) \<longleftrightarrow> is_i64 n"
| "frame_fits (Frame_Bulk b) \<longleftrightarrow> length b \<le> MAX_BULK_LEN"
| "frame_fits Frame_Null \<longleftrightarrow> True"
| "frame_fits (Frame_Array items) \<longleftrightarrow> length items \<le> MAX_AGGREGATE_LEN \<and> list_all id (map frame_fits items)"
| "frame_fits (Frame_Boolean v) \<longleftrightarrow> True"
| "frame_fits (Frame_Double d) \<longleftrightarrow> \<not> f64_is_nan d"
| "frame_fits (Frame_Map pairs) \<longleftrightarrow> 2 * length pairs \<le> MAX_AGGREGATE_LEN \<and>
    list_all (\<lambda>(a, b). a \<and> b) (map (map_prod frame_fits frame_fits) pairs)"
| "frame_fits (Frame_Set items) \<longleftrightarrow> length items \<le> MAX_AGGREGATE_LEN \<and> list_all id (map frame_fits items)"
| "frame_fits (Frame_Push items) \<longleftrightarrow> length items \<le> MAX_AGGREGATE_LEN \<and> list_all id (map frame_fits items)"
| "frame_fits (Frame_BlobError code message) \<longleftrightarrow> line_ok (blob_text code message) \<and> 32 \<notin> set code \<and>
    length (blob_text code message) \<le> MAX_BULK_LEN"
| "frame_fits (Frame_Verbatim fmt data) \<longleftrightarrow> length data + 4 \<le> MAX_BULK_LEN"
| "frame_fits (Frame_BigNumber s) \<longleftrightarrow> big_number_valid s \<and> length s \<le> MAX_BULK_LEN"

text \<open>Levels of frames below a frame.\<close>

primrec frame_depth :: "resp_frame \<Rightarrow> nat" where
  "frame_depth (Frame_Simple s) = 0"
| "frame_depth (Frame_Error s) = 0"
| "frame_depth (Frame_Integer n) = 0"
| "frame_depth (Frame_Bulk b) = 0"
| "frame_depth Frame_Null = 0"
| "frame_depth (Frame_Array items) = fold max (map (Suc \<circ> frame_depth) items) 0"
| "frame_depth (Frame_Boolean v) = 0"
| "frame_depth (Frame_Double d) = 0"
| "frame_depth (Frame_Map pairs) = fold max (map (\<lambda>(a, b). Suc (max a b)) (map (map_prod frame_depth frame_depth) pairs)) 0"
| "frame_depth (Frame_Set items) = fold max (map (Suc \<circ> frame_depth) items) 0"
| "frame_depth (Frame_Push items) = fold max (map (Suc \<circ> frame_depth) items) 0"
| "frame_depth (Frame_BlobError code message) = 0"
| "frame_depth (Frame_Verbatim fmt data) = 0"
| "frame_depth (Frame_BigNumber s) = 0"

text \<open>The documented round trip of \<open>f64\<close> through its text.\<close>

definition f64_text_ok :: "(u64 \<Rightarrow> bytes) \<Rightarrow> (bytes \<Rightarrow> u64 option) \<Rightarrow> bool" where
  "f64_text_ok sh pa \<longleftrightarrow>
     (\<forall>d. \<not> f64_is_nan d \<longrightarrow> \<not> f64_is_infinite d \<longrightarrow> pa (sh d) = Some d \<and> line_ok (sh d) \<and> length (sh d) \<le> MAX_BULK_LEN) \<and>
     pa (lit ''inf'') = Some 0x7FF0000000000000 \<and> pa (lit ''-inf'') = Some 0xFFF0000000000000"

subsection \<open>Parsing what was encoded\<close>

lemma text_line_line:
  "line_ok s \<Longrightarrow> text_line (s @ 13 # 10 # rest) k = k s (length s)"
  by (simp add: text_line_def line_ok_def find_crlf_line from_utf8_def)

lemma int_line_int: "is_i64 i \<Longrightarrow> int_line (int_text i @ 13 # 10 # rest) k = k i (length (int_text i))"
  using int_text_line [of i] unfolding int_line_def
  by (subst text_line_line) (auto simp: line_ok_def from_utf8_def parse_i64_text split: if_splits)

lemma int_line_usize:
  "n \<le> MAX_BULK_LEN \<or> n \<le> MAX_AGGREGATE_LEN \<Longrightarrow> int_line (dec_text n @ 13 # 10 # rest) k = k (int n) (length (dec_text n))"
  using int_line_int [of "int n" rest k] by (auto simp: int_text_def is_i64_def MAX_BULK_LEN_def MAX_AGGREGATE_LEN_def)

lemma bslice_mid [slice_simps]: "a = length xs \<Longrightarrow> b = length xs + length ys \<Longrightarrow> bslice a b (xs @ ys @ zs) = ys"
  by (simp add: bslice_def)

lemma payload_slices:
  fixes h d rest :: bytes
  assumes "n = length h" and "e = n + 2 + length d"
  shows "bslice (n + 2) e (h @ 13 # 10 # d @ 13 # 10 # rest) = d"
    and "bslice e (e + 2) (h @ 13 # 10 # d @ 13 # 10 # rest) = [13, 10]"
    and "e + 2 \<le> length (h @ 13 # 10 # d @ 13 # 10 # rest)"
  using assms by (simp_all add: bslice_def numeral_2_eq_2)

lemma parse_bulk_write:
  assumes "length d \<le> MAX_BULK_LEN"
  shows "parse_bulk (dec_text (length d) @ 13 # 10 # d @ 13 # 10 # rest) =
    Inr (Some (Frame_Bulk d, length (dec_text (length d)) + 2 + length d + 2))"
  using assms payload_slices [OF refl refl, of "dec_text (length d)" d rest]
  unfolding parse_bulk_def by (subst int_line_usize) (simp_all add: Let_def)

lemma split_space_text: "32 \<notin> set code \<Longrightarrow> split_space (blob_text code message) = (code, message)"
proof -
  assume "32 \<notin> set code"
  then have "split_space code = (code, [])" "split_space (code @ 32 # message) = (code, message)"
    by (induction code) auto
  then show ?thesis
    by (simp add: blob_text_def)
qed

lemma parse_blob_error_write:
  assumes "length (blob_text c m) \<le> MAX_BULK_LEN" and "line_ok (blob_text c m)" and "32 \<notin> set c"
  shows "parse_blob_error (dec_text (length (blob_text c m)) @ 13 # 10 # blob_text c m @ 13 # 10 # rest) =
    Inr (Some (Frame_BlobError c m, length (dec_text (length (blob_text c m))) + 2 + length (blob_text c m) + 2))"
  using assms payload_slices [OF refl refl, of "dec_text (length (blob_text c m))" "blob_text c m" rest]
  unfolding parse_blob_error_def
  by (subst int_line_usize) (simp_all add: Let_def line_ok_def from_utf8_def split_space_text)

lemma parse_verbatim_write:
  assumes "length d + 4 \<le> MAX_BULK_LEN"
  shows "parse_verbatim (dec_text (length d + 4) @ 13 # 10 # [a, b, c, 58] @ d @ 13 # 10 # rest) =
    Inr (Some (Frame_Verbatim (a, b, c) d, length (dec_text (length d + 4)) + 2 + (length d + 4) + 2))"
proof -
  let ?h = "dec_text (length d + 4)" and ?p = "[a, b, c, 58] @ d"
  note sl = payload_slices [OF refl refl, of ?h ?p rest]
  have nth: "(?h @ 13 # 10 # ?p @ 13 # 10 # rest) ! (length ?h + 2 + i) = (?p @ 13 # 10 # rest) ! i" for i
    by (simp add: nth_append)
  have d: "bslice (length ?h + 2 + 4) (length ?h + 2 + (length d + 4)) (?h @ 13 # 10 # ?p @ 13 # 10 # rest) = d"
    by (simp add: bslice_def)
  have "nat (int (length d) + 4) = length d + 4"
    by simp
  then show ?thesis
    using assms sl d nth [of 0] nth [of 1] nth [of 2] nth [of 3]
    unfolding parse_verbatim_def
    by (subst int_line_usize) (simp_all add: Let_def add.commute add.left_commute)
qed

lemma pairs_of_concat: "pairs_of (concat (map (\<lambda>(k, v). [k, v]) ps)) = ps"
  by (induction ps) auto

lemma fold_max_le: "fold max xs (n :: nat) \<le> b \<longleftrightarrow> n \<le> b \<and> list_all (\<lambda>x. x \<le> b) xs"
  by (induction xs arbitrary: n) auto

text \<open>A list of frames that each parse at the inner depth parses as a sequence.\<close>

lemma parse_items_concat:
  assumes "\<And>f rest. f \<in> set fs \<Longrightarrow> parse_frame_depth pa (en f @ rest) (depth + 1) = Inr (Some (g f, length (en f)))"
  shows "parse_items pa (concat (map en fs) @ rest) depth (length fs) =
    Inr (Some (map g fs, length (concat (map en fs))))"
  using assms by (induction fs arbitrary: rest) simp_all

lemma parse_aggregate_write:
  assumes "agg_of_marker m = Some kind" and "depth \<le> MAX_NESTING_DEPTH" and "n \<le> MAX_AGGREGATE_LEN"
    and "length fs = (if kind = Agg_Map then n * 2 else n)"
    and "\<And>f rest. f \<in> set fs \<Longrightarrow> parse_frame_depth pa (en f @ rest) (depth + 1) = Inr (Some (g f, length (en f)))"
  shows "parse_frame_depth pa (m # dec_text n @ 13 # 10 # concat (map en fs) @ rest) depth =
    Inr (Some (agg_frame kind (map g fs), length (m # dec_text n @ 13 # 10 # concat (map en fs))))"
proof -
  have h: "agg_header kind (dec_text n @ 13 # 10 # x) = Inr (Some (Some (length fs), length (dec_text n) + 2))" for x
    unfolding agg_header_def using assms(3,4) by (subst int_line_usize) (auto simp: Let_def)
  show ?thesis
    using parse_items_concat [of fs pa en depth g rest, OF assms(5)] assms(1,2) by (simp add: h)
qed

lemmas write_simps = write_line_def write_int_def write_usize_def write_bulk_def write_frames_def write_map_def
  write_blob_error_def write_verbatim_def crlf_def

lemma parse_frame_scalar:
  "agg_of_marker m = None \<Longrightarrow> depth \<le> MAX_NESTING_DEPTH \<Longrightarrow> parse_frame_depth pa (m # body) depth = parse_scalar pa m body"
  by simp

lemma markers:
  "agg_of_marker 43 = None" "agg_of_marker 45 = None" "agg_of_marker 58 = None" "agg_of_marker 36 = None"
  "agg_of_marker 95 = None" "agg_of_marker 35 = None" "agg_of_marker 44 = None" "agg_of_marker 33 = None"
  "agg_of_marker 61 = None" "agg_of_marker 40 = None"
  "agg_of_marker 42 = Some Agg_Array" "agg_of_marker 37 = Some Agg_Map"
  "agg_of_marker 126 = Some Agg_Set" "agg_of_marker 62 = Some Agg_Push"
  by (simp_all add: agg_of_marker_def)

lemma parse_bulk_frame:
  assumes "length d \<le> MAX_BULK_LEN" and "depth \<le> MAX_NESTING_DEPTH"
  shows "parse_frame_depth pa (write_bulk d @ rest) depth = Inr (Some (Frame_Bulk d, length (write_bulk d)))"
  using assms by (simp add: write_simps markers parse_scalar_def parse_bulk_write shift_def)

lemma parse_line_frames:
  assumes "line_ok s" and "depth \<le> MAX_NESTING_DEPTH"
  shows "parse_frame_depth pa (43 # s @ 13 # 10 # rest) depth = Inr (Some (Frame_Simple s, length s + 3))"
    and "parse_frame_depth pa (45 # s @ 13 # 10 # rest) depth = Inr (Some (Frame_Error s, length s + 3))"
  using assms by (simp_all add: markers parse_scalar_def parse_line_def text_line_line)

lemma parse_int_frame:
  assumes "is_i64 n" and "depth \<le> MAX_NESTING_DEPTH"
  shows "parse_frame_depth pa (58 # int_text n @ 13 # 10 # rest) depth = Inr (Some (Frame_Integer n, length (int_text n) + 3))"
  using assms by (simp add: markers parse_scalar_def parse_integer_line_def int_line_int)

lemma format_double_ok:
  assumes "f64_text_ok sh pa" and "\<not> f64_is_nan d"
  shows "pa (format_double sh d) = Some d" and "line_ok (format_double sh d)" and "length (format_double sh d) \<le> MAX_BULK_LEN"
proof -
  have "pa (format_double sh d) = Some d \<and> line_ok (format_double sh d) \<and> length (format_double sh d) \<le> MAX_BULK_LEN"
  proof (cases "f64_is_infinite d")
    case True
    then show ?thesis
      using assms by (auto simp: format_double_def f64_text_ok_def f64_is_infinite_def line_ok_def MAX_BULK_LEN_def
          utf8_step_ascii)
  next
    case False
    then show ?thesis
      using assms by (simp add: format_double_def f64_text_ok_def)
  qed
  then show "pa (format_double sh d) = Some d" and "line_ok (format_double sh d)" and "length (format_double sh d) \<le> MAX_BULK_LEN"
    by simp_all
qed

lemma big_number_line: "big_number_valid s \<Longrightarrow> line_ok s"
proof -
  assume v: "big_number_valid s"
  have "list_all (\<lambda>b. b < 128 \<and> b \<noteq> 13) s"
    using v by (auto simp: big_number_valid_def list_all_iff is_ascii_digit_def word_le_nat_alt word_less_nat_alt split: list.splits if_splits)
  then have "ascii s" "13 \<notin> set s"
    by (auto simp: ascii_def list_all_iff)
  then show ?thesis
    by (simp add: line_ok_def utf8_valid_ascii find_crlf_None)
qed

lemma on_wire_seq:
  assumes "\<And>f. f \<in> set items \<Longrightarrow> frame_fits f \<Longrightarrow> depth + 1 + frame_depth f \<le> MAX_NESTING_DEPTH \<Longrightarrow>
      (\<And>rest. parse_frame_depth pa (resp_encode sh v f @ rest) (depth + 1) = Inr (Some (on_wire sh v f, length (resp_encode sh v f))))"
    and "agg_of_marker m = Some kind" and "kind \<noteq> Agg_Map" and "length items \<le> MAX_AGGREGATE_LEN"
    and "list_all id (map frame_fits items)" and "depth + fold max (map (Suc \<circ> frame_depth) items) 0 \<le> MAX_NESTING_DEPTH"
  shows "parse_frame_depth pa (write_frames m (map (resp_encode sh v) items) @ rest) depth =
    Inr (Some (agg_frame kind (map (on_wire sh v) items), length (write_frames m (map (resp_encode sh v) items))))"
proof -
  have d: "depth \<le> MAX_NESTING_DEPTH"
    using assms(6) by simp
  have "fold max (map (Suc \<circ> frame_depth) items) 0 \<le> MAX_NESTING_DEPTH - depth"
    using assms(6) by simp
  then have "list_all (\<lambda>f. Suc (frame_depth f) \<le> MAX_NESTING_DEPTH - depth) items"
    unfolding fold_max_le by (simp add: list_all_iff)
  then have i: "parse_frame_depth pa (resp_encode sh v f @ rest) (depth + 1) = Inr (Some (on_wire sh v f, length (resp_encode sh v f)))"
    if "f \<in> set items" for f rest
    using that assms(5) d by (intro assms(1)) (auto simp: list_all_iff)
  from parse_aggregate_write [OF assms(2) d assms(4), of items pa "resp_encode sh v" "on_wire sh v" rest, OF _ i] assms(3)
  show ?thesis
    by (simp add: write_simps)
qed

lemma map_concat_pairs:
  "concat (map (\<lambda>(k, v). k @ v) (map (map_prod en en) ps)) = concat (map en (concat (map (\<lambda>(k, v). [k, v]) ps)))"
  "length (concat (map (\<lambda>(k, v). [k, v]) ps)) = 2 * length ps"
  "map g (concat (map (\<lambda>(k, v). [k, v]) ps)) = concat (map (\<lambda>(k, v). [k, v]) (map (map_prod g g) ps))"
  by (induction ps) auto

lemma on_wire_map:
  assumes ih: "\<And>p f rest. p \<in> set ps \<Longrightarrow> f = fst p \<or> f = snd p \<Longrightarrow> frame_fits f \<Longrightarrow> depth + 1 + frame_depth f \<le> MAX_NESTING_DEPTH \<Longrightarrow>
      parse_frame_depth pa (resp_encode sh v f @ rest) (depth + 1) = Inr (Some (on_wire sh v f, length (resp_encode sh v f)))"
    and fits: "frame_fits (Frame_Map ps)" and dep: "depth + frame_depth (Frame_Map ps) \<le> MAX_NESTING_DEPTH"
  shows "parse_frame_depth pa (resp_encode sh v (Frame_Map ps) @ rest) depth =
    Inr (Some (on_wire sh v (Frame_Map ps), length (resp_encode sh v (Frame_Map ps))))"
proof -
  let ?fs = "concat (map (\<lambda>(k, v). [k, v]) ps)"
  have d: "depth \<le> MAX_NESTING_DEPTH" and n: "2 * length ps \<le> MAX_AGGREGATE_LEN"
    using fits dep by simp_all
  have "fold max (map (\<lambda>(a, b). Suc (max a b)) (map (map_prod frame_depth frame_depth) ps)) 0 \<le> MAX_NESTING_DEPTH - depth"
    using dep by simp
  then have dp: "list_all (\<lambda>(k, x). Suc (max (frame_depth k) (frame_depth x)) \<le> MAX_NESTING_DEPTH - depth) ps"
    unfolding fold_max_le by (auto simp: list_all_iff)
  have i: "parse_frame_depth pa (resp_encode sh v f @ rest) (depth + 1) = Inr (Some (on_wire sh v f, length (resp_encode sh v f)))"
    if f: "f \<in> set ?fs" for f rest
  proof -
    obtain p where p: "p \<in> set ps" "f = fst p \<or> f = snd p"
      using f by (auto simp: split_beta)
    then have "frame_fits f" "depth + 1 + frame_depth f \<le> MAX_NESTING_DEPTH"
      using fits dp d by (auto simp: list_all_iff split_beta)
    then show ?thesis
      by (rule ih [OF p])
  qed
  have e: "resp_encode sh v (Frame_Map ps) =
      (if is_resp3 v then 37 # dec_text (length ps) else 42 # dec_text (2 * length ps)) @ 13 # 10 # concat (map (resp_encode sh v) ?fs)"
    unfolding resp_encode.simps write_map_def map_concat_pairs(1) by (simp add: write_usize_def crlf_def mult.commute)
  have w: "on_wire sh v (Frame_Map ps) = agg_frame (if is_resp3 v then Agg_Map else Agg_Array) (map (on_wire sh v) ?fs)"
    unfolding on_wire_def [abs_def] downgrade.simps map_concat_pairs(3) [symmetric] by (simp add: agg_frame_def pairs_of_concat)
  note r = parse_aggregate_write [of 37 Agg_Map depth "length ps" ?fs pa "resp_encode sh v" "on_wire sh v" rest, OF markers(12) d _ _ i]
    parse_aggregate_write [of 42 Agg_Array depth "2 * length ps" ?fs pa "resp_encode sh v" "on_wire sh v" rest, OF markers(11) d n _ i]
  have l: "length ?fs = 2 * length ps"
    by (rule map_concat_pairs(2))
  show ?thesis
    unfolding e w using r l n by (cases "is_resp3 v") (simp_all only: if_True if_False append.simps append_assoc agg_kind.simps mult.commute, simp_all)
qed

lemma dec_text_small: "dec_text 0 = [48]" "dec_text (Suc 0) = [49]"
  by (simp_all add: dec_text.simps)

lemma map_on_wire: "map (on_wire sh v) fs = (if is_resp3 v then fs else map (downgrade sh) fs)"
  by (simp add: on_wire_def [abs_def])

lemma parse_encoded_scalars:
  assumes d: "depth \<le> MAX_NESTING_DEPTH"
  shows "parse_frame_depth pa (resp_encode sh v Frame_Null @ rest) depth = Inr (Some (Frame_Null, length (resp_encode sh v Frame_Null)))"
    and "parse_frame_depth pa (resp_encode sh v (Frame_Boolean b) @ rest) depth =
      Inr (Some (on_wire sh v (Frame_Boolean b), length (resp_encode sh v (Frame_Boolean b))))"
    and "f64_text_ok sh pa \<Longrightarrow> \<not> f64_is_nan x \<Longrightarrow> parse_frame_depth pa (resp_encode sh v (Frame_Double x) @ rest) depth =
      Inr (Some (on_wire sh v (Frame_Double x), length (resp_encode sh v (Frame_Double x))))"
    and "big_number_valid s \<Longrightarrow> length s \<le> MAX_BULK_LEN \<Longrightarrow> parse_frame_depth pa (resp_encode sh v (Frame_BigNumber s) @ rest) depth =
      Inr (Some (on_wire sh v (Frame_BigNumber s), length (resp_encode sh v (Frame_BigNumber s))))"
proof -
  have "int_line (45 # 49 # 13 # 10 # rest) k = k (- 1) (Suc (Suc 0))" for k :: "int \<Rightarrow> nat \<Rightarrow> resp_frame parsed"
    using int_line_int [of "- 1" rest k] by (simp add: int_text_def is_i64_def dec_text_small)
  then show "parse_frame_depth pa (resp_encode sh v Frame_Null @ rest) depth = Inr (Some (Frame_Null, length (resp_encode sh v Frame_Null)))"
    using d by (simp add: markers parse_scalar_def write_simps parse_null_resp3_def shift_def parse_bulk_def)
  show "parse_frame_depth pa (resp_encode sh v (Frame_Boolean b) @ rest) depth =
      Inr (Some (on_wire sh v (Frame_Boolean b), length (resp_encode sh v (Frame_Boolean b))))"
    using d parse_int_frame [of "if b then 1 else 0" depth pa rest]
    by (cases b) (simp_all add: markers parse_scalar_def write_simps on_wire_def parse_boolean_def shift_def int_text_def is_i64_def
        dec_text_small)
  show "parse_frame_depth pa (resp_encode sh v (Frame_Double x) @ rest) depth =
      Inr (Some (on_wire sh v (Frame_Double x), length (resp_encode sh v (Frame_Double x))))" if "f64_text_ok sh pa" "\<not> f64_is_nan x"
    using format_double_ok [OF that] parse_bulk_frame [of "format_double sh x" depth pa rest] d
    by (simp add: markers parse_scalar_def parse_double_def write_simps on_wire_def shift_def Let_def text_line_line)
  show "parse_frame_depth pa (resp_encode sh v (Frame_BigNumber s) @ rest) depth =
      Inr (Some (on_wire sh v (Frame_BigNumber s), length (resp_encode sh v (Frame_BigNumber s))))"
    if "big_number_valid s" "length s \<le> MAX_BULK_LEN"
    using parse_bulk_frame [of s depth pa rest] big_number_line [of s] that d
    by (simp add: markers parse_scalar_def parse_big_number_def write_simps on_wire_def shift_def text_line_line)
qed

lemma parse_encoded_blobs:
  assumes d: "depth \<le> MAX_NESTING_DEPTH"
  shows "frame_fits (Frame_BlobError c m) \<Longrightarrow> parse_frame_depth pa (resp_encode sh v (Frame_BlobError c m) @ rest) depth =
      Inr (Some (on_wire sh v (Frame_BlobError c m), length (resp_encode sh v (Frame_BlobError c m))))"
    and "frame_fits (Frame_Verbatim fmt data) \<Longrightarrow> parse_frame_depth pa (resp_encode sh v (Frame_Verbatim fmt data) @ rest) depth =
      Inr (Some (on_wire sh v (Frame_Verbatim fmt data), length (resp_encode sh v (Frame_Verbatim fmt data))))"
proof -
  show "frame_fits (Frame_BlobError c m) \<Longrightarrow> parse_frame_depth pa (resp_encode sh v (Frame_BlobError c m) @ rest) depth =
      Inr (Some (on_wire sh v (Frame_BlobError c m), length (resp_encode sh v (Frame_BlobError c m))))"
    using parse_blob_error_write [of c m rest] parse_line_frames(2) [of "blob_text c m" depth pa rest] d
    by (simp add: markers parse_scalar_def write_simps on_wire_def shift_def Let_def) (simp add: blob_text_def shift_def split: if_splits)
  show "frame_fits (Frame_Verbatim fmt data) \<Longrightarrow> parse_frame_depth pa (resp_encode sh v (Frame_Verbatim fmt data) @ rest) depth =
      Inr (Some (on_wire sh v (Frame_Verbatim fmt data), length (resp_encode sh v (Frame_Verbatim fmt data))))"
    using parse_verbatim_write [of data "fst fmt" "fst (snd fmt)" "snd (snd fmt)" rest] parse_bulk_frame [of data depth pa rest] d
    by (simp add: markers parse_scalar_def write_simps on_wire_def shift_def Let_def add.commute)
qed

lemma parse_encoded:
  assumes t: "f64_text_ok sh pa" and "frame_fits f" and "depth + frame_depth f \<le> MAX_NESTING_DEPTH"
  shows "parse_frame_depth pa (resp_encode sh v f @ rest) depth = Inr (Some (on_wire sh v f, length (resp_encode sh v f)))"
  using assms(2,3)
proof (induction f arbitrary: depth rest)
  case (Frame_Map ps)
  show ?case
  proof (rule on_wire_map [OF _ Frame_Map.prems])
    fix p f rest
    assume p: "p \<in> set ps" "f = fst p \<or> f = snd p" and f: "frame_fits f" "depth + 1 + frame_depth f \<le> MAX_NESTING_DEPTH"
    have "f \<in> Basic_BNFs.fsts p \<or> f \<in> Basic_BNFs.snds p"
      using p(2) by (cases p) (auto simp: fsts.simps snds.simps)
    then show "parse_frame_depth pa (resp_encode sh v f @ rest) (depth + 1) = Inr (Some (on_wire sh v f, length (resp_encode sh v f)))"
      using Frame_Map.IH(1) [OF p(1) _ f] Frame_Map.IH(2) [OF p(1) _ f] by blast
  qed
next
  case (Frame_Array items)
  then show ?case
    using on_wire_seq [OF Frame_Array.IH markers(11)]
    by (simp add: map_on_wire on_wire_def [of sh v "Frame_Array items"] agg_frame_def del: parse_frame_depth.simps)
next
  case (Frame_Set items)
  then show ?case
    using on_wire_seq [OF Frame_Set.IH markers(11)] on_wire_seq [OF Frame_Set.IH markers(13)]
    by (simp add: map_on_wire on_wire_def [of sh v "Frame_Set items"] agg_frame_def del: parse_frame_depth.simps)
next
  case (Frame_Push items)
  then show ?case
    using on_wire_seq [OF Frame_Push.IH markers(11)] on_wire_seq [OF Frame_Push.IH markers(14)]
    by (simp add: map_on_wire on_wire_def [of sh v "Frame_Push items"] agg_frame_def del: parse_frame_depth.simps)
next
  case (Frame_Integer n)
  then show ?case
    using parse_int_frame [of n depth pa rest] by (simp add: write_simps on_wire_def del: parse_frame_depth.simps)
next
  case Frame_Null
  then show ?case
    using parse_encoded_scalars(1) [of depth pa sh v rest] by (simp add: on_wire_def del: parse_frame_depth.simps resp_encode.simps)
next
  case (Frame_Boolean b)
  then show ?case
    by (intro parse_encoded_scalars(2)) (simp_all add: t)
next
  case (Frame_Double x)
  then show ?case
    by (intro parse_encoded_scalars(3)) (simp_all add: t)
next
  case (Frame_BigNumber s)
  then show ?case
    by (intro parse_encoded_scalars(4)) (simp_all add: t)
next
  case (Frame_BlobError c m)
  then show ?case
    by (intro parse_encoded_blobs(1)) (simp_all add: t)
next
  case (Frame_Verbatim f d)
  then show ?case
    by (intro parse_encoded_blobs(2)) (simp_all add: t)
qed (use parse_line_frames [of _ depth pa rest for depth rest] in
    \<open>simp_all add: write_line_def crlf_def on_wire_def parse_bulk_frame del: parse_frame_depth.simps\<close>)

subsection \<open>Growing input\<close>

text \<open>A verdict other than \<open>incomplete\<close> does not change when more bytes arrive.\<close>

definition settled :: "'a parsed \<Rightarrow> 'a parsed \<Rightarrow> bool" where
  "settled r r' \<longleftrightarrow> r = Inr None \<or> r' = r"

lemma settled_simps [simp]: "settled r r" "settled (Inr None) r"
  by (simp_all add: settled_def)

lemma settled_map: "settled r r' \<Longrightarrow> settled (map_sum id (map_option f) r) (map_sum id (map_option f) r')"
  by (auto simp: settled_def)

lemma settled_shift: "settled r r' \<Longrightarrow> settled (map_sum id shift r) (map_sum id shift r')"
  by (auto simp: settled_def shift_def)

lemma text_line_settled:
  assumes "\<And>s e. e + 2 \<le> length xs \<Longrightarrow> settled (k s e) (k' s e)"
  shows "settled (text_line xs k) (text_line (xs @ ys) k')"
proof (cases "find_crlf xs")
  case (Some e)
  then have "take e (xs @ ys) = take e xs" "e + 2 \<le> length xs"
    using find_crlf_bound [OF Some] by simp_all
  with assms find_crlf_append [OF Some, of ys] Some show ?thesis
    by (auto simp: text_line_def split: option.split)
qed (simp add: text_line_def)

lemma int_line_settled:
  assumes "\<And>n e. e + 2 \<le> length xs \<Longrightarrow> settled (k n e) (k' n e)"
  shows "settled (int_line xs k) (int_line (xs @ ys) k')"
  unfolding int_line_def by (rule text_line_settled) (use assms in \<open>auto split: option.split\<close>)

lemma bslice_append_le: "b \<le> length xs \<Longrightarrow> bslice a b (xs @ ys) = bslice a b xs"
  by (cases "a \<le> b") (auto simp: bslice_def)

lemma parse_bulk_settled: "settled (parse_bulk xs) (parse_bulk (xs @ ys))"
  unfolding parse_bulk_def by (rule int_line_settled) (auto simp: Let_def bslice_append_le)

lemma parse_blob_error_settled: "settled (parse_blob_error xs) (parse_blob_error (xs @ ys))"
  unfolding parse_blob_error_def by (rule int_line_settled) (auto simp: Let_def bslice_append_le)

lemma parse_verbatim_settled: "settled (parse_verbatim xs) (parse_verbatim (xs @ ys))"
  unfolding parse_verbatim_def by (rule int_line_settled) (auto simp: Let_def bslice_append_le nth_append)

lemma parse_line_settled: "settled (parse_line xs) (parse_line (xs @ ys))"
  unfolding parse_line_def by (rule text_line_settled) simp

lemma parse_integer_line_settled: "settled (parse_integer_line xs) (parse_integer_line (xs @ ys))"
  unfolding parse_integer_line_def by (rule int_line_settled) simp

lemma parse_double_settled: "settled (parse_double pa xs) (parse_double pa (xs @ ys))"
  unfolding parse_double_def by (rule text_line_settled) simp

lemma parse_big_number_settled: "settled (parse_big_number xs) (parse_big_number (xs @ ys))"
  unfolding parse_big_number_def by (rule text_line_settled) simp

lemma parse_flag_settled:
  "settled (parse_null_resp3 xs) (parse_null_resp3 (xs @ ys))" "settled (parse_boolean xs) (parse_boolean (xs @ ys))"
  using find_crlf_append [of xs _ ys] find_crlf_bound [of xs]
  by (auto simp: parse_null_resp3_def parse_boolean_def split: option.split)

lemma agg_header_settled: "settled (agg_header kind xs) (agg_header kind (xs @ ys))"
  unfolding agg_header_def by (rule int_line_settled) simp

lemma parse_scalar_settled: "settled (parse_scalar pa m xs) (parse_scalar pa m (xs @ ys))"
  by (auto simp: parse_scalar_def intro!: settled_map settled_shift parse_line_settled parse_integer_line_settled parse_bulk_settled
      parse_blob_error_settled parse_verbatim_settled parse_double_settled parse_big_number_settled parse_flag_settled)

text \<open>Bytes consumed lie within the input, and a frame takes at least one.\<close>

definition takes :: "nat \<Rightarrow> bytes \<Rightarrow> 'a parsed \<Rightarrow> bool" where
  "takes lo xs r \<longleftrightarrow> (\<forall>x n. r = Inr (Some (x, n)) \<longrightarrow> lo \<le> n \<and> n \<le> length xs)"

lemma text_line_takes: "(\<And>s e. e + 2 \<le> length xs \<Longrightarrow> takes lo xs (k s e)) \<Longrightarrow> takes lo xs (text_line xs k)"
  by (auto simp: takes_def text_line_def split: option.splits dest!: find_crlf_bound)

lemma int_line_takes: "(\<And>n e. e + 2 \<le> length xs \<Longrightarrow> takes lo xs (k n e)) \<Longrightarrow> takes lo xs (int_line xs k)"
  unfolding int_line_def by (rule text_line_takes) (auto simp: takes_def split: option.splits)

lemma agg_header_takes: "takes 2 xs (agg_header kind xs)"
  unfolding agg_header_def by (rule int_line_takes) (auto simp: takes_def Let_def)

lemma payload_takes:
  "takes 0 xs (parse_bulk xs)" "takes 0 xs (parse_blob_error xs)" "takes 0 xs (parse_verbatim xs)"
  "takes 0 xs (parse_line xs)" "takes 0 xs (parse_integer_line xs)" "takes 0 xs (parse_double pa xs)" "takes 0 xs (parse_big_number xs)"
  unfolding parse_bulk_def parse_blob_error_def parse_verbatim_def parse_line_def parse_integer_line_def parse_double_def parse_big_number_def
  by (rule int_line_takes text_line_takes, (auto simp: takes_def Let_def split: option.splits if_splits prod.splits)[1])+

lemma flag_takes: "takes 0 xs (parse_null_resp3 xs)" "takes 0 xs (parse_boolean xs)"
  by (auto simp: takes_def parse_null_resp3_def parse_boolean_def split: option.splits if_splits dest!: find_crlf_bound)

lemma takes_map: "takes 0 xs r \<Longrightarrow> takes 1 (m # xs) (map_sum id (map_option (\<lambda>(s, n). (g s, n + 1))) r)"
  by (cases r) (auto simp: takes_def)

lemma takes_shift: "takes 0 xs r \<Longrightarrow> takes 1 (m # xs) (map_sum id shift r)"
  by (cases r) (auto simp: takes_def shift_def)

lemma takes_if: "takes lo xs r \<Longrightarrow> takes lo xs r' \<Longrightarrow> takes lo xs (if b then r else r')"
  by simp

lemma takes_Inl: "takes lo xs (Inl e)"
  by (simp add: takes_def)

lemma parse_scalar_takes: "takes 1 (m # xs) (parse_scalar pa m xs)"
  unfolding parse_scalar_def by (intro takes_if takes_map takes_shift payload_takes flag_takes takes_Inl)

lemma parse_takes:
  "takes 1 xs (parse_frame_depth pa xs depth)"
  "takes 0 xs (parse_items pa xs depth n)"
proof (induction pa xs depth and pa xs depth n rule: parse_frame_depth_parse_items.induct)
  case (2 pa m body depth)
  show ?case
  proof (cases "depth > MAX_NESTING_DEPTH \<or> agg_of_marker m = None")
    case True
    then show ?thesis
      using parse_scalar_takes [of m body pa] by (auto simp: takes_Inl)
  next
    case False
    then obtain kind where k: "agg_of_marker m = Some kind" "\<not> depth > MAX_NESTING_DEPTH"
      by auto
    have "takes 0 (drop n body) (parse_items pa (drop n body) depth c) \<and> 2 \<le> n \<and> n \<le> length body"
      if "agg_header kind body = Inr (Some (Some c, n))" for c n
      using 2 [OF k(2,1) that refl refl refl] agg_header_takes [of body kind] that by (simp add: takes_def)
    moreover have "n \<le> length body" if "agg_header kind body = Inr (Some (None, n))" for n
      using agg_header_takes [of body kind] that by (simp add: takes_def)
    ultimately show ?thesis
      using k by (fastforce simp: takes_def split: option.splits sum.splits prod.splits)
  qed
next
  case (4 pa rest depth c)
  then show ?case
    by (fastforce simp: takes_def split: option.splits sum.splits prod.splits)
qed (simp_all add: takes_def)

lemma parse_frame_settled:
  "settled (parse_frame_depth pa xs depth) (parse_frame_depth pa (xs @ ys) depth)"
  "settled (parse_items pa xs depth n) (parse_items pa (xs @ ys) depth n)"
proof (induction pa xs depth and pa xs depth n rule: parse_frame_depth_parse_items.induct)
  case (2 pa m body depth)
  show ?case
  proof (cases "depth > MAX_NESTING_DEPTH \<or> agg_of_marker m = None")
    case True
    then show ?thesis
      using parse_scalar_settled [of pa m body ys] by auto
  next
    case False
    then obtain kind where k: "agg_of_marker m = Some kind" "\<not> depth > MAX_NESTING_DEPTH"
      by auto
    show ?thesis
    proof (cases "\<exists>c n. agg_header kind body = Inr (Some (Some c, n))")
      case True
      then obtain c n where h: "agg_header kind body = Inr (Some (Some c, n))"
        by blast
      then have n: "n \<le> length body" and h': "agg_header kind (body @ ys) = Inr (Some (Some c, n))"
        using agg_header_takes [of body kind] agg_header_settled [of kind body ys] by (auto simp: takes_def settled_def)
      from 2 [OF k(2,1) h refl refl refl] have "settled (parse_items pa (drop n body) depth c) (parse_items pa (drop n body @ ys) depth c)"
        by simp
      then show ?thesis
        using k h h' n by (auto simp: settled_def)
    next
      case none: False
      then show ?thesis
        using k agg_header_settled [of kind body ys] by (auto simp: settled_def split: sum.splits option.splits)
    qed
  qed
next
  case (4 pa rest depth c)
  show ?case
  proof (cases "parse_frame_depth pa rest (depth + 1)")
    case (Inr y)
    show ?thesis
    proof (cases y)
      case (Some fn)
      obtain f n where fn: "fn = (f, n)" by (cases fn)
      have n: "n \<le> length rest"
        using parse_takes(1) [of rest pa "depth + 1"] Inr Some fn by (simp add: takes_def)
      have "settled (parse_items pa (drop n rest) depth c) (parse_items pa (drop n rest @ ys) depth c)"
        using 4(2) [OF Inr Some fn [symmetric]] by simp
      then show ?thesis
        using 4(1) Inr Some fn n by (auto simp: settled_def)
    qed (use Inr in simp)
  qed (use 4 in \<open>auto simp: settled_def\<close>)
qed simp_all

subsection \<open>What the parser yields\<close>

lemma split_space_parts:
  assumes "split_space s = (c, m)" and "utf8_valid s"
  shows "32 \<notin> set c" and "utf8_valid c" and "utf8_valid m" and "length c + length m \<le> length s"
proof -
  have "32 \<notin> set c \<and> (s = c \<and> m = [] \<or> s = c @ 32 # m)"
    using assms(1) by (induction s arbitrary: c m) (auto split: if_splits prod.splits)
  then show "32 \<notin> set c" "utf8_valid c" "utf8_valid m" "length c + length m \<le> length s"
    using assms(2) utf8_valid_split [of c 32 m] by auto
qed

text \<open>The invariants of the frame type: strings are UTF-8, integers are \<open>i64\<close>, sizes and nesting are bounded.\<close>

primrec frame_typed :: "resp_frame \<Rightarrow> bool" where
  "frame_typed (Frame_Simple s) \<longleftrightarrow> line_ok s"
| "frame_typed (Frame_Error s) \<longleftrightarrow> line_ok s"
| "frame_typed (Frame_Integer n) \<longleftrightarrow> is_i64 n"
| "frame_typed (Frame_Bulk b) \<longleftrightarrow> length b \<le> MAX_BULK_LEN"
| "frame_typed Frame_Null \<longleftrightarrow> True"
| "frame_typed (Frame_Array items) \<longleftrightarrow> length items \<le> MAX_AGGREGATE_LEN \<and> list_all id (map frame_typed items)"
| "frame_typed (Frame_Boolean v) \<longleftrightarrow> True"
| "frame_typed (Frame_Double d) \<longleftrightarrow> True"
| "frame_typed (Frame_Map pairs) \<longleftrightarrow> length pairs \<le> MAX_AGGREGATE_LEN \<and>
    list_all (\<lambda>(a, b). a \<and> b) (map (map_prod frame_typed frame_typed) pairs)"
| "frame_typed (Frame_Set items) \<longleftrightarrow> length items \<le> MAX_AGGREGATE_LEN \<and> list_all id (map frame_typed items)"
| "frame_typed (Frame_Push items) \<longleftrightarrow> length items \<le> MAX_AGGREGATE_LEN \<and> list_all id (map frame_typed items)"
| "frame_typed (Frame_BlobError code message) \<longleftrightarrow> utf8_valid code \<and> utf8_valid message \<and> 32 \<notin> set code \<and>
    length code + length message \<le> MAX_BULK_LEN"
| "frame_typed (Frame_Verbatim fmt data) \<longleftrightarrow> length data + 4 \<le> MAX_BULK_LEN"
| "frame_typed (Frame_BigNumber s) \<longleftrightarrow> big_number_valid s"

definition yields :: "('a \<Rightarrow> bool) \<Rightarrow> 'a parsed \<Rightarrow> bool" where
  "yields P r \<longleftrightarrow> (\<forall>x n. r = Inr (Some (x, n)) \<longrightarrow> P x)"

lemma yields_simps [simp]: "yields P (Inl e)" "yields P (Inr None)" "yields P (Inr (Some (x, n))) \<longleftrightarrow> P x"
  by (auto simp: yields_def)

lemma find_crlf_take: "find_crlf xs = Some e \<Longrightarrow> find_crlf (take e xs) = None"
  using find_crlf_append [of "take e xs" _ "drop e xs"] find_crlf_bound [of "take e xs"]
  by (cases "find_crlf (take e xs)") fastforce+

lemma text_line_yields: "(\<And>s e. line_ok s \<Longrightarrow> e + 2 \<le> length xs \<Longrightarrow> yields P (k s e)) \<Longrightarrow> yields P (text_line xs k)"
  using find_crlf_take [of xs] find_crlf_bound [of xs] by (auto simp: text_line_def from_utf8_def line_ok_def split: option.splits)

lemma int_line_yields: "(\<And>n e. is_i64 n \<Longrightarrow> e + 2 \<le> length xs \<Longrightarrow> yields P (k n e)) \<Longrightarrow> yields P (int_line xs k)"
  unfolding int_line_def by (rule text_line_yields) (auto split: option.splits dest: parse_i64_range)

lemma yields_map: "yields (\<lambda>x. P (g x)) r \<Longrightarrow> yields P (map_sum id (map_option (\<lambda>(s, n). (g s, n + 1))) r)"
  by (cases r) (auto simp: yields_def)

definition leaf :: "resp_frame \<Rightarrow> bool" where
  "leaf f \<longleftrightarrow> frame_typed f \<and> frame_depth f = 0"

lemma parse_scalar_yields: "yields leaf (parse_scalar pa m xs)"
proof -
  have sh: "yields leaf (map_sum id shift r)" if "yields leaf r" for r
    using that by (cases r) (auto simp: yields_def shift_def)
  have line: "yields line_ok (parse_line xs)" and int: "yields is_i64 (parse_integer_line xs)"
    unfolding parse_line_def parse_integer_line_def by (rule text_line_yields int_line_yields, simp)+
  then have "yields (\<lambda>s. leaf (Frame_Simple s)) (parse_line xs)" "yields (\<lambda>s. leaf (Frame_Error s)) (parse_line xs)"
    "yields (\<lambda>i. leaf (Frame_Integer i)) (parse_integer_line xs)"
    by (simp_all add: leaf_def)
  note texts = this
  have bulk: "yields leaf (parse_bulk xs)" and verb: "yields leaf (parse_verbatim xs)"
    and blob: "yields leaf (parse_blob_error xs)"
    unfolding parse_bulk_def parse_verbatim_def parse_blob_error_def
    by (rule int_line_yields, (auto simp: leaf_def Let_def from_utf8_def split: if_splits option.splits prod.splits dest: split_space_parts)[1])+
  have "yields leaf (parse_double pa xs)" "yields leaf (parse_big_number xs)"
    unfolding parse_double_def parse_big_number_def by (rule text_line_yields, (auto simp: leaf_def split: option.splits)[1])+
  moreover have "yields leaf (parse_null_resp3 xs)" "yields leaf (parse_boolean xs)"
    by (auto simp: leaf_def parse_null_resp3_def parse_boolean_def split: option.splits)
  ultimately show ?thesis
    using texts bulk verb blob unfolding parse_scalar_def by (auto intro!: yields_map [unfolded Suc_eq_plus1 [symmetric]] sh)
qed

lemma agg_header_yields:
  "yields (\<lambda>x. \<forall>n. x = Some n \<longrightarrow> (\<exists>c\<le>MAX_AGGREGATE_LEN. n = (if kind = Agg_Map then c * 2 else c))) (agg_header kind xs)"
  unfolding agg_header_def by (rule int_line_yields) (auto simp: Let_def)

lemma pairs_of_parts:
  assumes "length fs = c * 2"
  shows "length (pairs_of fs) = c" and "(k, v) \<in> set (pairs_of fs) \<Longrightarrow> k \<in> set fs \<and> v \<in> set fs"
proof -
  have "length (pairs_of fs) = c \<and> (\<forall>k v. (k, v) \<in> set (pairs_of fs) \<longrightarrow> k \<in> set fs \<and> v \<in> set fs)"
    using assms by (induction fs arbitrary: c rule: pairs_of.induct) (auto, (case_tac c, auto)+)
  then show "length (pairs_of fs) = c" and "(k, v) \<in> set (pairs_of fs) \<Longrightarrow> k \<in> set fs \<and> v \<in> set fs"
    by blast+
qed

lemma agg_frame_typed:
  assumes "list_all (\<lambda>f. frame_typed f \<and> Suc (frame_depth f) \<le> b) fs" and "c \<le> MAX_AGGREGATE_LEN"
    and "length fs = (if kind = Agg_Map then c * 2 else c)"
  shows "frame_typed (agg_frame kind fs) \<and> frame_depth (agg_frame kind fs) \<le> b"
proof (cases "kind = Agg_Map")
  case True
  then have l: "length fs = c * 2"
    using assms(3) by simp
  have "frame_typed k \<and> frame_typed v \<and> Suc (max (frame_depth k) (frame_depth v)) \<le> b" if "(k, v) \<in> set (pairs_of fs)" for k v
    using pairs_of_parts(2) [OF l that] assms(1) by (simp add: list_all_iff max_def)
  then show ?thesis
    using True assms(2) pairs_of_parts(1) [OF l] by (auto simp: agg_frame_def fold_max_le list_all_iff simp del: max_Suc_Suc)
next
  case False
  then show ?thesis
    using assms by (cases kind) (auto simp: agg_frame_def fold_max_le list_all_iff)
qed

lemma parse_yields:
  "yields (\<lambda>f. frame_typed f \<and> depth + frame_depth f \<le> MAX_NESTING_DEPTH) (parse_frame_depth pa xs depth)"
  "yields (\<lambda>fs. length fs = n \<and> list_all (\<lambda>f. frame_typed f \<and> depth + 1 + frame_depth f \<le> MAX_NESTING_DEPTH) fs) (parse_items pa xs depth n)"
proof (induction pa xs depth and pa xs depth n rule: parse_frame_depth_parse_items.induct)
  case (2 pa m body depth)
  show ?case
  proof (cases "depth > MAX_NESTING_DEPTH \<or> agg_of_marker m = None")
    case True
    then show ?thesis
      using parse_scalar_yields [of pa m body] by (auto simp: yields_def leaf_def)
  next
    case False
    then obtain kind where k: "agg_of_marker m = Some kind" "\<not> depth > MAX_NESTING_DEPTH"
      by auto
    have "frame_typed (agg_frame kind fs) \<and> depth + frame_depth (agg_frame kind fs) \<le> MAX_NESTING_DEPTH"
      if h: "agg_header kind body = Inr (Some (Some c, n))" and i: "parse_items pa (drop n body) depth c = Inr (Some (fs, l))" for c n fs l
    proof -
      obtain c' where c': "c' \<le> MAX_AGGREGATE_LEN" "c = (if kind = Agg_Map then c' * 2 else c')"
        using agg_header_yields [of kind body] h by auto
      have fs: "length fs = c" "list_all (\<lambda>f. frame_typed f \<and> Suc (frame_depth f) \<le> MAX_NESTING_DEPTH - depth) fs"
        using 2 [OF k(2,1) h refl refl refl] i k(2) by (auto simp: list_all_iff)
      show ?thesis
        using agg_frame_typed [OF fs(2) c'(1), of kind] fs(1) c'(2) k(2) by auto
    qed
    then show ?thesis
      using k by (auto simp: yields_def split: option.splits sum.splits prod.splits)
  qed
next
  case (4 pa rest depth c)
  then show ?case
    by (fastforce simp: yields_def split: option.splits sum.splits prod.splits)
qed simp_all

subsection \<open>Decoder\<close>

record frame_decoder =
  dec_buf :: bytes

definition decoder_new :: frame_decoder where
  "decoder_new = \<lparr>dec_buf = []\<rparr>"

definition decoder_feed :: "frame_decoder \<Rightarrow> bytes \<Rightarrow> frame_decoder" where
  "decoder_feed d bs = d\<lparr>dec_buf := dec_buf d @ bs\<rparr>"

definition decode :: "(bytes \<Rightarrow> u64 option) \<Rightarrow> frame_decoder \<Rightarrow> (resp_parse_error + resp_frame option) \<times> frame_decoder" where
  "decode pa d =
    (case parse_frame pa (dec_buf d) of
       Inl e \<Rightarrow> (Inl e, d)
     | Inr None \<Rightarrow> (Inr None, d)
     | Inr (Some (frame, n)) \<Rightarrow> (Inr (Some frame), d\<lparr>dec_buf := drop n (dec_buf d)\<rparr>))"

lemma decode_shrinks: "decode pa d = (Inr (Some f), d') \<Longrightarrow> length (dec_buf d') < length (dec_buf d)"
  using parse_takes(1) [of "dec_buf d" pa 0]
  by (auto simp: decode_def parse_frame_def takes_def split: sum.splits option.splits)

text \<open>
  The connection's loop over one read: decode until the buffer is incomplete or malformed. It returns
  the frames in order and the error that ends the connection, if any.
\<close>

function decode_all :: "(bytes \<Rightarrow> u64 option) \<Rightarrow> frame_decoder \<Rightarrow> resp_frame list \<times> resp_parse_error option \<times> frame_decoder" where
  "decode_all pa d =
    (case decode pa d of
       (Inl e, d) \<Rightarrow> ([], Some e, d)
     | (Inr None, d) \<Rightarrow> ([], None, d)
     | (Inr (Some f), d) \<Rightarrow> (case decode_all pa d of (fs, r) \<Rightarrow> (f # fs, r)))"
  by pat_completeness auto
termination
  by (relation "measure (\<lambda>(pa, d). length (dec_buf d))") (auto dest!: decode_shrinks [OF sym])

declare decode_all.simps [simp del]

fun decode_reads :: "(bytes \<Rightarrow> u64 option) \<Rightarrow> frame_decoder \<Rightarrow> bytes list \<Rightarrow> resp_frame list \<times> resp_parse_error option" where
  "decode_reads pa d [] = ([], None)"
| "decode_reads pa d (c # cs) =
    (case decode_all pa (decoder_feed d c) of
       (fs, Some e, d) \<Rightarrow> (fs, Some e)
     | (fs, None, d) \<Rightarrow> (case decode_reads pa d cs of (gs, r) \<Rightarrow> (fs @ gs, r)))"

lemma decode_feed:
  "decode pa d = (Inl e, d') \<Longrightarrow> d' = d \<and> decode pa (decoder_feed d ys) = (Inl e, decoder_feed d ys)"
  "decode pa d = (Inr (Some f), d') \<Longrightarrow> decode pa (decoder_feed d ys) = (Inr (Some f), decoder_feed d' ys)"
  "decode pa d = (Inr None, d') \<Longrightarrow> d' = d"
  using parse_frame_settled(1) [of pa "dec_buf d" 0 ys] parse_takes(1) [of "dec_buf d" pa 0]
  by (auto simp: decode_def parse_frame_def decoder_feed_def settled_def takes_def split: sum.splits option.splits)

lemma decode_all_feed:
  "decode_all pa (decoder_feed d ys) =
    (case decode_all pa d of
       (fs, Some e, d') \<Rightarrow> (fs, Some e, decoder_feed d' ys)
     | (fs, None, d') \<Rightarrow> (case decode_all pa (decoder_feed d' ys) of (gs, r) \<Rightarrow> (fs @ gs, r)))"
proof (induction pa d rule: decode_all.induct)
  case (1 pa d)
  obtain r d' where d: "decode pa d = (r, d')" by (cases "decode pa d")
  show ?case
  proof (cases r)
    case (Inl e)
    then show ?thesis
      using decode_feed(1) [of pa d e d' ys] d by (simp add: decode_all.simps [of pa d] decode_all.simps [of pa "decoder_feed d ys"])
  next
    case (Inr x)
    show ?thesis
    proof (cases x)
      case None
      then show ?thesis
        using decode_feed(3) [of pa d d'] d Inr by (simp add: decode_all.simps [of pa d])
    next
      case (Some f)
      have ih: "decode_all pa (decoder_feed d' ys) =
          (case decode_all pa d' of
             (fs, Some e, d') \<Rightarrow> (fs, Some e, decoder_feed d' ys)
           | (fs, None, d') \<Rightarrow> (case decode_all pa (decoder_feed d' ys) of (gs, r) \<Rightarrow> (fs @ gs, r)))"
        using 1 d Inr Some by simp
      show ?thesis
        using decode_feed(2) [of pa d f d' ys] d Inr Some
        by (simp add: decode_all.simps [of pa d] decode_all.simps [of pa "decoder_feed d ys"])
          (subst ih, auto split: prod.splits option.splits)
    qed
  qed
qed

lemma decode_all_drained: "decode_all pa d = (fs, None, d') \<Longrightarrow> decode_all pa d' = ([], None, d')"
proof (induction pa d arbitrary: fs rule: decode_all.induct)
  case (1 pa d)
  obtain r e where d: "decode pa d = (r, e)" by (cases "decode pa d")
  consider "\<exists>x. r = Inl x" | "r = Inr None" | f where "r = Inr (Some f)"
    by (cases r) auto
  then show ?case
  proof cases
    case 1
    then show ?thesis
      using d "1.prems" by (auto simp: decode_all.simps [of pa d])
  next
    case 2
    then show ?thesis
      using decode_feed(3) [of pa d e] d "1.prems" by (auto simp: decode_all.simps [of pa d] decode_all.simps [of pa d'])
  next
    case 3
    then show ?thesis
      using d "1.prems" "1.IH" [OF d [symmetric]] by (auto simp: decode_all.simps [of pa d] split: prod.splits)
  qed
qed

lemma decoder_feed_append [simp]: "decoder_feed (decoder_feed d xs) ys = decoder_feed d (xs @ ys)" "decoder_feed d [] = d"
  by (simp_all add: decoder_feed_def)

lemma decode_reads_concat:
  assumes "decode_all pa d = ([], None, d)"
  shows "decode_reads pa d cs = (case decode_all pa (decoder_feed d (concat cs)) of (fs, e, d') \<Rightarrow> (fs, e))"
  using assms
proof (induction cs arbitrary: d)
  case (Cons c cs)
  obtain fs e d' where a: "decode_all pa (decoder_feed d c) = (fs, e, d')" by (cases "decode_all pa (decoder_feed d c)") auto
  show ?case
  proof (cases e)
    case None
    then have "decode_reads pa d' cs = (case decode_all pa (decoder_feed d' (concat cs)) of (fs, e, d') \<Rightarrow> (fs, e))"
      using Cons.IH decode_all_drained [of pa "decoder_feed d c" fs d'] a by simp
    then show ?thesis
      using decode_all_feed [of pa "decoder_feed d c" "concat cs"] a None by (auto split: prod.splits)
  next
    case (Some x)
    then show ?thesis
      using decode_all_feed [of pa "decoder_feed d c" "concat cs"] a by simp
  qed
qed simp

lemma decode_all_new: "decode_all pa decoder_new = ([], None, decoder_new)"
  by (simp add: decode_all.simps decode_def decoder_new_def parse_frame_def)

lemma decode_all_encoded:
  assumes "f64_text_ok sh pa" and "\<And>f. f \<in> set fs \<Longrightarrow> frame_fits f \<and> frame_depth f \<le> MAX_NESTING_DEPTH"
  shows "decode_all pa \<lparr>dec_buf = concat (map (resp_encode sh v) fs)\<rparr> = (map (on_wire sh v) fs, None, decoder_new)"
  using assms(2)
proof (induction fs)
  case Nil
  then show ?case
    using decode_all_new by (simp add: decoder_new_def)
next
  case (Cons f fs)
  have "parse_frame pa (resp_encode sh v f @ concat (map (resp_encode sh v) fs)) =
      Inr (Some (on_wire sh v f, length (resp_encode sh v f)))"
    unfolding parse_frame_def using parse_encoded [OF assms(1), of f 0] Cons.prems by simp
  then show ?case
    using Cons by (simp add: decode_all.simps [of pa "\<lparr>dec_buf = resp_encode sh v f @ _\<rparr>"] decode_def)
qed

text \<open>
  C14: Streams survive the wire. Encode any list of frames that fit the parser's limits, cut the bytes
  into reads anywhere, and the decoder returns the same frames in order, without an error. Under RESP2
  it returns their downgrades: null, numbers, bulks and flat arrays in the place of the RESP3 types.
\<close>

theorem decoder_roundtrip:
  assumes "f64_text_ok sh pa" and "list_all (\<lambda>f. frame_fits f \<and> frame_depth f \<le> MAX_NESTING_DEPTH) fs"
    and "concat reads = concat (map (resp_encode sh v) fs)"
  shows "decode_reads pa decoder_new reads = (map (on_wire sh v) fs, None)"
  using decode_reads_concat [OF decode_all_new, of pa reads] decode_all_encoded [OF assms(1), of fs v] assms(2,3)
  by (simp add: list_all_iff decoder_new_def decoder_feed_def)

text \<open>A text of doubles that satisfies the hypothesis: the bit pattern in decimal.\<close>

definition demo_show :: "u64 \<Rightarrow> bytes" where
  "demo_show d = dec_text (unat d)"

definition demo_parse :: "bytes \<Rightarrow> u64 option" where
  "demo_parse s =
    (if s = lit ''inf'' then Some 0x7FF0000000000000
     else if s = lit ''-inf'' then Some 0xFFF0000000000000
     else map_option of_nat (parse_uint (2 ^ 64 - 1) s))"

lemma dec_text_length: "n < 10 ^ Suc k \<Longrightarrow> length (dec_text n) \<le> Suc k"
proof (induction k arbitrary: n)
  case (Suc k)
  then show ?case
    using Suc.IH [of "n div 10"] by (simp add: dec_text.simps [of n] less_mult_imp_div_less)
qed (simp add: dec_text.simps)

lemma demo_text_ok: "f64_text_ok demo_show demo_parse"
proof -
  have "demo_parse (demo_show d) = Some d \<and> line_ok (demo_show d) \<and> length (demo_show d) \<le> MAX_BULK_LEN" for d
  proof (intro conjI)
    have u: "unat d \<le> 2 ^ 64 - 1"
      using unat_lt [of d] by simp
    have "dec_text (unat d) \<noteq> lit ''inf''" "dec_text (unat d) \<noteq> lit ''-inf''"
      using dec_text_digits [of "unat d"] by (auto simp: is_ascii_digit_def)
    then show "demo_parse (demo_show d) = Some d"
      using parse_uint_text [OF u] by (simp add: demo_parse_def demo_show_def)
    show "line_ok (demo_show d)"
      using digits_line [OF dec_text_digits, of "unat d"] by (simp add: line_ok_def demo_show_def from_utf8_def split: if_splits)
    show "length (demo_show d) \<le> MAX_BULK_LEN"
      using dec_text_length [of "unat d" 19] u by (simp add: demo_show_def MAX_BULK_LEN_def)
  qed
  then show ?thesis
    by (simp add: f64_text_ok_def demo_parse_def)
qed

theorem decoder_roundtrip_witness:
  "decode_reads demo_parse decoder_new [lit ''*2'' @ [13], [10] @ lit ''$1'' @ [13, 10, 255, 13, 10] @ lit ''#t'', [13, 10]] =
    ([Frame_Array [Frame_Bulk [255], Frame_Boolean True]], None)"
proof -
  let ?fs = "[Frame_Array [Frame_Bulk [255], Frame_Boolean True]]"
  have "list_all (\<lambda>f. frame_fits f \<and> frame_depth f \<le> MAX_NESTING_DEPTH) ?fs"
    by (simp add: MAX_AGGREGATE_LEN_def MAX_BULK_LEN_def MAX_NESTING_DEPTH_def)
  moreover have "concat [lit ''*2'' @ [13], [10] @ lit ''$1'' @ [13, 10, 255, 13, 10] @ lit ''#t'', [13, 10]] =
      concat (map (resp_encode demo_show Resp3) ?fs)"
    by (simp add: write_simps is_resp3_def dec_text.simps)
  ultimately show ?thesis
    using decoder_roundtrip [OF demo_text_ok, of ?fs _ Resp3] by (simp add: on_wire_def is_resp3_def del: decode_reads.simps)
qed

text \<open>
  C24: The frames a connection decodes, and the error that ends it, depend only on the bytes received
  and not on how the reads cut them: after a read the decoder never has to take back a verdict.
\<close>

theorem decoder_chunking:
  assumes "concat reads = concat reads'"
  shows "decode_reads pa decoder_new reads = decode_reads pa decoder_new reads'"
  using decode_reads_concat [OF decode_all_new] assms by simp

theorem decoder_chunking_witness:
  "decode_reads (\<lambda>_. None) decoder_new [lit ''+O'', lit ''K'', [13], [10] @ lit ''?''] =
   decode_reads (\<lambda>_. None) decoder_new [lit ''+OK'' @ [13, 10] @ lit ''?'']"
  by (rule decoder_chunking) simp

text \<open>
  C22: Every frame the parser returns respects the invariants of the frame type: lines are UTF-8 text
  without a line break, integers are \<open>i64\<close>, no payload exceeds \<open>MAX_BULK_LEN\<close>, no aggregate
  \<open>MAX_AGGREGATE_LEN\<close> and no nesting \<open>MAX_NESTING_DEPTH\<close>; and it consumes at least one byte and none
  beyond the input.
\<close>

theorem parse_frame_typed:
  assumes "parse_frame pa input = Inr (Some (f, n))"
  shows "frame_typed f \<and> frame_depth f \<le> MAX_NESTING_DEPTH \<and> 0 < n \<and> n \<le> length input"
  using parse_yields(1) [of 0 pa input] parse_takes(1) [of input pa 0] assms by (simp add: parse_frame_def takes_def)

theorem parse_frame_typed_witness:
  "frame_typed (Frame_Map [(Frame_Simple (lit ''k''), Frame_Integer (- 7))])"
proof -
  let ?f = "Frame_Map [(Frame_Simple (lit ''k''), Frame_Integer (- 7))]"
  have "parse_frame demo_parse (resp_encode demo_show Resp3 ?f @ []) = Inr (Some (?f, length (resp_encode demo_show Resp3 ?f)))"
    unfolding parse_frame_def
    by (subst parse_encoded [OF demo_text_ok])
      (simp_all add: on_wire_def is_resp3_def line_ok_def is_i64_def utf8_step_ascii MAX_AGGREGATE_LEN_def MAX_NESTING_DEPTH_def
        del: resp_encode.simps)
  from parse_frame_typed [OF this] show ?thesis
    by blast
qed

text \<open>
  C36: A bulk string whose payload is not followed by CRLF is never rejected: whatever arrives after
  it, the parser keeps asking for more, so the connection buffers without bound and answers nothing.
\<close>

theorem bulk_bad_trailer_stuck:
  assumes "length d \<le> MAX_BULK_LEN" and "(x, y) \<noteq> (13, 10)"
  shows "parse_frame pa (36 # dec_text (length d) @ 13 # 10 # d @ x # y # rest) = Inr None"
proof -
  let ?h = "dec_text (length d)"
  have "bslice (length ?h + 2 + length d) (length ?h + 2 + length d + 2) (?h @ 13 # 10 # d @ x # y # rest) = [x, y]"
    by (simp add: bslice_def numeral_2_eq_2)
  then have "parse_bulk (?h @ 13 # 10 # d @ x # y # rest) = Inr None"
    unfolding parse_bulk_def using assms by (subst int_line_usize) (auto simp: Let_def)
  then show ?thesis
    by (simp add: parse_frame_def markers parse_scalar_def shift_def)
qed

theorem bulk_bad_trailer_stuck_witness:
  "parse_frame (\<lambda>_. None) (36 # dec_text (length [7 :: u8]) @ 13 # 10 # [7] @ 8 # 9 # replicate 20 65) = Inr None"
  by (rule bulk_bad_trailer_stuck) (simp_all add: MAX_BULK_LEN_def)

end
