(* ===== verification/Resp_Command.thy ===== *)
theory Resp_Command
  imports Resp_Frame
begin

text \<open>
  Commands (\<open>skeg-resp3/command.rs\<close>), the per-connection state with its HELLO handler (\<open>connection.rs\<close>)
  and the protocol-only handlers (\<open>handlers.rs\<close>).
\<close>

subsection \<open>Commands\<close>

record hello_args =
  protover :: "nat option"
  hello_auth :: "(bytes \<times> bytes) option"
  setname :: "bytes option"

datatype resp_command =
    Cmd_Hello hello_args
  | Cmd_Ping "bytes option"
  | Cmd_Echo bytes
  | Cmd_Get bytes
  | Cmd_Set bytes bytes
  | Cmd_Append bytes bytes
  | Cmd_Del "bytes list"
  | Cmd_Exists "bytes list"
  | Cmd_Mget "bytes list"
  | Cmd_Mset "(bytes \<times> bytes) list"
  | Cmd_Incr bytes
  | Cmd_Decr bytes
  | Cmd_IncrBy bytes int
  | Cmd_DecrBy bytes int
  | Cmd_Select int
  | Cmd_SkegStats
  | Cmd_SkegShards
  | Cmd_SkegWhoami
  | Cmd_SkegAuth "bytes list"
  | Cmd_SkegVindexList
  | Cmd_SkegVindexCreate "bytes list"
  | Cmd_SkegVindexDrop "bytes list"
  | Cmd_SkegVindexConsolidate "bytes list"
  | Cmd_SkegVset "bytes list"
  | Cmd_SkegVmset "bytes list"
  | Cmd_SkegVdel "bytes list"
  | Cmd_SkegVsearch "bytes list"
  | Cmd_SkegSubjectErase "bytes list"
  | Cmd_SkegTenantErase "bytes list"
  | Cmd_SkegTenantDelete "bytes list"
  | Cmd_SkegReclaim
  | Cmd_SkegQuotaSet "bytes list"
  | Cmd_SkegQuotaGet "bytes list"
  | Cmd_SkegQosSet "bytes list"
  | Cmd_SkegQosGet "bytes list"
  | Cmd_Unknown bytes "bytes list"

datatype command_error =
    NotAnArray
  | Empty
  | BadName
  | NameInvalidUtf8
  | BadArg
  | HelloBadProtover
  | HelloBadAuth
  | HelloBadSetname
  | HelloUnknownClause bytes
  | PingArity nat
  | EchoArity nat
  | WrongArity string
  | SelectDbOutOfRange
  | SelectInvalidIndex
  | NotAnInteger
  | WrongAritySkeg string string

definition command_name :: "resp_frame \<Rightarrow> command_error + bytes" where
  "command_name frame =
    (case frame of
       Frame_Bulk b \<Rightarrow> ok_or (from_utf8 b) NameInvalidUtf8
     | Frame_Simple s \<Rightarrow> Inr s
     | _ \<Rightarrow> Inl BadName)"

definition arg_as_bytes :: "resp_frame \<Rightarrow> command_error + bytes" where
  "arg_as_bytes frame =
    (case frame of
       Frame_Bulk b \<Rightarrow> Inr b
     | Frame_Simple s \<Rightarrow> Inr s
     | _ \<Rightarrow> Inl BadArg)"

fun collect_args :: "resp_frame list \<Rightarrow> command_error + bytes list" where
  "collect_args [] = Inr []"
| "collect_args (f # fs) = and_then (arg_as_bytes f) (\<lambda>b. and_then (collect_args fs) (\<lambda>bs. Inr (b # bs)))"

definition parse_i64_arg :: "bytes \<Rightarrow> command_error + int" where
  "parse_i64_arg b = ok_or (Option.bind (from_utf8 b) parse_i64) NotAnInteger"

text \<open>The named clauses of HELLO, left to right.\<close>

function hello_clauses :: "hello_args \<Rightarrow> bytes list \<Rightarrow> command_error + hello_args" where
  "hello_clauses out [] = Inr out"
| "hello_clauses out (clause # rest) =
    (case from_utf8 clause of
       None \<Rightarrow> Inl (HelloUnknownClause (lit ''<binary>''))
     | Some s \<Rightarrow>
         let upper = to_ascii_uppercase s in
         if upper = lit ''AUTH''
         then (case rest of
                 user_b # pass_b # rest \<Rightarrow>
                   (case (from_utf8 user_b, from_utf8 pass_b) of
                      (Some user, Some pass) \<Rightarrow> hello_clauses (out\<lparr>hello_auth := Some (user, pass)\<rparr>) rest
                    | _ \<Rightarrow> Inl HelloBadAuth)
               | _ \<Rightarrow> Inl HelloBadAuth)
         else if upper = lit ''SETNAME''
         then (case rest of
                 name_b # rest \<Rightarrow>
                   (case from_utf8 name_b of
                      Some name \<Rightarrow> hello_clauses (out\<lparr>setname := Some name\<rparr>) rest
                    | None \<Rightarrow> Inl HelloBadSetname)
               | [] \<Rightarrow> Inl HelloBadSetname)
         else Inl (HelloUnknownClause upper))"
  by pat_completeness auto
termination
  by (relation "measure (\<lambda>(out, xs). length xs)") auto

definition parse_hello :: "bytes list \<Rightarrow> command_error + hello_args" where
  "parse_hello args =
    (let out = \<lparr>protover = None, hello_auth = None, setname = None\<rparr> in
     case args of
       [] \<Rightarrow> Inr out
     | first # rest \<Rightarrow>
         and_then (ok_or (Option.bind (from_utf8 first) (parse_uint 255)) HelloBadProtover) (\<lambda>v.
           if v \<noteq> 2 \<and> v \<noteq> 3 then Inl HelloBadProtover
           else hello_clauses (out\<lparr>protover := Some v\<rparr>) rest))"

definition parse_ping :: "bytes list \<Rightarrow> command_error + bytes option" where
  "parse_ping args = (case args of [] \<Rightarrow> Inr None | [m] \<Rightarrow> Inr (Some m) | _ \<Rightarrow> Inl (PingArity (length args)))"

definition parse_echo :: "bytes list \<Rightarrow> command_error + bytes" where
  "parse_echo args = (case args of [m] \<Rightarrow> Inr m | _ \<Rightarrow> Inl (EchoArity (length args)))"

definition parse_kv_get :: "bytes list \<Rightarrow> command_error + resp_command" where
  "parse_kv_get args = (case args of [key] \<Rightarrow> Inr (Cmd_Get key) | _ \<Rightarrow> Inl (WrongArity ''GET''))"

definition parse_kv_set :: "bytes list \<Rightarrow> command_error + resp_command" where
  "parse_kv_set args = (case args of [key, v] \<Rightarrow> Inr (Cmd_Set key v) | _ \<Rightarrow> Inl (WrongArity ''SET''))"

definition parse_kv_append :: "bytes list \<Rightarrow> command_error + resp_command" where
  "parse_kv_append args = (case args of [key, v] \<Rightarrow> Inr (Cmd_Append key v) | _ \<Rightarrow> Inl (WrongArity ''APPEND''))"

definition parse_kv_del :: "bytes list \<Rightarrow> command_error + resp_command" where
  "parse_kv_del args = (if args = [] then Inl (WrongArity ''DEL'') else Inr (Cmd_Del args))"

definition parse_kv_exists :: "bytes list \<Rightarrow> command_error + resp_command" where
  "parse_kv_exists args = (if args = [] then Inl (WrongArity ''EXISTS'') else Inr (Cmd_Exists args))"

definition parse_kv_mget :: "bytes list \<Rightarrow> command_error + resp_command" where
  "parse_kv_mget args = (if args = [] then Inl (WrongArity ''MGET'') else Inr (Cmd_Mget args))"

definition parse_kv_mset :: "bytes list \<Rightarrow> command_error + resp_command" where
  "parse_kv_mset args =
    (if args = [] \<or> length args mod 2 \<noteq> 0 then Inl (WrongArity ''MSET'') else Inr (Cmd_Mset (pairs_of args)))"

definition incr_decr_key :: "bytes list \<Rightarrow> command_error + bytes" where
  "incr_decr_key args = (case args of [key] \<Rightarrow> Inr key | _ \<Rightarrow> Inl (WrongArity ''INCR/DECR''))"

definition incr_decr_by_args :: "bytes list \<Rightarrow> command_error + bytes \<times> int" where
  "incr_decr_by_args args =
    (case args of
       [key, d] \<Rightarrow> and_then (parse_i64_arg d) (\<lambda>delta. Inr (key, delta))
     | _ \<Rightarrow> Inl (WrongArity ''INCRBY/DECRBY''))"

definition parse_kv_incr :: "bytes list \<Rightarrow> command_error + resp_command" where
  "parse_kv_incr args = and_then (incr_decr_key args) (\<lambda>key. Inr (Cmd_Incr key))"

definition parse_kv_decr :: "bytes list \<Rightarrow> command_error + resp_command" where
  "parse_kv_decr args = and_then (incr_decr_key args) (\<lambda>key. Inr (Cmd_Decr key))"

definition parse_kv_incrby :: "bytes list \<Rightarrow> command_error + resp_command" where
  "parse_kv_incrby args = and_then (incr_decr_by_args args) (\<lambda>(key, delta). Inr (Cmd_IncrBy key delta))"

definition parse_kv_decrby :: "bytes list \<Rightarrow> command_error + resp_command" where
  "parse_kv_decrby args = and_then (incr_decr_by_args args) (\<lambda>(key, delta). Inr (Cmd_DecrBy key delta))"

definition parse_kv_select :: "bytes list \<Rightarrow> command_error + resp_command" where
  "parse_kv_select args =
    (case args of
       [a] \<Rightarrow> and_then (ok_or (Option.bind (from_utf8 a) parse_i64) SelectInvalidIndex) (\<lambda>db. Inr (Cmd_Select db))
     | _ \<Rightarrow> Inl (WrongArity ''SELECT''))"

definition parse_skeg :: "bytes \<Rightarrow> bytes list \<Rightarrow> bytes \<Rightarrow> command_error + resp_command" where
  "parse_skeg verb args raw_name =
    (if verb = lit ''STATS''
     then (if args \<noteq> [] then Inl (WrongArity ''SKEG.STATS'') else Inr Cmd_SkegStats)
     else if verb = lit ''SHARDS''
     then (if args \<noteq> [] then Inl (WrongArity ''SKEG.SHARDS'') else Inr Cmd_SkegShards)
     else if verb = lit ''WHOAMI''
     then (if args \<noteq> [] then Inl (WrongArity ''SKEG.WHOAMI'') else Inr Cmd_SkegWhoami)
     else if verb = lit ''AUTH'' then Inr (Cmd_SkegAuth args)
     else if verb = lit ''VINDEX.LIST''
     then (if args \<noteq> [] then Inl (WrongArity ''SKEG.VINDEX.LIST'') else Inr Cmd_SkegVindexList)
     else if verb = lit ''VINDEX.CREATE''
     then (if length args \<noteq> 3 \<and> length args \<noteq> 4 then Inl (WrongAritySkeg ''SKEG.VINDEX.CREATE'' ''name dim [kind] backend'') else Inr (Cmd_SkegVindexCreate args))
     else if verb = lit ''SUBJECT.ERASE''
     then (if length args \<noteq> 1 then Inl (WrongArity ''SKEG.SUBJECT.ERASE'') else Inr (Cmd_SkegSubjectErase args))
     else if verb = lit ''TENANT.ERASE''
     then (if length args \<noteq> 1 then Inl (WrongArity ''SKEG.TENANT.ERASE'') else Inr (Cmd_SkegTenantErase args))
     else if verb = lit ''TENANT.DELETE''
     then (if length args \<noteq> 1 then Inl (WrongArity ''SKEG.TENANT.DELETE'') else Inr (Cmd_SkegTenantDelete args))
     else if verb = lit ''RECLAIM''
     then (if args \<noteq> [] then Inl (WrongArity ''SKEG.RECLAIM'') else Inr Cmd_SkegReclaim)
     else if verb = lit ''VINDEX.DROP''
     then (if length args \<noteq> 1 then Inl (WrongArity ''SKEG.VINDEX.DROP'') else Inr (Cmd_SkegVindexDrop args))
     else if verb = lit ''VINDEX.CONSOLIDATE''
     then (if length args \<noteq> 1 then Inl (WrongArity ''SKEG.VINDEX.CONSOLIDATE'') else Inr (Cmd_SkegVindexConsolidate args))
     else if verb = lit ''VSET''
     then (if length args \<noteq> 3 \<and> length args \<noteq> 5 then Inl (WrongAritySkeg ''SKEG.VSET'' ''name id vector [PAYLOAD blob]'') else Inr (Cmd_SkegVset args))
     else if verb = lit ''VMSET''
     then (if length args < 4 \<or> (length args - 1) mod 3 \<noteq> 0 then Inl (WrongAritySkeg ''SKEG.VMSET'' ''name (id vector payload)+'') else Inr (Cmd_SkegVmset args))
     else if verb = lit ''VDEL''
     then (if length args \<noteq> 2 then Inl (WrongAritySkeg ''SKEG.VDEL'' ''name id'') else Inr (Cmd_SkegVdel args))
     else if verb = lit ''VSEARCH''
     then (if \<not> (4 \<le> length args \<and> length args \<le> 7) then Inl (WrongAritySkeg ''SKEG.VSEARCH'' ''name k l_search vector [WITHPAYLOAD] [FILTER expr]'') else Inr (Cmd_SkegVsearch args))
     else if verb = lit ''QUOTA.SET''
     then (if length args \<noteq> 3 then Inl (WrongAritySkeg ''SKEG.QUOTA.SET'' ''tenant max_vectors max_disk_bytes'') else Inr (Cmd_SkegQuotaSet args))
     else if verb = lit ''QUOTA.GET''
     then (if length args \<noteq> 1 then Inl (WrongAritySkeg ''SKEG.QUOTA.GET'' ''tenant'') else Inr (Cmd_SkegQuotaGet args))
     else if verb = lit ''QOS.SET''
     then (if length args \<noteq> 4 then Inl (WrongAritySkeg ''SKEG.QOS.SET'' ''tenant rate burst max_concurrent'') else Inr (Cmd_SkegQosSet args))
     else if verb = lit ''QOS.GET''
     then (if length args \<noteq> 1 then Inl (WrongAritySkeg ''SKEG.QOS.GET'' ''tenant'') else Inr (Cmd_SkegQosGet args))
     else Inr (Cmd_Unknown raw_name args))"

definition parse_command_words :: "bytes \<Rightarrow> bytes list \<Rightarrow> command_error + resp_command" where
  "parse_command_words name args =
    (let upper = to_ascii_uppercase name in
     if upper = lit ''HELLO'' then and_then (parse_hello args) (\<lambda>h. Inr (Cmd_Hello h))
     else if upper = lit ''PING'' then and_then (parse_ping args) (\<lambda>m. Inr (Cmd_Ping m))
     else if upper = lit ''ECHO'' then and_then (parse_echo args) (\<lambda>m. Inr (Cmd_Echo m))
     else if upper = lit ''GET'' then parse_kv_get args
     else if upper = lit ''SET'' then parse_kv_set args
     else if upper = lit ''APPEND'' then parse_kv_append args
     else if upper = lit ''DEL'' then parse_kv_del args
     else if upper = lit ''EXISTS'' then parse_kv_exists args
     else if upper = lit ''MGET'' then parse_kv_mget args
     else if upper = lit ''MSET'' then parse_kv_mset args
     else if upper = lit ''INCR'' then parse_kv_incr args
     else if upper = lit ''DECR'' then parse_kv_decr args
     else if upper = lit ''INCRBY'' then parse_kv_incrby args
     else if upper = lit ''DECRBY'' then parse_kv_decrby args
     else if upper = lit ''SELECT'' then parse_kv_select args
     else if take 5 upper = lit ''SKEG.'' then parse_skeg (drop 5 upper) args name
     else Inr (Cmd_Unknown name args))"

definition parse_command :: "resp_frame \<Rightarrow> command_error + resp_command" where
  "parse_command frame =
    (case frame of
       Frame_Array [] \<Rightarrow> Inl Empty
     | Frame_Array (name_raw # items) \<Rightarrow>
         and_then (command_name name_raw) (\<lambda>name.
         and_then (collect_args items) (\<lambda>args. parse_command_words name args))
     | _ \<Rightarrow> Inl NotAnArray)"

subsection \<open>Connection state\<close>

record connection_state =
  conn_id :: int
  conn_version :: proto_version
  conn_name :: "bytes option"

definition connection_new :: "int \<Rightarrow> connection_state" where
  "connection_new i = \<lparr>conn_id = i, conn_version = Resp2, conn_name = None\<rparr>"

definition apply_hello :: "connection_state \<Rightarrow> hello_args \<Rightarrow> bytes \<Rightarrow> resp_frame \<times> connection_state" where
  "apply_hello st args server_version =
    (let st = (case protover args of
                 None \<Rightarrow> st
               | Some v \<Rightarrow> st\<lparr>conn_version := (if v = 3 then Resp3 else Resp2)\<rparr>);
         st = (case setname args of None \<Rightarrow> st | Some name \<Rightarrow> st\<lparr>conn_name := Some name\<rparr>);
         proto = (if is_resp3 (conn_version st) then 3 else 2) in
     (Frame_Map
        [(Frame_Bulk (lit ''server''), Frame_Bulk (lit ''skeg'')),
         (Frame_Bulk (lit ''version''), Frame_Bulk server_version),
         (Frame_Bulk (lit ''proto''), Frame_Integer proto),
         (Frame_Bulk (lit ''id''), Frame_Integer (conn_id st)),
         (Frame_Bulk (lit ''mode''), Frame_Bulk (lit ''standalone'')),
         (Frame_Bulk (lit ''role''), Frame_Bulk (lit ''master'')),
         (Frame_Bulk (lit ''modules''), Frame_Array [])], st))"

subsection \<open>Protocol-only handlers\<close>

definition handle_ping :: "bytes option \<Rightarrow> resp_frame" where
  "handle_ping msg = (case msg of None \<Rightarrow> frame_pong | Some b \<Rightarrow> Frame_Bulk b)"

definition handle_echo :: "bytes \<Rightarrow> resp_frame" where
  "handle_echo msg = Frame_Bulk msg"

subsection \<open>Requests as a client writes them\<close>

definition hello_words :: "hello_args \<Rightarrow> bytes list" where
  "hello_words h =
    (case protover h of
       None \<Rightarrow> []
     | Some v \<Rightarrow>
         dec_text v #
         (case hello_auth h of None \<Rightarrow> [] | Some (u, p) \<Rightarrow> [lit ''AUTH'', u, p]) @
         (case setname h of None \<Rightarrow> [] | Some n \<Rightarrow> [lit ''SETNAME'', n]))"

fun command_words :: "resp_command \<Rightarrow> string \<times> bytes list" where
  "command_words (Cmd_Hello h) = (''HELLO'', hello_words h)"
| "command_words (Cmd_Ping m) = (''PING'', (case m of None \<Rightarrow> [] | Some x \<Rightarrow> [x]))"
| "command_words (Cmd_Echo m) = (''ECHO'', [m])"
| "command_words (Cmd_Get k) = (''GET'', [k])"
| "command_words (Cmd_Set k v) = (''SET'', [k, v])"
| "command_words (Cmd_Append k v) = (''APPEND'', [k, v])"
| "command_words (Cmd_Del ks) = (''DEL'', ks)"
| "command_words (Cmd_Exists ks) = (''EXISTS'', ks)"
| "command_words (Cmd_Mget ks) = (''MGET'', ks)"
| "command_words (Cmd_Mset ps) = (''MSET'', concat (map (\<lambda>(k, v). [k, v]) ps))"
| "command_words (Cmd_Incr k) = (''INCR'', [k])"
| "command_words (Cmd_Decr k) = (''DECR'', [k])"
| "command_words (Cmd_IncrBy k d) = (''INCRBY'', [k, int_text d])"
| "command_words (Cmd_DecrBy k d) = (''DECRBY'', [k, int_text d])"
| "command_words (Cmd_Select d) = (''SELECT'', [int_text d])"
| "command_words Cmd_SkegStats = (''SKEG.STATS'', [])"
| "command_words Cmd_SkegShards = (''SKEG.SHARDS'', [])"
| "command_words Cmd_SkegWhoami = (''SKEG.WHOAMI'', [])"
| "command_words (Cmd_SkegAuth as) = (''SKEG.AUTH'', as)"
| "command_words Cmd_SkegVindexList = (''SKEG.VINDEX.LIST'', [])"
| "command_words (Cmd_SkegVindexCreate as) = (''SKEG.VINDEX.CREATE'', as)"
| "command_words (Cmd_SkegVindexDrop as) = (''SKEG.VINDEX.DROP'', as)"
| "command_words (Cmd_SkegVindexConsolidate as) = (''SKEG.VINDEX.CONSOLIDATE'', as)"
| "command_words (Cmd_SkegVset as) = (''SKEG.VSET'', as)"
| "command_words (Cmd_SkegVmset as) = (''SKEG.VMSET'', as)"
| "command_words (Cmd_SkegVdel as) = (''SKEG.VDEL'', as)"
| "command_words (Cmd_SkegVsearch as) = (''SKEG.VSEARCH'', as)"
| "command_words (Cmd_SkegSubjectErase as) = (''SKEG.SUBJECT.ERASE'', as)"
| "command_words (Cmd_SkegTenantErase as) = (''SKEG.TENANT.ERASE'', as)"
| "command_words (Cmd_SkegTenantDelete as) = (''SKEG.TENANT.DELETE'', as)"
| "command_words Cmd_SkegReclaim = (''SKEG.RECLAIM'', [])"
| "command_words (Cmd_SkegQuotaSet as) = (''SKEG.QUOTA.SET'', as)"
| "command_words (Cmd_SkegQuotaGet as) = (''SKEG.QUOTA.GET'', as)"
| "command_words (Cmd_SkegQosSet as) = (''SKEG.QOS.SET'', as)"
| "command_words (Cmd_SkegQosGet as) = (''SKEG.QOS.GET'', as)"
| "command_words (Cmd_Unknown n as) = ('''', as)"

text \<open>Requests with the arity and the argument ranges their grammar asks for.\<close>

definition hello_ok :: "hello_args \<Rightarrow> bool" where
  "hello_ok h \<longleftrightarrow>
     (case protover h of
        None \<Rightarrow> hello_auth h = None \<and> setname h = None
      | Some v \<Rightarrow> (v = 2 \<or> v = 3) \<and>
          (case hello_auth h of None \<Rightarrow> True | Some (u, p) \<Rightarrow> utf8_valid u \<and> utf8_valid p) \<and>
          (case setname h of None \<Rightarrow> True | Some n \<Rightarrow> utf8_valid n))"

fun command_ok :: "resp_command \<Rightarrow> bool" where
  "command_ok (Cmd_Hello h) \<longleftrightarrow> hello_ok h"
| "command_ok (Cmd_Del ks) \<longleftrightarrow> ks \<noteq> []"
| "command_ok (Cmd_Exists ks) \<longleftrightarrow> ks \<noteq> []"
| "command_ok (Cmd_Mget ks) \<longleftrightarrow> ks \<noteq> []"
| "command_ok (Cmd_Mset ps) \<longleftrightarrow> ps \<noteq> []"
| "command_ok (Cmd_IncrBy k d) \<longleftrightarrow> is_i64 d"
| "command_ok (Cmd_DecrBy k d) \<longleftrightarrow> is_i64 d"
| "command_ok (Cmd_Select d) \<longleftrightarrow> is_i64 d"
| "command_ok (Cmd_SkegVindexCreate as) \<longleftrightarrow> length as \<in> {3, 4}"
| "command_ok (Cmd_SkegVindexDrop as) \<longleftrightarrow> length as = 1"
| "command_ok (Cmd_SkegVindexConsolidate as) \<longleftrightarrow> length as = 1"
| "command_ok (Cmd_SkegVset as) \<longleftrightarrow> length as \<in> {3, 5}"
| "command_ok (Cmd_SkegVmset as) \<longleftrightarrow> 4 \<le> length as \<and> (length as - 1) mod 3 = 0"
| "command_ok (Cmd_SkegVdel as) \<longleftrightarrow> length as = 2"
| "command_ok (Cmd_SkegVsearch as) \<longleftrightarrow> 4 \<le> length as \<and> length as \<le> 7"
| "command_ok (Cmd_SkegSubjectErase as) \<longleftrightarrow> length as = 1"
| "command_ok (Cmd_SkegTenantErase as) \<longleftrightarrow> length as = 1"
| "command_ok (Cmd_SkegTenantDelete as) \<longleftrightarrow> length as = 1"
| "command_ok (Cmd_SkegQuotaSet as) \<longleftrightarrow> length as = 3"
| "command_ok (Cmd_SkegQuotaGet as) \<longleftrightarrow> length as = 1"
| "command_ok (Cmd_SkegQosSet as) \<longleftrightarrow> length as = 4"
| "command_ok (Cmd_SkegQosGet as) \<longleftrightarrow> length as = 1"
| "command_ok (Cmd_Unknown n as) \<longleftrightarrow> False"
| "command_ok _ \<longleftrightarrow> True"

lemma hello_roundtrip:
  assumes "hello_ok h"
  shows "parse_hello (hello_words h) = Inr h"
proof (cases "protover h")
  case None
  then show ?thesis
    using assms by (simp add: hello_ok_def hello_words_def parse_hello_def)
next
  case (Some v)
  have v: "from_utf8 (dec_text v) = Some (dec_text v)" "parse_uint 255 (dec_text v) = Some v"
    using digits_line(2) [OF dec_text_digits] assms Some by (auto simp: hello_ok_def intro!: parse_uint_text)
  have l: "from_utf8 (lit ''AUTH'') = Some (lit ''AUTH'')" "from_utf8 (lit ''SETNAME'') = Some (lit ''SETNAME'')"
    by (simp_all add: from_utf8_def utf8_step_ascii)
  obtain u p n where h: "h = \<lparr>protover = Some v, hello_auth = u, setname = n\<rparr>"
    using Some by (cases h) auto
  have s: "hello_clauses out (case n of None \<Rightarrow> [] | Some n \<Rightarrow> [lit ''SETNAME'', n]) =
      Inr (case n of None \<Rightarrow> out | Some n \<Rightarrow> out\<lparr>setname := Some n\<rparr>)" for out
    using assms l by (auto simp: h hello_ok_def Let_def from_utf8_def to_ascii_uppercase_def split: option.splits)
  show ?thesis
    using assms l s v by (cases u) (auto simp: h hello_ok_def hello_words_def parse_hello_def Let_def from_utf8_def to_ascii_uppercase_def split: option.splits)
qed

lemma int_text_arg: "is_i64 d \<Longrightarrow> Option.bind (from_utf8 (int_text d)) parse_i64 = Some d"
  using int_text_line(2) [of d] by (simp add: parse_i64_text)

lemma concat_pairs_even: "length (concat (map (\<lambda>(k, v). [k, v]) ps)) mod 2 = 0" "concat (map (\<lambda>(k, v). [k, v]) ps) = [] \<longleftrightarrow> ps = []"
  by (induction ps) auto

lemmas parse_kv_defs = parse_kv_get_def parse_kv_set_def parse_kv_append_def parse_kv_del_def parse_kv_exists_def parse_kv_mget_def
  parse_kv_mset_def parse_kv_incr_def parse_kv_decr_def parse_kv_incrby_def parse_kv_decrby_def parse_kv_select_def
  incr_decr_key_def incr_decr_by_args_def parse_i64_arg_def parse_ping_def parse_echo_def

lemma command_words_roundtrip:
  assumes "command_ok c" and "to_ascii_uppercase name = lit (fst (command_words c))"
  shows "parse_command_words name (snd (command_words c)) = Inr c"
proof (cases c)
  case (Cmd_Hello h)
  then show ?thesis
    using assms hello_roundtrip [of h] by (simp add: parse_command_words_def)
next
  case (Cmd_Mset ps)
  then show ?thesis
    using assms concat_pairs_even [of ps] pairs_of_concat [of ps] by (simp add: parse_command_words_def parse_kv_defs)
qed (use assms in \<open>auto simp: parse_command_words_def parse_kv_defs parse_skeg_def int_text_arg split: option.splits\<close>)

subsection \<open>From the wire to commands\<close>

definition request_frame :: "bytes \<times> resp_command \<Rightarrow> resp_frame" where
  "request_frame r = Frame_Array (map Frame_Bulk (fst r # snd (command_words (snd r))))"

text \<open>A request spells the command's name in any letter case.\<close>

definition request_ok :: "bytes \<times> resp_command \<Rightarrow> bool" where
  "request_ok r \<longleftrightarrow> command_ok (snd r) \<and> to_ascii_uppercase (fst r) = lit (fst (command_words (snd r))) \<and>
     Suc (length (snd (command_words (snd r)))) \<le> MAX_AGGREGATE_LEN \<and>
     list_all (\<lambda>w. length w \<le> MAX_BULK_LEN) (snd (command_words (snd r)))"

lemma command_name_ascii: "command_ok c \<Longrightarrow> ascii (lit (fst (command_words c))) \<and> length (fst (command_words c)) \<le> 23"
  by (cases c) (simp_all add: ascii_def)

lemma ascii_upper: "ascii (to_ascii_uppercase s) \<Longrightarrow> ascii s"
  by (induction s) (auto simp: ascii_def to_ascii_uppercase_def word_le_nat_alt word_less_nat_alt split: if_splits)

lemma request_name:
  assumes "request_ok r"
  shows "from_utf8 (fst r) = Some (fst r)" and "length (fst r) \<le> MAX_BULK_LEN"
proof -
  have u: "to_ascii_uppercase (fst r) = lit (fst (command_words (snd r)))" and c: "command_ok (snd r)"
    using assms by (simp_all add: request_ok_def)
  then have "ascii (fst r)"
    using command_name_ascii [OF c] ascii_upper by simp
  then show "from_utf8 (fst r) = Some (fst r)"
    by (simp add: from_utf8_def utf8_valid_ascii)
  have "length (fst r) = length (fst (command_words (snd r)))"
    using arg_cong [OF u, of length] by (simp add: lit_def)
  then show "length (fst r) \<le> MAX_BULK_LEN"
    using command_name_ascii [OF c] by (simp add: MAX_BULK_LEN_def)
qed

lemma collect_args_bulk: "collect_args (map Frame_Bulk ws) = Inr ws"
  by (induction ws) (simp_all add: arg_as_bytes_def)

lemma parse_request: "request_ok r \<Longrightarrow> parse_command (request_frame r) = Inr (snd r)"
  using request_name(1) [of r] command_words_roundtrip [of "snd r" "fst r"]
  by (simp add: parse_command_def request_frame_def command_name_def collect_args_bulk request_ok_def)

lemma parse_request_wire:
  assumes "request_ok r"
  shows "parse_frame pa (resp_encode sh v (request_frame r) @ rest) =
    Inr (Some (request_frame r, length (resp_encode sh v (request_frame r))))"
proof -
  let ?ws = "fst r # snd (command_words (snd r))"
  have w: "parse_frame_depth pa (write_bulk w @ rest) (0 + 1) = Inr (Some (Frame_Bulk w, length (write_bulk w)))"
    if "w \<in> set ?ws" for w rest
    using that assms request_name(2) [OF assms]
    by (intro parse_bulk_frame) (auto simp: request_ok_def list_all_iff MAX_NESTING_DEPTH_def)
  have e: "resp_encode sh v (request_frame r) = 42 # dec_text (length ?ws) @ 13 # 10 # concat (map write_bulk ?ws)"
    by (simp add: request_frame_def write_frames_def write_usize_def crlf_def comp_def)
  show ?thesis
    unfolding parse_frame_def e
    using parse_aggregate_write [OF markers(11), of 0 "length ?ws" ?ws pa write_bulk Frame_Bulk rest, OF _ _ _ w] assms
    by (simp add: request_ok_def agg_frame_def request_frame_def del: parse_frame_depth.simps)
qed

lemma decode_requests:
  assumes "list_all request_ok reqs"
  shows "decode_all pa \<lparr>dec_buf = concat (map (resp_encode sh v \<circ> request_frame) reqs)\<rparr> = (map request_frame reqs, None, decoder_new)"
  using assms
proof (induction reqs)
  case Nil
  then show ?case
    using decode_all_new by (simp add: decoder_new_def)
next
  case (Cons r reqs)
  then show ?case
    using parse_request_wire [of r pa sh v]
    by (simp add: decode_all.simps [of pa "\<lparr>dec_buf = resp_encode sh v (request_frame r) @ _\<rparr>"] decode_def)
qed

text \<open>
  C4: Pipelined requests arrive as they were sent. Take any sequence of the supported commands, each
  as a client writes it, the name in any letter case, cut the bytes into reads anywhere: the connection
  decodes exactly those commands, in order, with their arguments.
\<close>

theorem commands_roundtrip:
  assumes "list_all request_ok reqs" and "concat reads = concat (map (resp_encode sh v \<circ> request_frame) reqs)"
  shows "\<exists>fs. decode_reads pa decoder_new reads = (fs, None) \<and> map parse_command fs = map (Inr \<circ> snd) reqs"
proof (intro exI conjI)
  show "decode_reads pa decoder_new reads = (map request_frame reqs, None)"
    using decode_reads_concat [OF decode_all_new, of pa reads] decode_requests [OF assms(1), of pa sh v] assms(2)
    by (simp add: decoder_new_def decoder_feed_def)
  show "map parse_command (map request_frame reqs) = map (Inr \<circ> snd) reqs"
    using assms(1) parse_request by (simp add: list_all_iff)
qed

theorem commands_roundtrip_witness:
  "\<exists>fs. decode_reads (\<lambda>_. None) decoder_new [lit ''*2'' @ [13, 10] @ lit ''$3'' @ [13], [10] @ lit ''gEt'' @ [13, 10] @ lit ''$1'' @ [13, 10, 0, 13, 10]] = (fs, None) \<and>
     map parse_command fs = [Inr (Cmd_Get [0])]"
proof -
  have "list_all request_ok [(lit ''gEt'', Cmd_Get [0])]"
    by (simp add: request_ok_def to_ascii_uppercase_def MAX_AGGREGATE_LEN_def MAX_BULK_LEN_def)
  moreover have "concat [lit ''*2'' @ [13, 10] @ lit ''$3'' @ [13], [10] @ lit ''gEt'' @ [13, 10] @ lit ''$1'' @ [13, 10, 0, 13, 10]] =
      concat (map (resp_encode (\<lambda>_. []) Resp2 \<circ> request_frame) [(lit ''gEt'', Cmd_Get [0])])"
    by (simp add: request_frame_def write_simps dec_text.simps)
  ultimately show ?thesis
    using commands_roundtrip [of "[(lit ''gEt'', Cmd_Get [0])]"] by (simp del: decode_reads.simps)
qed

end
