(* ===== verification/Tenant.thy ===== *)
theory Tenant
  imports Text
begin

text \<open>
  Tenancy: identifiers and key scoping (\<open>skeg-tenant/id.rs\<close>, \<open>namespace.rs\<close>), the resolvers
  (\<open>resolver.rs\<close>), the quota counters with their compare-and-swap loops (\<open>quota.rs\<close>), and the
  server's vector quota and backend interface (\<open>skeg-server/quota.rs\<close>, \<open>tenant.rs\<close>). A tenant id is
  the 128-bit word whose little-endian bytes are the source's \<open>[u8; 16]\<close>.
\<close>

subsection \<open>Identifiers\<close>

type_synonym tenant_id = u128

definition TENANT_ZERO :: tenant_id where
  "TENANT_ZERO = 0"

definition TENANT_LEN :: nat where
  "TENANT_LEN = 16"

definition tenant_from_bytes :: "bytes \<Rightarrow> tenant_id" where
  "tenant_from_bytes b = u128_from_le b"

definition tenant_as_bytes :: "tenant_id \<Rightarrow> bytes" where
  "tenant_as_bytes t = u128_to_le t"

definition tenant_is_zero :: "tenant_id \<Rightarrow> bool" where
  "tenant_is_zero t \<longleftrightarrow> t = TENANT_ZERO"

text \<open>\<open>xxh3_128\<close> is a parameter.\<close>

definition tenant_from_name :: "(bytes \<Rightarrow> u128) \<Rightarrow> bytes \<Rightarrow> tenant_id" where
  "tenant_from_name xxh3_128 name = tenant_from_bytes (u128_to_le (xxh3_128 name))"

definition hex_digit :: "nat \<Rightarrow> u8" where
  "hex_digit n = (if n < 10 then of_nat (48 + n) else of_nat (87 + n))"

definition hex_byte :: "u8 \<Rightarrow> bytes" where
  "hex_byte b = [hex_digit (unat b div 16), hex_digit (unat b mod 16)]"

definition tenant_display :: "tenant_id \<Rightarrow> bytes" where
  "tenant_display t = concat (map hex_byte (tenant_as_bytes t))"

lemma length_tenant_as_bytes [simp]: "length (tenant_as_bytes t) = 16"
  by (simp add: tenant_as_bytes_def)

lemma tenant_as_bytes_inj: "tenant_as_bytes t = tenant_as_bytes u \<longleftrightarrow> t = u"
  unfolding tenant_as_bytes_def by (metis u128_from_to_le)

lemma tenant_bytes_id [simp]: "tenant_from_bytes (tenant_as_bytes t) = t"
  by (simp add: tenant_from_bytes_def tenant_as_bytes_def)

subsection \<open>Scoping\<close>

definition scoped_key :: "tenant_id \<Rightarrow> bytes \<Rightarrow> bytes" where
  "scoped_key tenant key = (if tenant_is_zero tenant then key else tenant_as_bytes tenant @ key)"

definition split_scoped_key :: "bytes \<Rightarrow> (tenant_id \<times> bytes) option" where
  "split_scoped_key scoped =
    (if length scoped < TENANT_LEN then None
     else Some (tenant_from_bytes (take TENANT_LEN scoped), drop TENANT_LEN scoped))"

definition scoped_vindex_name :: "tenant_id \<Rightarrow> bytes \<Rightarrow> bytes" where
  "scoped_vindex_name tenant name =
    (if tenant_is_zero tenant then name else tenant_display tenant @ lit ''::'' @ name)"

lemma scoped_key_inj: "scoped_key t k = scoped_key t k' \<longleftrightarrow> k = k'"
  by (simp add: scoped_key_def)

lemma split_scoped: "\<not> tenant_is_zero t \<Longrightarrow> split_scoped_key (scoped_key t k) = Some (t, k)"
  by (simp add: scoped_key_def split_scoped_key_def TENANT_LEN_def)

text \<open>The keys of a tenant's namespace.\<close>

definition owns :: "tenant_id \<Rightarrow> bytes \<Rightarrow> bool" where
  "owns t key \<longleftrightarrow> length key \<ge> 16 \<and> take 16 key = tenant_as_bytes t"

lemma owns_scoped: "\<not> tenant_is_zero t \<Longrightarrow> owns t (scoped_key t k)"
  by (simp add: owns_def scoped_key_def)

lemma owns_unique: "owns t k \<Longrightarrow> owns u k \<Longrightarrow> t = u"
  by (simp add: owns_def tenant_as_bytes_inj)

lemma owns_iff_scoped: "\<not> tenant_is_zero t \<Longrightarrow> owns t key \<longleftrightarrow> (\<exists>k. key = scoped_key t k)"
proof
  assume "\<not> tenant_is_zero t" and "owns t key"
  then have "key = scoped_key t (drop 16 key)"
    by (auto simp: owns_def scoped_key_def) (metis append_take_drop_id)
  then show "\<exists>k. key = scoped_key t k" ..
qed (auto simp: owns_scoped)

subsection \<open>Resolvers\<close>

datatype resolve_error = Abstain | Missing | Invalid bytes

text \<open>A peer is its IP address; \<open>'p\<close> is the type of addresses.\<close>

record 'p resolve_context =
  auth_tenant :: "tenant_id option"
  peer :: "'p option"
  sni :: "bytes option"
  hint :: "tenant_id option"

record 'p connection_bindings =
  by_sni :: "(bytes \<times> tenant_id) list"
  by_peer_ip :: "('p \<times> tenant_id) list"

definition null_resolve :: "'p resolve_context \<Rightarrow> resolve_error + tenant_id" where
  "null_resolve ctx = Inr TENANT_ZERO"

definition auth_bound_resolve :: "'p resolve_context \<Rightarrow> resolve_error + tenant_id" where
  "auth_bound_resolve ctx = ok_or (auth_tenant ctx) Abstain"

definition per_request_resolve :: "'p resolve_context \<Rightarrow> resolve_error + tenant_id" where
  "per_request_resolve ctx = ok_or (hint ctx) Abstain"

definition bind_sni :: "'p connection_bindings \<Rightarrow> bytes \<Rightarrow> tenant_id \<Rightarrow> 'p connection_bindings" where
  "bind_sni b s t = b\<lparr>by_sni := AList.update s t (by_sni b)\<rparr>"

definition bind_peer :: "'p connection_bindings \<Rightarrow> 'p \<Rightarrow> tenant_id \<Rightarrow> 'p connection_bindings" where
  "bind_peer b p t = b\<lparr>by_peer_ip := AList.update p t (by_peer_ip b)\<rparr>"

definition unbind_sni :: "'p connection_bindings \<Rightarrow> bytes \<Rightarrow> tenant_id option \<times> 'p connection_bindings" where
  "unbind_sni b s = (map_of (by_sni b) s, b\<lparr>by_sni := AList.delete s (by_sni b)\<rparr>)"

definition connection_bound_resolve :: "'p connection_bindings \<Rightarrow> 'p resolve_context \<Rightarrow> resolve_error + tenant_id" where
  "connection_bound_resolve b ctx =
    (case Option.bind (sni ctx) (map_of (by_sni b)) of
       Some t \<Rightarrow> Inr t
     | None \<Rightarrow>
         (case Option.bind (peer ctx) (map_of (by_peer_ip b)) of
            Some t \<Rightarrow> Inr t
          | None \<Rightarrow> Inl Abstain))"

fun chain_resolve :: "bool \<Rightarrow> ('p resolve_context \<Rightarrow> resolve_error + tenant_id) list \<Rightarrow> 'p resolve_context \<Rightarrow> resolve_error + tenant_id" where
  "chain_resolve fallback_to_zero [] ctx = (if fallback_to_zero then Inr TENANT_ZERO else Inl Missing)"
| "chain_resolve fallback_to_zero (r # rs) ctx =
    (case r ctx of
       Inr t \<Rightarrow> Inr t
     | Inl Abstain \<Rightarrow> chain_resolve fallback_to_zero rs ctx
     | Inl other \<Rightarrow> Inl other)"

lemma chain_resolve_first:
  assumes "\<forall>r\<in>set rs. r ctx = Inl Abstain" and "r ctx \<noteq> Inl Abstain"
  shows "chain_resolve z (rs @ r # qs) ctx = r ctx"
  using assms by (induction rs) (auto split: sum.split resolve_error.split)

lemma chain_resolve_strict:
  assumes "chain_resolve False rs ctx = Inr t"
  shows "\<exists>r\<in>set rs. r ctx = Inr t"
  using assms by (induction rs) (auto split: sum.splits resolve_error.splits)

subsection \<open>Vector quota of the server\<close>

definition vq_count :: "(u128 \<times> u64) list \<Rightarrow> u128 \<Rightarrow> u64" where
  "vq_count counts t = (case map_of counts t of None \<Rightarrow> 0 | Some n \<Rightarrow> n)"

definition vq_try_add :: "(u128 \<times> u64) list \<Rightarrow> u128 \<Rightarrow> u64 \<Rightarrow> u64 \<Rightarrow> (u128 \<times> u64) list option" where
  "vq_try_add counts t delta limit =
    (let cur = vq_count counts t in
     if unat cur + unat delta \<ge> 2 ^ 64 then None
     else if cur + delta \<le> limit then Some (AList.update t (cur + delta) counts) else None)"

definition vq_sub :: "(u128 \<times> u64) list \<Rightarrow> u128 \<Rightarrow> u64 \<Rightarrow> (u128 \<times> u64) list" where
  "vq_sub counts t delta =
    (case map_of counts t of
       None \<Rightarrow> counts
     | Some c \<Rightarrow>
         (let c = (if c \<ge> delta then c - delta else 0) in
          if c = 0 then AList.delete t counts else AList.update t c counts))"

lemma vq_try_add_Some:
  assumes "vq_try_add counts t delta limit = Some counts'"
  shows "vq_count counts' t = vq_count counts t + delta" and "vq_count counts' t \<le> limit"
    and "unat (vq_count counts' t) = unat (vq_count counts t) + unat delta"
    and "u \<noteq> t \<Longrightarrow> vq_count counts' u = vq_count counts u"
proof -
  have c: "counts' = AList.update t (vq_count counts t + delta) counts" "vq_count counts t + delta \<le> limit"
    "unat (vq_count counts t) + unat delta < 2 ^ 64"
    using assms by (auto simp: vq_try_add_def Let_def split: if_splits)
  then show "vq_count counts' t = vq_count counts t + delta" "vq_count counts' t \<le> limit"
    "u \<noteq> t \<Longrightarrow> vq_count counts' u = vq_count counts u"
    by (auto simp: vq_count_def update_conv' split: option.split)
  then show "unat (vq_count counts' t) = unat (vq_count counts t) + unat delta"
    using c(3) by (simp add: unat_add_lem [THEN iffD1])
qed

lemma vq_sub_count:
  "distinct (map fst counts) \<Longrightarrow>
    vq_count (vq_sub counts t delta) t = (if vq_count counts t \<ge> delta then vq_count counts t - delta else 0)"
  by (auto simp: vq_sub_def vq_count_def Let_def update_conv' delete_conv' split: option.split)

subsection \<open>Quota counters\<close>

record tenant_quota =
  tq_cache_bytes :: u64
  tq_cache_limit :: u64
  tq_n_vectors :: u64
  tq_vectors_limit :: u64

datatype quota_error =
    CacheBudgetExceeded tenant_id u64 u64
  | VectorCountExceeded tenant_id u64 u64

definition quota_unlimited :: tenant_quota where
  "quota_unlimited = \<lparr>tq_cache_bytes = 0, tq_cache_limit = 0, tq_n_vectors = 0, tq_vectors_limit = 0\<rparr>"

definition quota_with_limits :: "u64 \<Rightarrow> u64 \<Rightarrow> tenant_quota" where
  "quota_with_limits cache_limit vectors_limit =
    quota_unlimited\<lparr>tq_cache_limit := cache_limit, tq_vectors_limit := vectors_limit\<rparr>"

definition set_cache_limit :: "tenant_quota \<Rightarrow> u64 \<Rightarrow> tenant_quota" where
  "set_cache_limit q limit = q\<lparr>tq_cache_limit := limit\<rparr>"

definition set_vectors_limit :: "tenant_quota \<Rightarrow> u64 \<Rightarrow> tenant_quota" where
  "set_vectors_limit q limit = q\<lparr>tq_vectors_limit := limit\<rparr>"

definition sat_add :: "u64 \<Rightarrow> u64 \<Rightarrow> u64" where
  "sat_add a b = (if unat a + unat b \<ge> 2 ^ 64 then - 1 else a + b)"

definition sat_sub :: "u64 \<Rightarrow> u64 \<Rightarrow> u64" where
  "sat_sub a b = (if a \<ge> b then a - b else 0)"

text \<open>
  The counters with no other thread in the way: the first compare-and-swap succeeds. What concurrent
  threads do is \<open>cas_step\<close> below.
\<close>

definition try_add_cache_bytes :: "tenant_quota \<Rightarrow> tenant_id \<Rightarrow> u64 \<Rightarrow> (quota_error + unit) \<times> tenant_quota" where
  "try_add_cache_bytes q tenant delta =
    (let limit = tq_cache_limit q; nxt = sat_add (tq_cache_bytes q) delta in
     if limit \<noteq> 0 \<and> nxt > limit then (Inl (CacheBudgetExceeded tenant nxt limit), q)
     else (Inr (), q\<lparr>tq_cache_bytes := nxt\<rparr>))"

definition sub_cache_bytes :: "tenant_quota \<Rightarrow> u64 \<Rightarrow> tenant_quota" where
  "sub_cache_bytes q delta = q\<lparr>tq_cache_bytes := sat_sub (tq_cache_bytes q) delta\<rparr>"

definition try_add_vectors :: "tenant_quota \<Rightarrow> tenant_id \<Rightarrow> u64 \<Rightarrow> (quota_error + unit) \<times> tenant_quota" where
  "try_add_vectors q tenant delta =
    (let limit = tq_vectors_limit q; nxt = sat_add (tq_n_vectors q) delta in
     if limit \<noteq> 0 \<and> nxt > limit then (Inl (VectorCountExceeded tenant nxt limit), q)
     else (Inr (), q\<lparr>tq_n_vectors := nxt\<rparr>))"

definition sub_vectors :: "tenant_quota \<Rightarrow> u64 \<Rightarrow> tenant_quota" where
  "sub_vectors q delta = q\<lparr>tq_n_vectors := sat_sub (tq_n_vectors q) delta\<rparr>"

record quota_tracker =
  qt_inner :: "(tenant_id \<times> tenant_quota) list"
  default_cache_limit :: u64
  default_vectors_limit :: u64

definition tracker_new :: quota_tracker where
  "tracker_new = \<lparr>qt_inner = [], default_cache_limit = 0, default_vectors_limit = 0\<rparr>"

definition set_defaults :: "quota_tracker \<Rightarrow> u64 \<Rightarrow> u64 \<Rightarrow> quota_tracker" where
  "set_defaults qt c v = qt\<lparr>default_cache_limit := c, default_vectors_limit := v\<rparr>"

definition tracker_register :: "quota_tracker \<Rightarrow> tenant_id \<Rightarrow> tenant_quota \<Rightarrow> quota_tracker" where
  "tracker_register qt t q = qt\<lparr>qt_inner := AList.update t q (qt_inner qt)\<rparr>"

definition tracker_entry :: "quota_tracker \<Rightarrow> tenant_id \<Rightarrow> tenant_quota \<times> quota_tracker" where
  "tracker_entry qt t =
    (case map_of (qt_inner qt) t of
       Some q \<Rightarrow> (q, qt)
     | None \<Rightarrow>
         (let q = quota_with_limits (default_cache_limit qt) (default_vectors_limit qt) in
          (q, qt\<lparr>qt_inner := AList.update t q (qt_inner qt)\<rparr>)))"

definition tracker_forget :: "quota_tracker \<Rightarrow> tenant_id \<Rightarrow> tenant_quota option \<times> quota_tracker" where
  "tracker_forget qt t = (map_of (qt_inner qt) t, qt\<lparr>qt_inner := AList.delete t (qt_inner qt)\<rparr>)"

definition tracker_snapshot :: "quota_tracker \<Rightarrow> (tenant_id \<times> u64 \<times> u64) list" where
  "tracker_snapshot qt = map (\<lambda>(t, q). (t, tq_cache_bytes q, tq_n_vectors q)) (qt_inner qt)"

subsection \<open>Compare-and-swap loops in concurrent threads\<close>

text \<open>
  A thread of \<open>try_add_cache_bytes\<close>, \<open>try_add_vectors\<close>, \<open>sub_cache_bytes\<close> or \<open>sub_vectors\<close> loads the
  counter, decides, and swaps; a weak swap may fail and start over.
\<close>

datatype cas_op = Cas_add u64 | Cas_sub u64

datatype cas_thread = Cas_start cas_op | Cas_loaded cas_op u64 | Cas_granted cas_op | Cas_refused u64

fun cas_next :: "cas_op \<Rightarrow> u64 \<Rightarrow> u64" where
  "cas_next (Cas_add d) cur = sat_add cur d"
| "cas_next (Cas_sub d) cur = sat_sub cur d"

fun cas_over :: "u64 \<Rightarrow> cas_op \<Rightarrow> u64 \<Rightarrow> bool" where
  "cas_over limit (Cas_add d) cur \<longleftrightarrow> limit \<noteq> 0 \<and> sat_add cur d > limit"
| "cas_over limit (Cas_sub d) cur \<longleftrightarrow> False"

inductive cas_step :: "u64 \<Rightarrow> u64 \<times> cas_thread list \<Rightarrow> u64 \<times> cas_thread list \<Rightarrow> bool" for limit where
  load: "i < length ts \<Longrightarrow> ts ! i = Cas_start op \<Longrightarrow> cas_step limit (v, ts) (v, ts[i := Cas_loaded op v])"
| refuse: "i < length ts \<Longrightarrow> ts ! i = Cas_loaded op cur \<Longrightarrow> cas_over limit op cur \<Longrightarrow>
    cas_step limit (v, ts) (v, ts[i := Cas_refused (cas_next op cur)])"
| swap: "i < length ts \<Longrightarrow> ts ! i = Cas_loaded op cur \<Longrightarrow> \<not> cas_over limit op cur \<Longrightarrow> v = cur \<Longrightarrow>
    cas_step limit (v, ts) (cas_next op cur, ts[i := Cas_granted op])"
| retry: "i < length ts \<Longrightarrow> ts ! i = Cas_loaded op cur \<Longrightarrow> \<not> cas_over limit op cur \<Longrightarrow>
    cas_step limit (v, ts) (v, ts[i := Cas_start op])"

fun thread_op_adds :: "cas_thread \<Rightarrow> bool" where
  "thread_op_adds (Cas_start (Cas_sub d)) \<longleftrightarrow> False"
| "thread_op_adds (Cas_loaded (Cas_sub d) c) \<longleftrightarrow> False"
| "thread_op_adds (Cas_granted (Cas_sub d)) \<longleftrightarrow> False"
| "thread_op_adds _ \<longleftrightarrow> True"

fun granted :: "cas_thread \<Rightarrow> nat" where
  "granted (Cas_granted (Cas_add d)) = unat d"
| "granted _ = 0"

lemma unat_max_u64: "unat (- 1 :: u64) = 2 ^ 64 - 1"
  by (simp add: unsigned_minus_1_eq_mask mask_eq_exp_minus_1)

lemma sat_add_unat: "unat (sat_add a b) = min (unat a + unat b) (2 ^ 64 - 1)"
proof (cases "unat a + unat b \<ge> 2 ^ 64")
  case True
  then show ?thesis
    using unat_max_u64 by (simp add: sat_add_def)
next
  case False
  then show ?thesis
    by (simp add: sat_add_def unat_add_lem [THEN iffD1] min_def)
qed

lemma sum_granted_update:
  "i < length ts \<Longrightarrow> sum_list (map granted (ts[i := x])) + granted (ts ! i) = sum_list (map granted ts) + granted x"
  by (induction ts arbitrary: i) (auto split: nat.split)

lemma cas_step_bound:
  assumes "cas_step limit s s'" and "limit \<noteq> 0" and "fst s \<le> limit"
  shows "fst s' \<le> limit"
  using assms
proof cases
  case (swap i ts op cur)
  then show ?thesis
    using assms(2,3) by (cases op) (auto simp: sat_sub_def not_less word_le_nat_alt [where 'a = 64] unat_sub_if' split: if_splits)
qed simp_all

lemma cas_run_bound:
  assumes "(cas_step limit)\<^sup>*\<^sup>* s s'" and "limit \<noteq> 0" and "fst s \<le> limit"
  shows "fst s' \<le> limit"
  using assms(1)
proof (induction rule: rtranclp_induct)
  case (step y z)
  show ?case
    by (rule cas_step_bound [OF step.hyps(2) assms(2) step.IH])
qed (simp add: assms(3))

lemma cas_step_exact:
  assumes "cas_step limit s s'" and "limit \<noteq> 0" and "limit \<noteq> - 1" and "list_all thread_op_adds (snd s)"
  shows "list_all thread_op_adds (snd s') \<and>
    unat (fst s') + sum_list (map granted (snd s)) = unat (fst s) + sum_list (map granted (snd s'))"
  using assms
proof cases
  case (swap i ts op cur)
  have "thread_op_adds (Cas_loaded op cur)"
    using assms(4) swap(1,3,4) by (metis list_all_length snd_conv)
  then obtain d where d: "op = Cas_add d"
    by (cases op) auto
  have "sat_add cur d \<le> limit"
    using swap assms(2) by (simp add: d not_less)
  then have "unat (sat_add cur d) \<noteq> 2 ^ 64 - 1"
    using assms(3) unat_lt [of limit] by (auto simp: word_le_nat_alt word_unat_eq_iff unat_max_u64)
  then have "unat (sat_add cur d) = unat cur + unat d"
    using sat_add_unat [of cur d] by (simp add: min_def split: if_splits)
  then show ?thesis
    using swap sum_granted_update [of i ts "Cas_granted op"] assms(4) by (auto simp: d list_all_length nth_list_update)
next
  case (load i ts op v)
  then show ?thesis
    using sum_granted_update [of i ts "Cas_loaded op v"] assms(4) by (cases op) (auto simp: list_all_length nth_list_update)
next
  case (refuse i ts op cur v)
  then show ?thesis
    using sum_granted_update [of i ts "Cas_refused (cas_next op cur)"] assms(4) by (auto simp: list_all_length nth_list_update)
next
  case (retry i ts op cur v)
  then show ?thesis
    using sum_granted_update [of i ts "Cas_start op"] assms(4) by (cases op) (auto simp: list_all_length nth_list_update)
qed

lemma cas_run_exact:
  assumes "(cas_step limit)\<^sup>*\<^sup>* s s'" and "limit \<noteq> 0" and "limit \<noteq> - 1" and "list_all thread_op_adds (snd s)"
  shows "list_all thread_op_adds (snd s') \<and>
    unat (fst s') + sum_list (map granted (snd s)) = unat (fst s) + sum_list (map granted (snd s'))"
  using assms(1)
proof (induction rule: rtranclp_induct)
  case (step y z)
  then show ?case
    using cas_step_exact [OF step.hyps(2) assms(2,3)] by auto
qed (simp add: assms(4))

lemma cas_alone_granted:
  "\<not> cas_over limit op v \<Longrightarrow> (cas_step limit)\<^sup>*\<^sup>* (v, [Cas_start op]) (cas_next op v, [Cas_granted op])"
  using cas_step.load [of 0 "[Cas_start op]" op limit v] cas_step.swap [of 0 "[Cas_loaded op v]" op v limit v]
  by (auto intro: converse_rtranclp_into_rtranclp r_into_rtranclp)

lemma cas_alone_refused:
  "cas_over limit op v \<Longrightarrow> (cas_step limit)\<^sup>*\<^sup>* (v, [Cas_start op]) (v, [Cas_refused (cas_next op v)])"
  using cas_step.load [of 0 "[Cas_start op]" op limit v] cas_step.refuse [of 0 "[Cas_loaded op v]" op v limit v]
  by (auto intro: converse_rtranclp_into_rtranclp r_into_rtranclp)

text \<open>The sequential counters are the runs of one thread.\<close>

lemma try_add_cache_bytes_alone:
  assumes "try_add_cache_bytes q tenant delta = (r, q')"
  shows "(cas_step (tq_cache_limit q))\<^sup>*\<^sup>* (tq_cache_bytes q, [Cas_start (Cas_add delta)])
    (tq_cache_bytes q', [case r of Inr _ \<Rightarrow> Cas_granted (Cas_add delta)
                       | Inl _ \<Rightarrow> Cas_refused (sat_add (tq_cache_bytes q) delta)])"
  using assms cas_alone_granted [of "tq_cache_limit q" "Cas_add delta" "tq_cache_bytes q"]
    cas_alone_refused [of "tq_cache_limit q" "Cas_add delta" "tq_cache_bytes q"]
  by (auto simp: try_add_cache_bytes_def Let_def split: if_splits)

lemma try_add_vectors_alone:
  assumes "try_add_vectors q tenant delta = (r, q')"
  shows "(cas_step (tq_vectors_limit q))\<^sup>*\<^sup>* (tq_n_vectors q, [Cas_start (Cas_add delta)])
    (tq_n_vectors q', [case r of Inr _ \<Rightarrow> Cas_granted (Cas_add delta)
                       | Inl _ \<Rightarrow> Cas_refused (sat_add (tq_n_vectors q) delta)])"
  using assms cas_alone_granted [of "tq_vectors_limit q" "Cas_add delta" "tq_n_vectors q"]
    cas_alone_refused [of "tq_vectors_limit q" "Cas_add delta" "tq_n_vectors q"]
  by (auto simp: try_add_vectors_def Let_def split: if_splits)

lemma granted_start [simp]: "sum_list (map (granted \<circ> Cas_start) ops) = 0"
  by (induction ops) auto

text \<open>
  C12: However the threads of a quota counter interleave, and whichever weak swaps fail, a counter
  that starts within a non-zero limit never passes it; and when the threads only add, the counter
  holds exactly what was granted: no update is lost and nothing is counted twice.
\<close>

theorem quota_cas_exact:
  assumes "(cas_step limit)\<^sup>*\<^sup>* (v0, map Cas_start ops) (v, ts)"
    and "limit \<noteq> 0" and "v0 \<le> limit"
  shows "v \<le> limit \<and>
    (limit \<noteq> - 1 \<and> list_all (\<lambda>op. \<exists>d. op = Cas_add d) ops \<longrightarrow>
       unat v = unat v0 + sum_list (map granted ts))"
proof (intro conjI impI)
  show "v \<le> limit"
    using cas_run_bound [OF assms(1,2)] assms(3) by simp
next
  assume a: "limit \<noteq> - 1 \<and> list_all (\<lambda>op. \<exists>d. op = Cas_add d) ops"
  have "list_all thread_op_adds (map Cas_start ops)"
    using a by (auto simp: list_all_iff)
  then show "unat v = unat v0 + sum_list (map granted ts)"
    using cas_run_exact [OF assms(1,2)] a by simp
qed

lemma demo_cas_run:
  "(cas_step 10)\<^sup>*\<^sup>* (0, map Cas_start [Cas_add 6, Cas_add 6]) (6, [Cas_granted (Cas_add 6), Cas_refused 12])"
proof -
  let ?a = "Cas_add 6"
  have s1: "cas_step 10 (0, [Cas_start ?a, Cas_start ?a]) (0, [Cas_loaded ?a 0, Cas_start ?a])"
    using cas_step.load [of 0 "[Cas_start ?a, Cas_start ?a]" ?a 10 0] by simp
  have s2: "cas_step 10 (0, [Cas_loaded ?a 0, Cas_start ?a]) (0, [Cas_loaded ?a 0, Cas_loaded ?a 0])"
    using cas_step.load [of 1 "[Cas_loaded ?a 0, Cas_start ?a]" ?a 10 0] by simp
  have s3: "cas_step 10 (0, [Cas_loaded ?a 0, Cas_loaded ?a 0]) (6, [Cas_granted ?a, Cas_loaded ?a 0])"
    using cas_step.swap [of 0 "[Cas_loaded ?a 0, Cas_loaded ?a 0]" ?a 0 10 0] by (simp add: sat_add_def)
  have s4: "cas_step 10 (6, [Cas_granted ?a, Cas_loaded ?a 0]) (6, [Cas_granted ?a, Cas_start ?a])"
    using cas_step.retry [of 1 "[Cas_granted ?a, Cas_loaded ?a 0]" ?a 0 10 6] by (simp add: sat_add_def)
  have s5: "cas_step 10 (6, [Cas_granted ?a, Cas_start ?a]) (6, [Cas_granted ?a, Cas_loaded ?a 6])"
    using cas_step.load [of 1 "[Cas_granted ?a, Cas_start ?a]" ?a 10 6] by simp
  have s6: "cas_step 10 (6, [Cas_granted ?a, Cas_loaded ?a 6]) (6, [Cas_granted ?a, Cas_refused 12])"
    using cas_step.refuse [of 1 "[Cas_granted ?a, Cas_loaded ?a 6]" ?a 6 10 6] by (simp add: sat_add_def)
  show ?thesis
    using s1 s2 s3 s4 s5 s6 by (auto intro: converse_rtranclp_into_rtranclp r_into_rtranclp)
qed

theorem quota_cas_exact_witness:
  "(cas_step 10)\<^sup>*\<^sup>* (0, map Cas_start [Cas_add 6, Cas_add 6]) (6, [Cas_granted (Cas_add 6), Cas_refused 12]) \<and>
   unat (6 :: u64) = unat (0 :: u64) + sum_list (map granted [Cas_granted (Cas_add 6), Cas_refused 12])"
  using quota_cas_exact [OF demo_cas_run] demo_cas_run by simp

end
