(* ===== verification/Server_Shard.thy ===== *)
theory Server_Shard
  imports Core_Live Tenant
begin

text \<open>
  The key-value side of the shards (\<open>skeg-server/shard.rs\<close>): routing, the requests one shard answers
  (\<open>process\<close>) and the \<open>ShardSet\<close> operations that call them. A shard is its value log; the disk counter
  is shared by all shards, so it is threaded through every call. A shard whose thread has ended is
  unavailable. Requests are answered one at a time.
\<close>

subsection \<open>Requests\<close>

definition shard_for :: "(bytes \<Rightarrow> u64) \<Rightarrow> bytes \<Rightarrow> nat \<Rightarrow> nat" where
  "shard_for xxh3 key n = unat (xxh3 key) mod n"

datatype shard_error = Unavailable | Storage bytes

datatype shard_req =
    Req_get bytes u128
  | Req_set bytes bytes durability u128 "nat option"
  | Req_set_many "(bytes \<times> bytes) list" durability
  | Req_append bytes bytes durability u128 "nat option"
  | Req_del bytes durability
  | Req_erase_prefix u128 bytes durability
  | Req_reclaim
  | Req_count_tenant_keys u128
  | Req_mget_batch "(nat \<times> bytes) list" u128
  | Req_tenant_cache_bytes u128
  | Req_stats

datatype shard_resp =
    Resp_value "bytes option"
  | Resp_done
  | Resp_existed bool
  | Resp_erased nat nat
  | Resp_count nat
  | Resp_len nat
  | Resp_reclaimed nat
  | Resp_cache_bytes u64
  | Resp_mget_batch "(nat \<times> bytes option) list"
  | Resp_stats u64 u64 nat u64
  | Resp_err bytes

text \<open>The text of a store error; the operating system's own message is left out.\<close>

definition hex_u32 :: "u32 \<Rightarrow> bytes" where
  "hex_u32 w = lit ''0x'' @ concat (map hex_byte (rev (u32_to_le w)))"

fun error_text :: "error \<Rightarrow> bytes" where
  "error_text Io = lit ''I/O error: ''"
| "error_text (CrcMismatch a b) = lit ''CRC mismatch: computed '' @ hex_u32 a @ lit '', stored '' @ hex_u32 b"
| "error_text (InvalidRecord msg) = lit ''invalid record: '' @ lit msg"
| "error_text (UnknownKind k) = lit ''unknown record kind: 0x'' @ hex_byte k"
| "error_text DiskQuota = lit ''tenant disk quota exceeded''"

fun is_mutation :: "shard_req \<Rightarrow> bool" where
  "is_mutation (Req_set k x d t l) = True"
| "is_mutation (Req_set_many ps d) = True"
| "is_mutation (Req_append k x d t l) = True"
| "is_mutation (Req_del k d) = True"
| "is_mutation (Req_erase_prefix t s d) = True"
| "is_mutation Req_reclaim = True"
| "is_mutation _ = False"

definition starts_with :: "bytes \<Rightarrow> bytes \<Rightarrow> bool" where
  "starts_with p k \<longleftrightarrow> take (length p) k = p"

text \<open>
  Every victim is deleted, and the first failure is reported once all are done. The deletes are
  issued in the order of the keys; in the code up to 256 of them are in flight.
\<close>

fun del_all :: "(bytes \<Rightarrow> u32) \<Rightarrow> vlog \<Rightarrow> bytes list \<Rightarrow> durability \<Rightarrow> (error + bool) list \<times> vlog" where
  "del_all crc v [] dur = ([], v)"
| "del_all crc v (k # ks) dur =
    (let (r, v) = vlog_del crc v k dur; (rs, v) = del_all crc v ks dur in (r # rs, v))"

fun count_erased :: "(error + bool) list \<Rightarrow> bytes + nat" where
  "count_erased [] = Inr 0"
| "count_erased (Inl e # rs) = Inl (lit ''erase failed: '' @ error_text e)"
| "count_erased (Inr b # rs) = and_then (count_erased rs) (\<lambda>n. Inr (if b then Suc n else n))"

definition sweep_prefix :: "(bytes \<Rightarrow> u32) \<Rightarrow> vlog \<Rightarrow> bytes \<Rightarrow> durability \<Rightarrow> (bytes + nat) \<times> vlog" where
  "sweep_prefix crc v pre dur =
    (let victims = filter (starts_with pre) (vlog_keys v);
         (results, v) = del_all crc v victims dur in
     (count_erased results, v))"

fun mget_items :: "(bytes \<Rightarrow> u32) \<Rightarrow> (bytes \<Rightarrow> u64) \<Rightarrow> vlog \<Rightarrow> (nat \<times> bytes) list \<Rightarrow> u128 \<Rightarrow> (nat \<times> bytes option) list vres" where
  "mget_items crc xxh3 v [] tenant = Some (Inr [], v)"
| "mget_items crc xxh3 v ((i, k) # items) tenant =
    (case get_scoped crc xxh3 v k tenant of
       None \<Rightarrow> None
     | Some (Inl e, v) \<Rightarrow> Some (Inl e, v)
     | Some (Inr r, v) \<Rightarrow>
         (case mget_items crc xxh3 v items tenant of
            None \<Rightarrow> None
          | Some (Inl e, v) \<Rightarrow> Some (Inl e, v)
          | Some (Inr rs, v) \<Rightarrow> Some (Inr ((i, r) # rs), v)))"

definition reply :: "('a \<Rightarrow> shard_resp) \<Rightarrow> (error + 'a) \<times> vlog \<Rightarrow> shard_resp \<times> vlog" where
  "reply f = map_prod (case_sum (\<lambda>e. Resp_err (error_text e)) f) id"

fun process_kv :: "(bytes \<Rightarrow> u32) \<Rightarrow> (bytes \<Rightarrow> u64) \<Rightarrow> vlog \<Rightarrow> shard_req \<Rightarrow> (shard_resp \<times> vlog) option" where
  "process_kv crc xxh3 v (Req_get k t) = map_option (reply Resp_value) (get_scoped crc xxh3 v k t)"
| "process_kv crc xxh3 v (Req_set k x d t l) = map_option (reply (\<lambda>_. Resp_done)) (set_scoped crc xxh3 v k x d t l)"
| "process_kv crc xxh3 v (Req_set_many ps d) = map_option (reply (\<lambda>_. Resp_done)) (set_many crc xxh3 v ps d)"
| "process_kv crc xxh3 v (Req_append k x d t l) = map_option (reply Resp_len) (append_scoped crc xxh3 v k x d t l)"
| "process_kv crc xxh3 v (Req_del k d) = Some (reply Resp_existed (vlog_del crc v k d))"
| "process_kv crc xxh3 v (Req_erase_prefix t subject d) =
    (if t = 0 then Some (Resp_err (lit ''cannot erase under the anonymous tenant (0)''), v)
     else Some (map_prod (case_sum Resp_err (Resp_erased 0)) id (sweep_prefix crc v (u128_to_le t @ subject) d)))"
| "process_kv crc xxh3 v Req_reclaim =
    Some (map_prod (case_sum (\<lambda>e. Resp_err (lit ''reclaim failed: '' @ error_text e)) Resp_reclaimed) id
      (reclaim_all_dead crc xxh3 v))"
| "process_kv crc xxh3 v (Req_count_tenant_keys t) =
    Some (Resp_count (length (filter (\<lambda>k. length k \<ge> 16 \<and> take 16 k = u128_to_le t) (vlog_keys v))), v)"
| "process_kv crc xxh3 v (Req_mget_batch items t) = map_option (reply Resp_mget_batch) (mget_items crc xxh3 v items t)"
| "process_kv crc xxh3 v (Req_tenant_cache_bytes t) = Some (Resp_cache_bytes (tenant_cache_bytes v t), v)"
| "process_kv crc xxh3 v Req_stats =
    (case cache_stats v of (b, ev, n_keys, bg) \<Rightarrow> Some (Resp_stats b ev n_keys bg, v))"

definition process :: "(bytes \<Rightarrow> u32) \<Rightarrow> (bytes \<Rightarrow> u64) \<Rightarrow> bool \<Rightarrow> vlog \<Rightarrow> shard_req \<Rightarrow> (shard_resp \<times> vlog) option" where
  "process crc xxh3 read_only v req =
    (if read_only \<and> is_mutation req then Some (Resp_err (lit ''server is in serve mode (read-only)''), v)
     else process_kv crc xxh3 v req)"

subsection \<open>The shard set\<close>

record shard_set =
  ss_shards :: "vlog list"
  ss_disk :: "(u128 \<times> nat) list"
  ss_read_only :: bool
  ss_down :: "nat list"

type_synonym 'a sres = "((shard_error + 'a) \<times> shard_set) option"

definition shard_call :: "(bytes \<Rightarrow> u32) \<Rightarrow> (bytes \<Rightarrow> u64) \<Rightarrow> shard_set \<Rightarrow> nat \<Rightarrow> shard_req \<Rightarrow> shard_resp sres" where
  "shard_call crc xxh3 ss shard req =
    (if shard \<in> set (ss_down ss) then Some (Inl Unavailable, ss)
     else case process crc xxh3 (ss_read_only ss) ((ss_shards ss ! shard)\<lparr>tenant_disk := ss_disk ss\<rparr>) req of
       None \<Rightarrow> None
     | Some (resp, v) \<Rightarrow> Some (Inr resp, ss\<lparr>ss_shards := (ss_shards ss)[shard := v], ss_disk := tenant_disk v\<rparr>))"

text \<open>What every operation does with a reply: the expected one, an error text, or neither.\<close>

definition expect :: "(shard_resp \<Rightarrow> 'a option) \<Rightarrow> shard_resp sres \<Rightarrow> 'a sres" where
  "expect pick res =
    (case res of
       None \<Rightarrow> None
     | Some (Inl e, ss) \<Rightarrow> Some (Inl e, ss)
     | Some (Inr resp, ss) \<Rightarrow>
         Some (case pick resp of
                 Some a \<Rightarrow> Inr a
               | None \<Rightarrow> (case resp of Resp_err e \<Rightarrow> Inl (Storage e) | _ \<Rightarrow> Inl Unavailable), ss))"

definition n_shards :: "shard_set \<Rightarrow> nat" where
  "n_shards ss = length (ss_shards ss)"

definition shards_get :: "(bytes \<Rightarrow> u32) \<Rightarrow> (bytes \<Rightarrow> u64) \<Rightarrow> shard_set \<Rightarrow> bytes \<Rightarrow> u128 \<Rightarrow> bytes option sres" where
  "shards_get crc xxh3 ss key tenant =
    expect (\<lambda>r. case r of Resp_value v \<Rightarrow> Some v | _ \<Rightarrow> None)
      (shard_call crc xxh3 ss (shard_for xxh3 key (n_shards ss)) (Req_get key tenant))"

definition shards_set :: "(bytes \<Rightarrow> u32) \<Rightarrow> (bytes \<Rightarrow> u64) \<Rightarrow> shard_set \<Rightarrow> bytes \<Rightarrow> bytes \<Rightarrow> durability \<Rightarrow> u128 \<Rightarrow> nat option \<Rightarrow> unit sres" where
  "shards_set crc xxh3 ss key val dur tenant disk_limit =
    expect (\<lambda>r. case r of Resp_done \<Rightarrow> Some () | _ \<Rightarrow> None)
      (shard_call crc xxh3 ss (shard_for xxh3 key (n_shards ss)) (Req_set key val dur tenant disk_limit))"

definition shards_del :: "(bytes \<Rightarrow> u32) \<Rightarrow> (bytes \<Rightarrow> u64) \<Rightarrow> shard_set \<Rightarrow> bytes \<Rightarrow> durability \<Rightarrow> bool sres" where
  "shards_del crc xxh3 ss key dur =
    expect (\<lambda>r. case r of Resp_existed b \<Rightarrow> Some b | _ \<Rightarrow> None)
      (shard_call crc xxh3 ss (shard_for xxh3 key (n_shards ss)) (Req_del key dur))"

definition shards_append :: "(bytes \<Rightarrow> u32) \<Rightarrow> (bytes \<Rightarrow> u64) \<Rightarrow> shard_set \<Rightarrow> bytes \<Rightarrow> bytes \<Rightarrow> durability \<Rightarrow> u128 \<Rightarrow> nat option \<Rightarrow> nat sres" where
  "shards_append crc xxh3 ss key val dur tenant disk_limit =
    expect (\<lambda>r. case r of Resp_len n \<Rightarrow> Some n | _ \<Rightarrow> None)
      (shard_call crc xxh3 ss (shard_for xxh3 key (n_shards ss)) (Req_append key val dur tenant disk_limit))"

definition shard_batch :: "(bytes \<Rightarrow> u64) \<Rightarrow> nat \<Rightarrow> (bytes \<times> bytes) list \<Rightarrow> nat \<Rightarrow> (bytes \<times> bytes) list" where
  "shard_batch xxh3 n pairs s = filter (\<lambda>(k, _). shard_for xxh3 k n = s) pairs"

fun mset_batches :: "(bytes \<Rightarrow> u32) \<Rightarrow> (bytes \<Rightarrow> u64) \<Rightarrow> shard_set \<Rightarrow> (nat \<times> (bytes \<times> bytes) list) list \<Rightarrow> durability \<Rightarrow> unit sres" where
  "mset_batches crc xxh3 ss [] dur = Some (Inr (), ss)"
| "mset_batches crc xxh3 ss ((shard, batch) # rest) dur =
    (if batch = [] then mset_batches crc xxh3 ss rest dur
     else case expect (\<lambda>r. case r of Resp_done \<Rightarrow> Some () | _ \<Rightarrow> None)
                 (shard_call crc xxh3 ss shard (Req_set_many batch dur)) of
         None \<Rightarrow> None
       | Some (Inl e, ss) \<Rightarrow> Some (Inl e, ss)
       | Some (Inr _, ss) \<Rightarrow> mset_batches crc xxh3 ss rest dur)"

definition shards_mset :: "(bytes \<Rightarrow> u32) \<Rightarrow> (bytes \<Rightarrow> u64) \<Rightarrow> shard_set \<Rightarrow> (bytes \<times> bytes) list \<Rightarrow> durability \<Rightarrow> unit sres" where
  "shards_mset crc xxh3 ss pairs dur =
    mset_batches crc xxh3 ss (map (\<lambda>s. (s, shard_batch xxh3 (n_shards ss) pairs s)) [0..<n_shards ss]) dur"

definition mget_bucket :: "(bytes \<Rightarrow> u64) \<Rightarrow> nat \<Rightarrow> bytes list \<Rightarrow> nat \<Rightarrow> (nat \<times> bytes) list" where
  "mget_bucket xxh3 n keys s = filter (\<lambda>(_, k). shard_for xxh3 k n = s) (List.enumerate 0 keys)"

definition place_values :: "'a list \<Rightarrow> (nat \<times> 'a) list \<Rightarrow> 'a list" where
  "place_values result items = foldl (\<lambda>r (i, x). r[i := x]) result items"

fun mget_buckets :: "(bytes \<Rightarrow> u32) \<Rightarrow> (bytes \<Rightarrow> u64) \<Rightarrow> shard_set \<Rightarrow> (nat \<times> (nat \<times> bytes) list) list \<Rightarrow> u128 \<Rightarrow>
  bytes option list \<Rightarrow> bytes option list sres" where
  "mget_buckets crc xxh3 ss [] tenant result = Some (Inr result, ss)"
| "mget_buckets crc xxh3 ss ((shard, bucket) # rest) tenant result =
    (if bucket = [] then mget_buckets crc xxh3 ss rest tenant result
     else case expect (\<lambda>r. case r of Resp_mget_batch items \<Rightarrow> Some items | _ \<Rightarrow> None)
                 (shard_call crc xxh3 ss shard (Req_mget_batch bucket tenant)) of
         None \<Rightarrow> None
       | Some (Inl e, ss) \<Rightarrow> Some (Inl e, ss)
       | Some (Inr items, ss) \<Rightarrow> mget_buckets crc xxh3 ss rest tenant (place_values result items))"

definition shards_mget :: "(bytes \<Rightarrow> u32) \<Rightarrow> (bytes \<Rightarrow> u64) \<Rightarrow> shard_set \<Rightarrow> bytes list \<Rightarrow> u128 \<Rightarrow> bytes option list sres" where
  "shards_mget crc xxh3 ss keys tenant =
    mget_buckets crc xxh3 ss (map (\<lambda>s. (s, mget_bucket xxh3 (n_shards ss) keys s)) [0..<n_shards ss]) tenant
      (replicate (length keys) None)"

text \<open>The loops that ask every shard in turn and add up the replies.\<close>

fun sum_shards :: "(bytes \<Rightarrow> u32) \<Rightarrow> (bytes \<Rightarrow> u64) \<Rightarrow> shard_req \<Rightarrow> (shard_resp \<Rightarrow> nat option) \<Rightarrow> shard_set \<Rightarrow> nat list \<Rightarrow> nat sres" where
  "sum_shards crc xxh3 req pick ss [] = Some (Inr 0, ss)"
| "sum_shards crc xxh3 req pick ss (s # rest) =
    (case expect pick (shard_call crc xxh3 ss s req) of
       None \<Rightarrow> None
     | Some (Inl e, ss) \<Rightarrow> Some (Inl e, ss)
     | Some (Inr n, ss) \<Rightarrow> map_option (map_prod (map_sum id ((+) n)) id) (sum_shards crc xxh3 req pick ss rest))"

definition shards_count_tenant_keys :: "(bytes \<Rightarrow> u32) \<Rightarrow> (bytes \<Rightarrow> u64) \<Rightarrow> shard_set \<Rightarrow> u128 \<Rightarrow> nat sres" where
  "shards_count_tenant_keys crc xxh3 ss tenant =
    sum_shards crc xxh3 (Req_count_tenant_keys tenant) (\<lambda>r. case r of Resp_count n \<Rightarrow> Some n | _ \<Rightarrow> None) ss [0..<n_shards ss]"

definition shards_erase_prefix :: "(bytes \<Rightarrow> u32) \<Rightarrow> (bytes \<Rightarrow> u64) \<Rightarrow> shard_set \<Rightarrow> u128 \<Rightarrow> bytes \<Rightarrow> durability \<Rightarrow> nat sres" where
  "shards_erase_prefix crc xxh3 ss tenant subject dur =
    (if tenant = 0 then Some (Inl (Storage (lit ''cannot erase under the anonymous tenant (0)'')), ss)
     else sum_shards crc xxh3 (Req_erase_prefix tenant subject dur)
       (\<lambda>r. case r of Resp_erased _ k \<Rightarrow> Some k | _ \<Rightarrow> None) ss [0..<n_shards ss])"

definition shards_reclaim :: "(bytes \<Rightarrow> u32) \<Rightarrow> (bytes \<Rightarrow> u64) \<Rightarrow> shard_set \<Rightarrow> nat sres" where
  "shards_reclaim crc xxh3 ss =
    sum_shards crc xxh3 Req_reclaim (\<lambda>r. case r of Resp_reclaimed n \<Rightarrow> Some n | _ \<Rightarrow> None) ss [0..<n_shards ss]"

definition shards_tenant_disk_bytes :: "shard_set \<Rightarrow> u128 \<Rightarrow> nat" where
  "shards_tenant_disk_bytes ss tenant = disk_get (ss_disk ss) tenant"

text \<open>Opening: every shard recovers its own directory and adds its keys to the shared disk counter.\<close>

fun open_shards :: "(bytes \<Rightarrow> u32) \<Rightarrow> (bytes \<Rightarrow> u64) \<Rightarrow> nat \<Rightarrow> store_dir list \<Rightarrow> (u128 \<times> nat) list \<Rightarrow> error + vlog list \<times> (u128 \<times> nat) list" where
  "open_shards crc xxh3 seg [] disk = Inr ([], disk)"
| "open_shards crc xxh3 seg (d # dirs) disk =
    and_then (open_shared crc xxh3 d seg disk) (\<lambda>v.
    and_then (open_shards crc xxh3 seg dirs (tenant_disk v)) (\<lambda>(vs, disk'). Inr (v # vs, disk')))"

definition shards_open :: "(bytes \<Rightarrow> u32) \<Rightarrow> (bytes \<Rightarrow> u64) \<Rightarrow> nat \<Rightarrow> store_dir list \<Rightarrow> bool \<Rightarrow> error + shard_set" where
  "shards_open crc xxh3 seg dirs read_only =
    and_then (open_shards crc xxh3 seg dirs []) (\<lambda>(vs, disk).
      Inr \<lparr>ss_shards = vs, ss_disk = disk, ss_read_only = read_only, ss_down = []\<rparr>)"

subsection \<open>Clocks\<close>

lemma maybe_rotate_clock: "maybe_rotate v n = Inr w \<Longrightarrow> clock w = clock v"
  by (auto simp: maybe_rotate_def Let_def split: if_splits)

lemma commit_append_clock: "commit_append v b d = (w, p, n) \<Longrightarrow> clock w = clock v"
  by (auto simp: commit_append_def Let_def)

lemma append_raw_clock: "append_raw crc v k x kd ts d = (r, w) \<Longrightarrow> clock w = clock v"
  by (auto simp: append_raw_def Let_def split: sum.splits prod.splits dest!: maybe_rotate_clock commit_append_clock)

lemma next_ts_clock: "next_ts v = (ts, w) \<Longrightarrow> clock w = clock v + 1"
  by (auto simp: next_ts_def)

lemma set_scoped_clock:
  "set_scoped crc xxh3 v k x d t l = Some (r, w) \<Longrightarrow> clock w = clock v \<or> clock w = clock v + 1"
  by (auto simp: set_scoped_def Let_def split: if_splits prod.splits sum.splits option.splits
      dest!: append_raw_clock next_ts_clock)

lemma get_scoped_clock: "get_scoped crc xxh3 v k t = Some (r, w) \<Longrightarrow> clock w = clock v"
  by (auto simp: get_scoped_def Let_def split: prod.splits sum.splits option.splits)

lemma append_scoped_clock:
  "append_scoped crc xxh3 v k x d t l = Some (r, w) \<Longrightarrow> clock w = clock v \<or> clock w = clock v + 1"
  by (auto simp: append_scoped_def Let_def split: prod.splits sum.splits option.splits
      dest!: get_scoped_clock set_scoped_clock)

lemma vlog_del_clock: "vlog_del crc v k d = (r, w) \<Longrightarrow> clock w = clock v \<or> clock w = clock v + 1"
  by (auto simp: vlog_del_def Let_def split: prod.splits sum.splits option.splits
      dest!: append_raw_clock next_ts_clock)

lemma encode_members_clock:
  "encode_members crc v blob ps = Some (r, w) \<Longrightarrow> \<exists>j\<le>length ps. clock w = clock v + of_nat j"
proof (induction crc v blob ps arbitrary: r rule: encode_members.induct)
  case (1 crc v blob)
  then show ?case
    by auto
next
  case (2 crc v blob key val pairs)
  obtain ts u where n: "next_ts v = (ts, u)" and u: "clock u = clock v + 1"
    using next_ts_clock by (cases "next_ts v") blast
  show ?case
  proof (cases "length blob \<ge> 2 ^ 32")
    case True
    then show ?thesis
      using 2(2) by (auto intro!: exI [of _ 0])
  next
    case False
    then obtain r' where "encode_members crc u (blob @ encode_record crc key val Scalar ts) pairs = Some (r', w)"
      using 2(2) n by (auto simp: Let_def split: if_splits option.splits sum.splits prod.splits)
    then obtain j where "j \<le> length pairs" "clock w = clock u + of_nat j"
      using 2(1) [OF False n [symmetric] refl] 2(2) False n by (auto simp: Let_def split: if_splits)
    then show ?thesis
      using u by (intro exI [of _ "Suc j"]) simp
  qed
qed

lemma dec_live_clock [simp]: "clock (dec_live v s n) = clock v" and inc_live_clock [simp]: "clock (inc_live v s n) = clock v"
  by (simp_all add: dec_live_def inc_live_def on_segment_def)

lemma apply_member_clock: "apply_member xxh3 sid start v x = Some w \<Longrightarrow> clock w = clock v"
  by (auto simp: apply_member_def Let_def split: prod.splits option.splits if_splits)

lemma apply_members_clock: "apply_members xxh3 sid start v xs = Some w \<Longrightarrow> clock w = clock v"
  by (induction xxh3 sid start v xs rule: apply_members.induct) (auto split: option.splits dest!: apply_member_clock)

lemma set_many_clock:
  "set_many crc xxh3 v ps d = Some (r, w) \<Longrightarrow> \<exists>j\<le>Suc (length ps). clock w = clock v + of_nat j"
proof -
  assume s: "set_many crc xxh3 v ps d = Some (r, w)"
  have one: "\<exists>j\<le>Suc (length ps). clock w = clock v + of_nat j"
    if n: "next_ts v = (ts, u)" and e: "encode_members crc u b ps = Some (r', u')" and c: "clock w = clock u'" for ts u b r' u'
  proof -
    obtain j where "j \<le> length ps" "clock u' = clock u + of_nat j"
      using encode_members_clock [OF e] by blast
    then show ?thesis
      using next_ts_clock [OF n] c by (intro exI [of _ "Suc j"]) simp
  qed
  show ?thesis
  proof (cases "ps = [] \<or> length ps \<ge> 2 ^ 32")
    case True
    then show ?thesis
      using s by (auto simp: set_many_def intro!: exI [of _ 0] split: if_splits)
  next
    case False
    obtain ts u where n: "next_ts v = (ts, u)"
      by force
    show ?thesis
      using s False n one [OF n]
      by (auto simp: set_many_def Let_def split: option.splits sum.splits prod.splits if_splits
          dest!: apply_members_clock commit_append_clock maybe_rotate_clock)
  qed
qed

subsection \<open>The shards as one map\<close>

lemma store_ok_disk [simp]: "store_ok crc xxh3 (v\<lparr>tenant_disk := d\<rparr>) m \<longleftrightarrow> store_ok crc xxh3 v m"
  by (simp add: store_ok_def log_wf_def log_base_def snap_ok_def all_recs_def seg_ids_def)

text \<open>The part of a map that one shard holds, and the set as a whole.\<close>

definition shard_part :: "(bytes \<Rightarrow> u64) \<Rightarrow> nat \<Rightarrow> nat \<Rightarrow> (bytes \<Rightarrow> bytes option) \<Rightarrow> bytes \<Rightarrow> bytes option" where
  "shard_part xxh3 n i m = (\<lambda>k. if shard_for xxh3 k n = i then m k else None)"

definition shards_ok :: "(bytes \<Rightarrow> u32) \<Rightarrow> (bytes \<Rightarrow> u64) \<Rightarrow> shard_set \<Rightarrow> (bytes \<Rightarrow> bytes option) \<Rightarrow> bool" where
  "shards_ok crc xxh3 ss m \<longleftrightarrow> ss_shards ss \<noteq> [] \<and>
    (\<forall>i<n_shards ss. store_ok crc xxh3 (ss_shards ss ! i) (shard_part xxh3 (n_shards ss) i m))"

text \<open>Room for \<open>n\<close> more timestamps on every shard.\<close>

definition shards_room :: "nat \<Rightarrow> shard_set \<Rightarrow> bool" where
  "shards_room n ss \<longleftrightarrow> list_all (\<lambda>v. unat (clock v) + n < 2 ^ 64) (ss_shards ss)"

text \<open>A step that keeps the shape of the set and takes at most \<open>j\<close> timestamps of each shard.\<close>

definition ss_step :: "nat \<Rightarrow> shard_set \<Rightarrow> shard_set \<Rightarrow> bool" where
  "ss_step j ss ss' \<longleftrightarrow> n_shards ss' = n_shards ss \<and> ss_read_only ss' = ss_read_only ss \<and> ss_down ss' = ss_down ss \<and>
    (\<forall>n. shards_room (j + n) ss \<longrightarrow> shards_room n ss')"

lemma ss_step_refl [simp, intro]: "ss_step 0 ss ss"
  by (simp add: ss_step_def)

lemma ss_step_trans [trans]: "ss_step i a b \<Longrightarrow> ss_step j b c \<Longrightarrow> ss_step (i + j) a c"
  by (simp add: ss_step_def add.assoc)

lemma shards_room_mono: "shards_room n ss \<Longrightarrow> m \<le> n \<Longrightarrow> shards_room m ss"
  by (auto simp: shards_room_def list_all_iff)

lemma ss_step_mono: "ss_step i a b \<Longrightarrow> i \<le> j \<Longrightarrow> ss_step j a b"
  unfolding ss_step_def by (meson add_le_mono1 shards_room_mono)

lemma ss_step_room: "ss_step j a b \<Longrightarrow> shards_room (j + n) a \<Longrightarrow> shards_room n b"
  by (simp add: ss_step_def)

lemma shard_for_less: "shards_ok crc xxh3 ss m \<Longrightarrow> shard_for xxh3 k (n_shards ss) < n_shards ss"
  by (simp add: shards_ok_def shard_for_def n_shards_def)

lemma unat_add_room: "unat (c :: u64) + (j + n) < 2 ^ 64 \<Longrightarrow> i \<le> j \<Longrightarrow> unat (c + of_nat i) + n < 2 ^ 64"
proof -
  assume a: "unat c + (j + n) < 2 ^ 64" "i \<le> j"
  then have "unat (of_nat i :: u64) = i"
    by (intro unat_of_nat_small) simp
  then have "unat (c + of_nat i) = unat c + i"
    using a by (subst unat_add_lem [THEN iffD1]) simp_all
  then show ?thesis
    using a by simp
qed

lemma shard_step:
  assumes "s < n_shards ss" and "\<exists>i\<le>j. clock v = clock (ss_shards ss ! s) + of_nat i"
  shows "ss_step j ss (ss\<lparr>ss_shards := (ss_shards ss)[s := v], ss_disk := d\<rparr>)"
proof -
  have "unat (clock v) + n < 2 ^ 64" if r: "shards_room (j + n) ss" for n
    using assms r unat_add_room [of "clock (ss_shards ss ! s)" j n]
    by (auto simp: shards_room_def list_all_length n_shards_def)
  then show ?thesis
    using assms(1) shards_room_mono [of "j + _" ss]
    by (fastforce simp: ss_step_def n_shards_def shards_room_def list_all_length nth_list_update)
qed

text \<open>Updating one shard updates the map at the keys routed to it.\<close>

lemma shards_ok_update:
  assumes ok: "shards_ok crc xxh3 ss m" and s: "s < n_shards ss"
    and v: "store_ok crc xxh3 v (shard_part xxh3 (n_shards ss) s m')"
    and eq: "\<And>k. shard_for xxh3 k (n_shards ss) \<noteq> s \<Longrightarrow> m' k = m k"
  shows "shards_ok crc xxh3 (ss\<lparr>ss_shards := (ss_shards ss)[s := v], ss_disk := d\<rparr>) m'"
proof -
  have "shard_part xxh3 (n_shards ss) i m' = shard_part xxh3 (n_shards ss) i m" if "i \<noteq> s" for i
    using eq that by (auto simp: shard_part_def)
  then show ?thesis
    using ok s v by (auto simp: shards_ok_def n_shards_def nth_list_update)
qed

lemma shard_part_upd:
  "shard_for xxh3 k n = i \<Longrightarrow> (shard_part xxh3 n i m)(k := x) = shard_part xxh3 n i (m(k := x))"
  by (auto simp: shard_part_def)

lemma shard_part_at [simp]: "shard_for xxh3 k n = i \<Longrightarrow> shard_part xxh3 n i m k = m k"
  by (simp add: shard_part_def)

text \<open>
  One call: when the request takes the shard's part of \<open>m\<close> to its part of a map \<open>M resp\<close> that agrees
  with \<open>m\<close> on the other shards, the set goes from \<open>m\<close> to \<open>M resp\<close>.
\<close>

lemma shard_call_ok:
  assumes ok: "shards_ok crc xxh3 ss m" and s: "s < n_shards ss"
    and call: "shard_call crc xxh3 ss s req = Some (r, ss')"
    and body: "\<And>v resp w. store_ok crc xxh3 v (shard_part xxh3 (n_shards ss) s m) \<Longrightarrow>
      clock v = clock (ss_shards ss ! s) \<Longrightarrow> process_kv crc xxh3 v req = Some (resp, w) \<Longrightarrow>
      store_ok crc xxh3 w (shard_part xxh3 (n_shards ss) s (M resp)) \<and>
      (\<exists>i\<le>j. clock w = clock v + of_nat i) \<and> Q resp"
    and other: "\<And>resp k. Q resp \<Longrightarrow> shard_for xxh3 k (n_shards ss) \<noteq> s \<Longrightarrow> M resp k = m k"
    and ro: "\<And>e. is_mutation req \<Longrightarrow> M (Resp_err e) = m \<and> Q (Resp_err e)"
  shows "ss_step j ss ss' \<and>
    (case r of Inl e \<Rightarrow> e = Unavailable \<and> shards_ok crc xxh3 ss' m | Inr resp \<Rightarrow> Q resp \<and> shards_ok crc xxh3 ss' (M resp))"
proof (cases "s \<in> set (ss_down ss)")
  case True
  then show ?thesis
    using call ok by (auto simp: shard_call_def intro: ss_step_mono [OF ss_step_refl])
next
  case False
  let ?v = "(ss_shards ss ! s)\<lparr>tenant_disk := ss_disk ss\<rparr>"
  obtain resp w where p: "process crc xxh3 (ss_read_only ss) ?v req = Some (resp, w)" and r: "r = Inr resp"
    and ss': "ss' = ss\<lparr>ss_shards := (ss_shards ss)[s := w], ss_disk := tenant_disk w\<rparr>"
    using call False by (auto simp: shard_call_def split: option.splits)
  have v: "store_ok crc xxh3 ?v (shard_part xxh3 (n_shards ss) s m)"
    using ok s by (simp add: shards_ok_def)
  have w: "store_ok crc xxh3 w (shard_part xxh3 (n_shards ss) s (M resp)) \<and> (\<exists>i\<le>j. clock w = clock ?v + of_nat i) \<and> Q resp"
  proof (cases "ss_read_only ss \<and> is_mutation req")
    case True
    then show ?thesis
      using p v ro by (auto simp: process_def intro!: exI [of _ 0])
  next
    case False
    then show ?thesis
      using p body [OF v] unfolding process_def by (simp only: if_False) simp
  qed
  then show ?thesis
    using shard_step [OF s, of j w] shards_ok_update [OF ok s, of w "M resp"] other by (simp add: r ss')
qed

lemma shard_op_ok:
  assumes ok: "shards_ok crc xxh3 ss m" and s: "s < n_shards ss"
    and ex: "expect pick (shard_call crc xxh3 ss s req) = Some (r, ss')"
    and body: "\<And>v resp w. store_ok crc xxh3 v (shard_part xxh3 (n_shards ss) s m) \<Longrightarrow>
      clock v = clock (ss_shards ss ! s) \<Longrightarrow> process_kv crc xxh3 v req = Some (resp, w) \<Longrightarrow>
      store_ok crc xxh3 w (shard_part xxh3 (n_shards ss) s (M resp)) \<and>
      (\<exists>i\<le>j. clock w = clock v + of_nat i) \<and> Q resp"
    and other: "\<And>resp k. Q resp \<Longrightarrow> shard_for xxh3 k (n_shards ss) \<noteq> s \<Longrightarrow> M resp k = m k"
    and ro: "\<And>e. is_mutation req \<Longrightarrow> M (Resp_err e) = m \<and> Q (Resp_err e)"
  shows "ss_step j ss ss' \<and> (r = Inl Unavailable \<and> shards_ok crc xxh3 ss' m \<or>
    (\<exists>resp. Q resp \<and> shards_ok crc xxh3 ss' (M resp) \<and>
      r = (case pick resp of Some a \<Rightarrow> Inr a
           | None \<Rightarrow> (case resp of Resp_err e \<Rightarrow> Inl (Storage e) | _ \<Rightarrow> Inl Unavailable))))"
proof -
  obtain r0 where c: "shard_call crc xxh3 ss s req = Some (r0, ss')"
    and r: "r = (case r0 of Inl e \<Rightarrow> Inl e | Inr resp \<Rightarrow> (case pick resp of Some a \<Rightarrow> Inr a
      | None \<Rightarrow> (case resp of Resp_err e \<Rightarrow> Inl (Storage e) | _ \<Rightarrow> Inl Unavailable)))"
    using ex by (auto simp: expect_def split: option.splits sum.splits)
  have call: "ss_step j ss ss' \<and> (case r0 of Inl e \<Rightarrow> e = Unavailable \<and> shards_ok crc xxh3 ss' m
      | Inr resp \<Rightarrow> Q resp \<and> shards_ok crc xxh3 ss' (M resp))"
    by (rule shard_call_ok [OF ok s c]) (use body other ro in \<open>blast+\<close>)
  show ?thesis
  proof (cases r0)
    case (Inl e)
    then show ?thesis
      using call r by simp
  next
    case (Inr resp)
    then show ?thesis
      using call r by (intro conjI disjI2 exI [of _ resp]) simp_all
  qed
qed

lemma clock_same: "clock w = clock v \<Longrightarrow> \<exists>i\<le>j. clock w = clock v + of_nat i"
  by (intro exI [of _ 0]) simp

lemma clock_one: "clock w = clock v \<or> clock w = clock v + 1 \<Longrightarrow> \<exists>i\<le>1. clock w = clock v + of_nat i"
  by (elim disjE) (auto intro: exI [of _ 0] exI [of _ 1])

lemma room_clock: "shards_room 1 ss \<Longrightarrow> s < n_shards ss \<Longrightarrow> clock (ss_shards ss ! s) \<noteq> - 1"
proof
  assume "shards_room 1 ss" "s < n_shards ss" "clock (ss_shards ss ! s) = - 1"
  then show False
    using unat_max_u64 by (auto simp: shards_room_def list_all_length n_shards_def)
qed

lemma shards_get_ok:
  assumes ok: "shards_ok crc xxh3 ss m" and ex: "shards_get crc xxh3 ss key t = Some (r, ss')"
  shows "ss_step 0 ss ss' \<and> shards_ok crc xxh3 ss' m \<and> (r = Inr (m key) \<or> r = Inl Unavailable)"
proof -
  let ?s = "shard_for xxh3 key (n_shards ss)"
  have body: "store_ok crc xxh3 w (shard_part xxh3 (n_shards ss) ?s m) \<and> (\<exists>i\<le>0. clock w = clock v + of_nat i) \<and> resp = Resp_value (m key)"
    if v: "store_ok crc xxh3 v (shard_part xxh3 (n_shards ss) ?s m)" and p: "process_kv crc xxh3 v (Req_get key t) = Some (resp, w)" for v resp w
    using get_scoped_ok [OF v, of key t] p by (auto simp: reply_def)
  show ?thesis
    using shard_op_ok [where M = "\<lambda>_. m" and Q = "\<lambda>resp. resp = Resp_value (m key)" and j = 0,
        OF ok shard_for_less [OF ok] ex [unfolded shards_get_def] body] by auto
qed

lemma shards_set_ok:
  assumes ok: "shards_ok crc xxh3 ss m" and crc: "crc_zero_ok crc" and fits: "rec_fits key val" and room: "shards_room 1 ss"
    and ex: "shards_set crc xxh3 ss key val d t l = Some (r, ss')"
  shows "ss_step 1 ss ss' \<and> shards_ok crc xxh3 ss' (case r of Inr _ \<Rightarrow> m(key \<mapsto> val) | Inl _ \<Rightarrow> m)"
proof -
  let ?s = "shard_for xxh3 key (n_shards ss)"
  let ?M = "\<lambda>resp. if resp = Resp_done then m(key \<mapsto> val) else m"
  have body: "store_ok crc xxh3 w (shard_part xxh3 (n_shards ss) ?s (?M resp)) \<and> (\<exists>i\<le>1. clock w = clock v + of_nat i) \<and> True"
    if v: "store_ok crc xxh3 v (shard_part xxh3 (n_shards ss) ?s m)" and cl: "clock v = clock (ss_shards ss ! ?s)"
      and p: "process_kv crc xxh3 v (Req_set key val d t l) = Some (resp, w)" for v resp w
  proof -
    obtain x where x: "set_scoped crc xxh3 v key val d t l = Some (x, w)" "resp = (case x of Inl e \<Rightarrow> Resp_err (error_text e) | Inr _ \<Rightarrow> Resp_done)"
      using p by (auto simp: reply_def)
    have "clock v \<noteq> - 1"
      using room_clock [OF room shard_for_less [OF ok]] cl by simp
    from set_scoped_ok [OF v crc fits this, where dur = d and tenant = t and limit = l] clock_one [OF set_scoped_clock [OF x(1)]] show ?thesis
      by (auto simp: x shard_part_upd split: sum.splits)
  qed
  have "ss_step 1 ss ss' \<and> (r = Inl Unavailable \<and> shards_ok crc xxh3 ss' m \<or> (\<exists>resp. True \<and> shards_ok crc xxh3 ss' (?M resp) \<and>
      r = (case (case resp of Resp_done \<Rightarrow> Some () | _ \<Rightarrow> None) of Some a \<Rightarrow> Inr a
           | None \<Rightarrow> (case resp of Resp_err e \<Rightarrow> Inl (Storage e) | _ \<Rightarrow> Inl Unavailable))))"
    by (rule shard_op_ok [where M = ?M and Q = "\<lambda>_. True" and j = 1, OF ok shard_for_less [OF ok] ex [unfolded shards_set_def] body]) auto
  then show ?thesis
  proof (elim conjE disjE exE)
    fix resp
    assume "ss_step 1 ss ss'" "shards_ok crc xxh3 ss' (?M resp)" "r = (case (case resp of Resp_done \<Rightarrow> Some () | _ \<Rightarrow> None) of Some a \<Rightarrow> Inr a
           | None \<Rightarrow> (case resp of Resp_err e \<Rightarrow> Inl (Storage e) | _ \<Rightarrow> Inl Unavailable))"
    then show ?thesis
      by (cases resp) simp_all
  qed simp
qed

lemma shards_append_ok:
  assumes ok: "shards_ok crc xxh3 ss m" and crc: "crc_zero_ok crc" and room: "shards_room 1 ss"
    and new: "new = (case m key of None \<Rightarrow> [] | Some cur \<Rightarrow> cur) @ val" and fits: "rec_fits key new"
    and ex: "shards_append crc xxh3 ss key val d t l = Some (r, ss')"
  shows "ss_step 1 ss ss' \<and>
    (case r of Inr n \<Rightarrow> n = length new \<and> shards_ok crc xxh3 ss' (m(key \<mapsto> new)) | Inl _ \<Rightarrow> shards_ok crc xxh3 ss' m)"
proof -
  let ?s = "shard_for xxh3 key (n_shards ss)"
  let ?M = "\<lambda>resp. case resp of Resp_len _ \<Rightarrow> m(key \<mapsto> new) | _ \<Rightarrow> m"
  let ?Q = "\<lambda>resp. case resp of Resp_len n \<Rightarrow> n = length new | _ \<Rightarrow> True"
  have body: "store_ok crc xxh3 w (shard_part xxh3 (n_shards ss) ?s (?M resp)) \<and> (\<exists>i\<le>1. clock w = clock v + of_nat i) \<and> ?Q resp"
    if v: "store_ok crc xxh3 v (shard_part xxh3 (n_shards ss) ?s m)" and cl: "clock v = clock (ss_shards ss ! ?s)"
      and p: "process_kv crc xxh3 v (Req_append key val d t l) = Some (resp, w)" for v resp w
  proof -
    obtain x where x: "append_scoped crc xxh3 v key val d t l = Some (x, w)" "resp = (case x of Inl e \<Rightarrow> Resp_err (error_text e) | Inr n \<Rightarrow> Resp_len n)"
      using p by (auto simp: reply_def)
    have "clock v \<noteq> - 1"
      using room_clock [OF room shard_for_less [OF ok]] cl by simp
    from append_scoped_ok [OF v crc this, where key = key and val = val and dur = d and tenant = t and limit = l] fits
      clock_one [OF append_scoped_clock [OF x(1)]] show ?thesis
      by (auto simp: x shard_part_upd new [symmetric] split: sum.splits)
  qed
  have "ss_step 1 ss ss' \<and> (r = Inl Unavailable \<and> shards_ok crc xxh3 ss' m \<or> (\<exists>resp. ?Q resp \<and> shards_ok crc xxh3 ss' (?M resp) \<and>
      r = (case (case resp of Resp_len n \<Rightarrow> Some n | _ \<Rightarrow> None) of Some a \<Rightarrow> Inr a
           | None \<Rightarrow> (case resp of Resp_err e \<Rightarrow> Inl (Storage e) | _ \<Rightarrow> Inl Unavailable))))"
    by (rule shard_op_ok [where M = ?M and Q = ?Q and j = 1, OF ok shard_for_less [OF ok] ex [unfolded shards_append_def] body]) (auto split: shard_resp.splits)
  then show ?thesis
  proof (elim conjE disjE exE)
    fix resp
    assume "ss_step 1 ss ss'" "shards_ok crc xxh3 ss' (?M resp)" "?Q resp" "r = (case (case resp of Resp_len n \<Rightarrow> Some n | _ \<Rightarrow> None) of Some a \<Rightarrow> Inr a
           | None \<Rightarrow> (case resp of Resp_err e \<Rightarrow> Inl (Storage e) | _ \<Rightarrow> Inl Unavailable))"
    then show ?thesis
      by (cases resp) simp_all
  qed simp
qed

lemma shards_del_ok:
  assumes ok: "shards_ok crc xxh3 ss m" and crc: "crc_zero_ok crc" and fits: "rec_fits key []" and room: "shards_room 1 ss"
    and ex: "shards_del crc xxh3 ss key d = Some (r, ss')"
  shows "ss_step 1 ss ss' \<and>
    (case r of Inr b \<Rightarrow> b = (m key \<noteq> None) \<and> shards_ok crc xxh3 ss' (m(key := None)) | Inl _ \<Rightarrow> shards_ok crc xxh3 ss' m)"
proof -
  let ?s = "shard_for xxh3 key (n_shards ss)"
  let ?M = "\<lambda>resp. case resp of Resp_existed _ \<Rightarrow> m(key := None) | _ \<Rightarrow> m"
  let ?Q = "\<lambda>resp. case resp of Resp_existed b \<Rightarrow> b = (m key \<noteq> None) | _ \<Rightarrow> True"
  have body: "store_ok crc xxh3 w (shard_part xxh3 (n_shards ss) ?s (?M resp)) \<and> (\<exists>i\<le>1. clock w = clock v + of_nat i) \<and> ?Q resp"
    if v: "store_ok crc xxh3 v (shard_part xxh3 (n_shards ss) ?s m)" and cl: "clock v = clock (ss_shards ss ! ?s)"
      and p: "process_kv crc xxh3 v (Req_del key d) = Some (resp, w)" for v resp w
  proof -
    obtain x where x: "vlog_del crc v key d = (x, w)" "resp = (case x of Inl e \<Rightarrow> Resp_err (error_text e) | Inr b \<Rightarrow> Resp_existed b)"
      using p by (cases "vlog_del crc v key d") (auto simp: reply_def)
    have "clock v \<noteq> - 1"
      using room_clock [OF room shard_for_less [OF ok]] cl by simp
    from vlog_del_ok [OF v crc this fits, where dur = d] clock_one [OF vlog_del_clock [OF x(1)]] show ?thesis
      by (auto simp: x shard_part_upd split: sum.splits)
  qed
  have "ss_step 1 ss ss' \<and> (r = Inl Unavailable \<and> shards_ok crc xxh3 ss' m \<or> (\<exists>resp. ?Q resp \<and> shards_ok crc xxh3 ss' (?M resp) \<and>
      r = (case (case resp of Resp_existed b \<Rightarrow> Some b | _ \<Rightarrow> None) of Some a \<Rightarrow> Inr a
           | None \<Rightarrow> (case resp of Resp_err e \<Rightarrow> Inl (Storage e) | _ \<Rightarrow> Inl Unavailable))))"
    by (rule shard_op_ok [where M = ?M and Q = ?Q and j = 1, OF ok shard_for_less [OF ok] ex [unfolded shards_del_def] body]) (auto split: shard_resp.splits)
  then show ?thesis
  proof (elim conjE disjE exE)
    fix resp
    assume "ss_step 1 ss ss'" "shards_ok crc xxh3 ss' (?M resp)" "?Q resp" "r = (case (case resp of Resp_existed b \<Rightarrow> Some b | _ \<Rightarrow> None) of Some a \<Rightarrow> Inr a
           | None \<Rightarrow> (case resp of Resp_err e \<Rightarrow> Inl (Storage e) | _ \<Rightarrow> Inl Unavailable))"
    then show ?thesis
      by (cases resp) simp_all
  qed simp
qed

subsection \<open>Batches over shards\<close>

lemma map_writes_simps: "map_writes m [] = m" "map_writes m ((a, b) # ps) = map_writes (m(a \<mapsto> b)) ps"
  by (simp_all add: map_writes_def)

lemma map_writes_mono_fun: "m k = m' k \<Longrightarrow> map_writes m ps k = map_writes m' ps k"
proof (induction ps arbitrary: m m')
  case (Cons p ps)
  obtain a b where p: "p = (a, b)"
    by force
  have "map_writes (m(a \<mapsto> b)) ps k = map_writes (m'(a \<mapsto> b)) ps k"
    by (rule Cons.IH) (use Cons.prems in simp)
  then show ?case
    by (simp add: p map_writes_simps)
qed (simp add: map_writes_simps)

lemma map_writes_filter:
  "map_writes m (filter (\<lambda>(k, _). P k) ps) k = (if P k then map_writes m ps k else m k)"
proof (induction ps arbitrary: m)
  case (Cons p ps)
  obtain a b where p: "p = (a, b)"
    by force
  have "map_writes (m(a \<mapsto> b)) ps k = map_writes m ps k" if "k \<noteq> a"
    by (rule map_writes_mono_fun) (use that in simp)
  then show ?case
    unfolding p filter.simps prod.case using Cons.IH by (cases "P a"; cases "k = a") (simp_all add: map_writes_simps)
qed (simp add: map_writes_simps)

text \<open>The map after the batches of the shards in \<open>D\<close>.\<close>

definition mset_part :: "(bytes \<Rightarrow> u64) \<Rightarrow> nat \<Rightarrow> (bytes \<times> bytes) list \<Rightarrow> nat set \<Rightarrow> (bytes \<Rightarrow> bytes option) \<Rightarrow> bytes \<Rightarrow> bytes option" where
  "mset_part xxh3 n ps D m = (\<lambda>k. if shard_for xxh3 k n \<in> D then map_writes m ps k else m k)"

lemma mset_part_insert:
  assumes "s \<notin> D"
  shows "map_writes (shard_part xxh3 n s (mset_part xxh3 n ps D m)) (shard_batch xxh3 n ps s) =
    shard_part xxh3 n s (mset_part xxh3 n ps (insert s D) m)"
proof
  fix k
  show "map_writes (shard_part xxh3 n s (mset_part xxh3 n ps D m)) (shard_batch xxh3 n ps s) k =
    shard_part xxh3 n s (mset_part xxh3 n ps (insert s D) m) k"
  proof (cases "shard_for xxh3 k n = s")
    case True
    then have "shard_part xxh3 n s (mset_part xxh3 n ps D m) k = m k"
      using assms by (simp add: mset_part_def)
    then have "map_writes (shard_part xxh3 n s (mset_part xxh3 n ps D m)) ps k = map_writes m ps k"
      by (rule map_writes_mono_fun)
    then show ?thesis
      using True by (simp add: shard_batch_def map_writes_filter mset_part_def)
  next
    case False
    then show ?thesis
      by (simp add: shard_batch_def map_writes_filter shard_part_def)
  qed
qed

lemma mset_part_other: "shard_for xxh3 k n \<noteq> s \<Longrightarrow> mset_part xxh3 n ps (insert s D) m k = mset_part xxh3 n ps D m k"
  by (simp add: mset_part_def)

lemma mset_batch_ok:
  assumes ok: "shards_ok crc xxh3 ss (mset_part xxh3 (n_shards ss) ps D m)" and crc: "crc_zero_ok crc"
    and fits: "list_all (\<lambda>(k, x). rec_fits k x) ps" and room: "shards_room (Suc (length ps)) ss"
    and s: "s < n_shards ss" "s \<notin> D"
    and ex: "expect (\<lambda>r. case r of Resp_done \<Rightarrow> Some () | _ \<Rightarrow> None)
      (shard_call crc xxh3 ss s (Req_set_many (shard_batch xxh3 (n_shards ss) ps s) d)) = Some (r, ss')"
  shows "ss_step (Suc (length ps)) ss ss' \<and>
    shards_ok crc xxh3 ss' (mset_part xxh3 (n_shards ss) ps (case r of Inr _ \<Rightarrow> insert s D | Inl _ \<Rightarrow> D) m)"
proof -
  let ?n = "n_shards ss" let ?b = "shard_batch xxh3 (n_shards ss) ps s"
  let ?M = "\<lambda>resp. mset_part xxh3 ?n ps (if resp = Resp_done then insert s D else D) m"
  have len: "length ?b \<le> length ps"
    by (simp add: shard_batch_def)
  have body: "store_ok crc xxh3 w (shard_part xxh3 ?n s (?M resp)) \<and> (\<exists>i\<le>Suc (length ps). clock w = clock v + of_nat i) \<and> True"
    if v: "store_ok crc xxh3 v (shard_part xxh3 ?n s (mset_part xxh3 ?n ps D m))" and cl: "clock v = clock (ss_shards ss ! s)"
      and p: "process_kv crc xxh3 v (Req_set_many ?b d) = Some (resp, w)" for v resp w
  proof -
    obtain x where x: "set_many crc xxh3 v ?b d = Some (x, w)" "resp = (case x of Inl e \<Rightarrow> Resp_err (error_text e) | Inr _ \<Rightarrow> Resp_done)"
      using p by (auto simp: reply_def)
    have f: "rec_fits k y" if "(k, y) \<in> set ?b" for k y
      using fits that by (auto simp: shard_batch_def list_all_iff)
    have "unat (clock v) + Suc (length ps) < 2 ^ 64"
      using room s(1) cl by (simp add: shards_room_def list_all_length n_shards_def)
    then have c: "unat (clock v) + Suc (length ?b) < 2 ^ 64"
      using len by simp
    obtain i where "i \<le> Suc (length ?b)" "clock w = clock v + of_nat i"
      using set_many_clock [OF x(1)] by blast
    then have "\<exists>i\<le>Suc (length ps). clock w = clock v + of_nat i"
      using len by (intro exI [of _ i]) simp
    with set_many_ok [OF v crc f c, where dur = d] show ?thesis
      by (cases x) (simp_all add: x mset_part_insert [OF s(2)])
  qed
  have "ss_step (Suc (length ps)) ss ss' \<and> (r = Inl Unavailable \<and> shards_ok crc xxh3 ss' (mset_part xxh3 ?n ps D m) \<or>
      (\<exists>resp. True \<and> shards_ok crc xxh3 ss' (?M resp) \<and>
      r = (case (case resp of Resp_done \<Rightarrow> Some () | _ \<Rightarrow> None) of Some a \<Rightarrow> Inr a
           | None \<Rightarrow> (case resp of Resp_err e \<Rightarrow> Inl (Storage e) | _ \<Rightarrow> Inl Unavailable))))"
    by (rule shard_op_ok [where M = ?M and Q = "\<lambda>_. True", OF ok s(1) ex body]) (auto simp: mset_part_other)
  then show ?thesis
  proof (elim conjE disjE exE)
    fix resp
    assume "ss_step (Suc (length ps)) ss ss'" "shards_ok crc xxh3 ss' (?M resp)" "r = (case (case resp of Resp_done \<Rightarrow> Some () | _ \<Rightarrow> None) of Some a \<Rightarrow> Inr a
           | None \<Rightarrow> (case resp of Resp_err e \<Rightarrow> Inl (Storage e) | _ \<Rightarrow> Inl Unavailable))"
    then show ?thesis
      by (cases resp) simp_all
  qed simp
qed

lemma mset_batches_ok:
  assumes "shards_ok crc xxh3 ss (mset_part xxh3 n ps D m)" and "crc_zero_ok crc" and "n = n_shards ss"
    and "list_all (\<lambda>(k, x). rec_fits k x) ps" and "shards_room (length xs * w) ss"
    and "distinct xs" and "set xs \<subseteq> {..<n}" and "set xs \<inter> D = {}"
    and "w = Suc (length ps)" and "mset_batches crc xxh3 ss (map (\<lambda>s. (s, shard_batch xxh3 n ps s)) xs) d = Some (r, ss')"
  shows "ss_step (length xs * w) ss ss' \<and>
    (\<exists>D'. D \<subseteq> D' \<and> D' \<subseteq> D \<union> set xs \<and> (r = Inr () \<longrightarrow> D' = D \<union> set xs) \<and> shards_ok crc xxh3 ss' (mset_part xxh3 n ps D' m))"
  using assms
proof (induction xs arbitrary: ss D)
  case Nil
  then show ?case
    by auto
next
  case (Cons s xs)
  let ?b = "shard_batch xxh3 n ps s"
  have s: "s < n_shards ss" "s \<notin> D"
    using Cons.prems(3,7,8) by auto
  show ?case
  proof (cases "?b = []")
    case True
    have "map_writes m ps k = m k" if "shard_for xxh3 k n = s" for k
      using map_writes_filter [of m "\<lambda>k. shard_for xxh3 k n = s" ps k] True that
      by (simp add: shard_batch_def map_writes_def)
    then have eq: "mset_part xxh3 n ps (insert s D) m = mset_part xxh3 n ps D m"
      by (auto simp: mset_part_def)
    have ok1: "shards_ok crc xxh3 ss (mset_part xxh3 n ps (insert s D) m)"
      using Cons.prems(1) by (simp add: eq)
    have room1: "shards_room (length xs * w) ss"
      by (rule shards_room_mono [OF Cons.prems(5)]) simp
    have "ss_step (length xs * w) ss ss' \<and> (\<exists>D'. insert s D \<subseteq> D' \<and> D' \<subseteq> insert s D \<union> set xs \<and>
        (r = Inr () \<longrightarrow> D' = insert s D \<union> set xs) \<and> shards_ok crc xxh3 ss' (mset_part xxh3 n ps D' m))"
      by (rule Cons.IH [OF ok1 Cons.prems(2,3,4) room1]) (use Cons.prems(6-10) True in auto)
    then show ?thesis
      using ss_step_mono [of "length xs * w" ss ss'] by auto
  next
    case False
    then obtain r1 ss1 where c: "expect (\<lambda>r. case r of Resp_done \<Rightarrow> Some () | _ \<Rightarrow> None)
        (shard_call crc xxh3 ss s (Req_set_many ?b d)) = Some (r1, ss1)"
      and rest: "case r1 of Inl e \<Rightarrow> r = Inl e \<and> ss' = ss1
        | Inr _ \<Rightarrow> mset_batches crc xxh3 ss1 (map (\<lambda>s. (s, shard_batch xxh3 n ps s)) xs) d = Some (r, ss')"
      using Cons.prems(10) by (auto split: option.splits sum.splits)
    have one: "ss_step w ss ss1 \<and>
        shards_ok crc xxh3 ss1 (mset_part xxh3 n ps (case r1 of Inr _ \<Rightarrow> insert s D | Inl _ \<Rightarrow> D) m)"
      using mset_batch_ok [of crc xxh3 ss ps D m s d r1 ss1] Cons.prems(1,2,3,4) s c
        shards_room_mono [OF Cons.prems(5), of w] Cons.prems(9) by simp
    show ?thesis
    proof (cases r1)
      case (Inl e)
      then show ?thesis
        using one rest by (auto intro!: exI [of _ D] elim: ss_step_mono)
    next
      case (Inr u)
      have n1: "n = n_shards ss1" and room1: "shards_room (length xs * w) ss1"
        using one Cons.prems(3) ss_step_room [OF conjunct1 [OF one], of "length xs * w"] Cons.prems(5)
        by (simp_all add: ss_step_def)
      have "ss_step (length xs * w) ss1 ss' \<and> (\<exists>D'. insert s D \<subseteq> D' \<and> D' \<subseteq> insert s D \<union> set xs \<and>
          (r = Inr () \<longrightarrow> D' = insert s D \<union> set xs) \<and> shards_ok crc xxh3 ss' (mset_part xxh3 n ps D' m))"
        by (rule Cons.IH) (use Cons.prems one n1 room1 rest Inr in auto)
      then show ?thesis
        using ss_step_trans [of w ss ss1] one by auto
    qed
  qed
qed

lemma shards_mset_ok:
  assumes ok: "shards_ok crc xxh3 ss m" and crc: "crc_zero_ok crc" and fits: "list_all (\<lambda>(k, x). rec_fits k x) ps"
    and room: "shards_room (n_shards ss * Suc (length ps)) ss" and ex: "shards_mset crc xxh3 ss ps d = Some (r, ss')"
  shows "ss_step (n_shards ss * Suc (length ps)) ss ss' \<and>
    (\<exists>m'. shards_ok crc xxh3 ss' m' \<and> (\<forall>k. m' k = m k \<or> m' k = map_writes m ps k) \<and> (r = Inr () \<longrightarrow> m' = map_writes m ps))"
proof -
  let ?n = "n_shards ss"
  have e: "mset_part xxh3 ?n ps {} m = m"
    by (simp add: mset_part_def)
  have f: "mset_part xxh3 ?n ps {0..<?n} m = map_writes m ps"
    using shard_for_less [OF ok] by (auto simp: mset_part_def)
  have "ss_step (length [0..<?n] * Suc (length ps)) ss ss' \<and> (\<exists>D'. {} \<subseteq> D' \<and> D' \<subseteq> {} \<union> set [0..<?n] \<and>
      (r = Inr () \<longrightarrow> D' = {} \<union> set [0..<?n]) \<and> shards_ok crc xxh3 ss' (mset_part xxh3 ?n ps D' m))"
    by (rule mset_batches_ok [where d = d]) (use assms e in \<open>auto simp: shards_mset_def\<close>)
  then obtain D' where "ss_step (?n * Suc (length ps)) ss ss'" "r = Inr () \<longrightarrow> D' = {0..<?n}"
    "shards_ok crc xxh3 ss' (mset_part xxh3 ?n ps D' m)"
    by auto
  then show ?thesis
    using f by (intro conjI exI [of _ "mset_part xxh3 ?n ps D' m"]) (auto simp: mset_part_def)
qed

subsection \<open>Erasure\<close>

lemma store_ok_keys:
  assumes "store_ok crc xxh3 v m"
  shows "set (vlog_keys v) = dom m" "distinct (vlog_keys v)"
proof -
  have a: "agree xxh3 (vlog_log crc v) (vl_index v) m" and d: "distinct (map fst (vl_index v))"
    using assms by (simp_all add: store_ok_def index_ok_def)
  have "index_get (vl_index v) k = None \<longleftrightarrow> m k = None" for k
    using a [unfolded agree_def, rule_format, of k] by (auto simp: key_ok_def split: option.splits)
  then have "dom (map_of (vl_index v)) = dom m"
    by (auto simp: dom_def index_get_def)
  then show "set (vlog_keys v) = dom m"
    by (simp add: vlog_keys_def index_iter_def dom_map_of_conv_image_fst)
  show "distinct (vlog_keys v)"
    using d by (simp add: vlog_keys_def index_iter_def)
qed

lemma padded_mono: "x \<le> y \<Longrightarrow> padded_record_size k x \<le> padded_record_size k y"
  by (simp add: padded_record_size_def Let_def minus_mod_eq_mult_div div_le_mono)

lemma store_ok_key_fits:
  assumes "store_ok crc xxh3 v m" and "k \<in> dom m"
  shows "rec_fits k []"
proof -
  have "key_ok xxh3 (vlog_log crc v) k (index_get (vl_index v) k) (m k)"
    using assms(1) by (simp add: store_ok_def agree_def)
  then obtain r where r: "newest (keylog k (vlog_log crc v)) r" "record_size r < 2 ^ 32"
    using assms(2) by (auto simp: key_ok_def located_def split: option.splits)
  then have "rec_key r = k"
    using newest_in set_keylog by metis
  then show ?thesis
    using r(2) padded_mono [of 0 "length (rec_value r)" "length k"] by (simp add: rec_fits_def record_size_def)
qed

text \<open>Deleting keys one by one: on success all of them are gone, and in any case no other key changes.\<close>

lemma del_all_ok:
  assumes "store_ok crc xxh3 v m" and "crc_zero_ok crc" and "unat (clock v) + length ks < 2 ^ 64"
    and "list_all (\<lambda>k. rec_fits k []) ks" and "distinct ks" and "set ks \<subseteq> dom m"
    and "del_all crc v ks d = (rs, w)"
  shows "\<exists>E\<subseteq>set ks. store_ok crc xxh3 w (m |` (- E)) \<and> (\<exists>i\<le>length ks. clock w = clock v + of_nat i) \<and>
    (case count_erased rs of Inr n \<Rightarrow> E = set ks \<and> n = length ks | Inl _ \<Rightarrow> True)"
  using assms
proof (induction ks arbitrary: v m rs)
  case Nil
  then show ?case
    by (auto simp: restrict_map_def intro!: exI [of _ "{}"])
next
  case (Cons k ks)
  obtain r u rs' where k: "vlog_del crc v k d = (r, u)" and ks: "del_all crc u ks d = (rs', w)" and rs: "rs = r # rs'"
    using Cons.prems(7) by (auto simp: Let_def split: prod.splits)
  have cv: "clock v \<noteq> - 1"
    using Cons.prems(3) unat_max_u64 by auto
  obtain i where i: "i \<le> 1" "clock u = clock v + of_nat i"
    using clock_one [OF vlog_del_clock [OF k]] by blast
  have room: "unat (clock u) + length ks < 2 ^ 64"
    using unat_add_room [of "clock v" 1 "length ks" i] Cons.prems(3) i by simp
  define m1 where "m1 = (case r of Inr _ \<Rightarrow> m(k := None) | Inl _ \<Rightarrow> m)"
  have u: "store_ok crc xxh3 u m1" and b: "\<And>b. r = Inr b \<Longrightarrow> b"
    using vlog_del_ok [OF Cons.prems(1,2) cv, of k d] Cons.prems(4,6) by (auto simp: k m1_def split: sum.splits)
  have "set ks \<subseteq> dom m1"
    using Cons.prems(5,6) by (auto simp: m1_def split: sum.splits)
  then obtain E j where E: "E \<subseteq> set ks" "store_ok crc xxh3 w (m1 |` (- E))" "j \<le> length ks" "clock w = clock u + of_nat j"
    "case count_erased rs' of Inr n \<Rightarrow> E = set ks \<and> n = length ks | Inl _ \<Rightarrow> True"
    using Cons.IH [OF u Cons.prems(2) room _ _ _ ks] Cons.prems(4,5) by auto
  define E' where "E' = (case r of Inr _ \<Rightarrow> insert k E | Inl _ \<Rightarrow> E)"
  have "m1 |` (- E) = m |` (- E')"
    by (auto simp: m1_def E'_def restrict_map_def split: sum.splits)
  moreover have "clock w = clock v + of_nat (i + j)" "i + j \<le> length (k # ks)"
    using i E(3,4) by simp_all
  moreover have "case count_erased rs of Inr n \<Rightarrow> E' = set (k # ks) \<and> n = length (k # ks) | Inl _ \<Rightarrow> True"
    using E(5) b by (auto simp: rs E'_def and_then_def split: sum.splits)
  ultimately show ?case
    using E(1,2) by (intro exI [of _ E']) (auto simp: E'_def split: sum.splits)
qed

lemma sweep_prefix_ok:
  assumes ok: "store_ok crc xxh3 v m" and crc: "crc_zero_ok crc" and room: "unat (clock v) + vlog_len v < 2 ^ 64"
    and ex: "sweep_prefix crc v p d = (r, w)"
  defines "V \<equiv> {k \<in> dom m. starts_with p k}"
  shows "\<exists>E\<subseteq>V. store_ok crc xxh3 w (m |` (- E)) \<and> (\<exists>i\<le>vlog_len v. clock w = clock v + of_nat i) \<and>
    (case r of Inr n \<Rightarrow> E = V \<and> n = card V | Inl _ \<Rightarrow> True)"
proof -
  let ?ks = "filter (starts_with p) (vlog_keys v)"
  obtain rs where d: "del_all crc v ?ks d = (rs, w)" "r = count_erased rs"
    using ex by (auto simp: sweep_prefix_def Let_def split: prod.splits)
  have len: "length ?ks \<le> vlog_len v"
    using length_filter_le [of "starts_with p" "vlog_keys v"]
    by (simp add: vlog_len_def vlog_keys_def index_len_def index_iter_def)
  have ks: "set ?ks = V" "distinct ?ks"
    using store_ok_keys [OF ok] by (auto simp: V_def)
  have "unat (clock v) + length ?ks < 2 ^ 64" "list_all (\<lambda>k. rec_fits k []) ?ks" "set ?ks \<subseteq> dom m"
    using room len ks store_ok_key_fits [OF ok] by (auto simp: V_def list_all_iff)
  then obtain E i where E: "E \<subseteq> set ?ks" "store_ok crc xxh3 w (m |` (- E))" "i \<le> length ?ks" "clock w = clock v + of_nat i"
    "case count_erased rs of Inr n \<Rightarrow> E = set ?ks \<and> n = length ?ks | Inl _ \<Rightarrow> True"
    using del_all_ok [OF ok crc _ _ ks(2) _ d(1)] by blast
  have "length ?ks = card V"
    using distinct_card [OF ks(2)] ks(1) by simp
  then show ?thesis
    using E len ks(1) d(2) by (intro exI [of _ E]) (auto intro: exI [of _ i] le_trans split: sum.splits)
qed

text \<open>The keys of one shard under a prefix, and room to delete every key of a shard.\<close>

definition victims :: "(bytes \<Rightarrow> u64) \<Rightarrow> nat \<Rightarrow> bytes \<Rightarrow> (bytes \<Rightarrow> bytes option) \<Rightarrow> nat set \<Rightarrow> bytes set" where
  "victims xxh3 n p m D = {k \<in> dom m. starts_with p k \<and> shard_for xxh3 k n \<in> D}"

definition erase_room :: "shard_set \<Rightarrow> nat \<Rightarrow> bool" where
  "erase_room ss s \<longleftrightarrow> unat (clock (ss_shards ss ! s)) + vlog_len (ss_shards ss ! s) < 2 ^ 64"

lemma erase_call_ok:
  assumes ok: "shards_ok crc xxh3 ss m" and crc: "crc_zero_ok crc" and s: "s < n_shards ss" and room: "erase_room ss s"
    and t: "t \<noteq> 0" and ex: "expect (\<lambda>r. case r of Resp_erased _ k \<Rightarrow> Some k | _ \<Rightarrow> None)
      (shard_call crc xxh3 ss s (Req_erase_prefix t subject d)) = Some (r, ss')"
  defines "V \<equiv> victims xxh3 (n_shards ss) (u128_to_le t @ subject) m {s}"
  shows "n_shards ss' = n_shards ss \<and> (\<forall>i. i \<noteq> s \<longrightarrow> ss_shards ss' ! i = ss_shards ss ! i) \<and>
    (\<exists>E\<subseteq>V. shards_ok crc xxh3 ss' (m |` (- E)) \<and> (case r of Inr n \<Rightarrow> E = V \<and> n = card V | Inl _ \<Rightarrow> True))"
proof (cases "s \<in> set (ss_down ss)")
  case True
  then show ?thesis
    using ex ok by (auto simp: shard_call_def expect_def restrict_map_def intro!: exI [of _ "{}"])
next
  case up: False
  let ?v = "(ss_shards ss ! s)\<lparr>tenant_disk := ss_disk ss\<rparr>" let ?p = "u128_to_le t @ subject"
  let ?m = "shard_part xxh3 (n_shards ss) s m"
  have v: "store_ok crc xxh3 ?v ?m"
    using ok s by (simp add: shards_ok_def)
  show ?thesis
  proof (cases "ss_read_only ss")
    case True
    then have "\<exists>e. r = Inl e" "ss' = ss\<lparr>ss_shards := (ss_shards ss)[s := ?v], ss_disk := tenant_disk ?v\<rparr>"
      using ex up by (auto simp: shard_call_def expect_def process_def)
    then show ?thesis
      using shards_ok_update [OF ok s v, where d = "ss_disk ss"] by (auto simp: n_shards_def restrict_map_def intro!: exI [of _ "{}"])
  next
    case False
    obtain x w where x: "sweep_prefix crc ?v ?p d = (x, w)"
      by force
    have r: "r = (case x of Inl e \<Rightarrow> Inl (Storage e) | Inr n \<Rightarrow> Inr n)"
      "ss' = ss\<lparr>ss_shards := (ss_shards ss)[s := w], ss_disk := tenant_disk w\<rparr>"
      using ex up False t x by (simp_all add: shard_call_def expect_def process_def split: sum.splits)
    have V: "{k \<in> dom ?m. starts_with ?p k} = V"
      by (auto simp: V_def victims_def shard_part_def split: if_splits)
    have "unat (clock ?v) + vlog_len ?v < 2 ^ 64"
      using room by (simp add: erase_room_def vlog_len_def)
    from sweep_prefix_ok [OF v crc this x] obtain E where E: "E \<subseteq> V" "store_ok crc xxh3 w (?m |` (- E))"
      "case x of Inr n \<Rightarrow> E = V \<and> n = card V | Inl _ \<Rightarrow> True"
      unfolding V by blast
    have "?m |` (- E) = shard_part xxh3 (n_shards ss) s (m |` (- E))"
      by (auto simp: shard_part_def restrict_map_def)
    moreover have "(m |` (- E)) k = m k" if "shard_for xxh3 k (n_shards ss) \<noteq> s" for k
      using E(1) that by (auto simp: V_def victims_def restrict_map_def)
    ultimately have "shards_ok crc xxh3 ss' (m |` (- E))"
      using shards_ok_update [OF ok s, of w "m |` (- E)"] E(2) by (simp add: r(2))
    then show ?thesis
      using E by (auto simp: r n_shards_def intro!: exI [of _ E] split: sum.splits)
  qed
qed

lemma erase_shards_ok:
  assumes "shards_ok crc xxh3 ss m" and "crc_zero_ok crc" and "t \<noteq> 0" and "distinct xs" and "set xs \<subseteq> {..<n_shards ss}"
    and "list_all (erase_room ss) xs" and "finite (dom m)"
    and "sum_shards crc xxh3 (Req_erase_prefix t subject d) (\<lambda>r. case r of Resp_erased _ k \<Rightarrow> Some k | _ \<Rightarrow> None) ss xs = Some (r, ss')"
  shows "\<exists>E\<subseteq>victims xxh3 (n_shards ss) (u128_to_le t @ subject) m (set xs). shards_ok crc xxh3 ss' (m |` (- E)) \<and>
    (case r of Inr n \<Rightarrow> E = victims xxh3 (n_shards ss) (u128_to_le t @ subject) m (set xs) \<and> n = card E | Inl _ \<Rightarrow> True)"
  using assms
proof (induction xs arbitrary: ss m r)
  case Nil
  then show ?case
    by (auto simp: victims_def restrict_map_def)
next
  case (Cons s xs)
  let ?pick = "\<lambda>r. case r of Resp_erased _ k \<Rightarrow> Some k | _ \<Rightarrow> None"
  let ?p = "u128_to_le t @ subject"
  let ?V1 = "victims xxh3 (n_shards ss) ?p m {s}" let ?V2 = "victims xxh3 (n_shards ss) ?p m (set xs)"
  have V: "victims xxh3 (n_shards ss) ?p m (set (s # xs)) = ?V1 \<union> ?V2" "?V1 \<inter> ?V2 = {}" "finite ?V1" "finite ?V2"
    using Cons.prems(4,7) by (auto simp: victims_def)
  obtain r1 ss1 where c: "expect ?pick (shard_call crc xxh3 ss s (Req_erase_prefix t subject d)) = Some (r1, ss1)"
    and rest: "case r1 of Inl e \<Rightarrow> r = Inl e \<and> ss' = ss1
      | Inr n \<Rightarrow> map_option (map_prod (map_sum id ((+) n)) id) (sum_shards crc xxh3 (Req_erase_prefix t subject d) ?pick ss1 xs) = Some (r, ss')"
    using Cons.prems(8) by (auto split: option.splits sum.splits)
  have s: "s < n_shards ss" "erase_room ss s"
    using Cons.prems(5,6) by auto
  from erase_call_ok [OF Cons.prems(1,2) s Cons.prems(3) c]
  obtain E1 where ss1: "n_shards ss1 = n_shards ss" "\<forall>i. i \<noteq> s \<longrightarrow> ss_shards ss1 ! i = ss_shards ss ! i"
    and E1: "E1 \<subseteq> ?V1" "shards_ok crc xxh3 ss1 (m |` (- E1))" "case r1 of Inr n \<Rightarrow> E1 = ?V1 \<and> n = card ?V1 | Inl _ \<Rightarrow> True"
    by auto
  show ?case
  proof (cases r1)
    case (Inl e)
    then show ?thesis
      using rest E1 unfolding V(1) by (intro exI [of _ E1]) auto
  next
    case (Inr n)
    then obtain r2 where r2: "sum_shards crc xxh3 (Req_erase_prefix t subject d) ?pick ss1 xs = Some (r2, ss')" "r = map_sum id ((+) n) r2"
      using rest by auto
    have V2: "victims xxh3 (n_shards ss) ?p (m |` (- E1)) (set xs) = ?V2"
      using E1(1) Cons.prems(4) ss1(1) by (auto simp: victims_def restrict_map_def split: if_splits)
    have "list_all (erase_room ss1) xs"
      using Cons.prems(4,6) ss1(2) by (auto simp: list_all_iff erase_room_def)
    moreover have "finite (dom (m |` (- E1)))"
      using Cons.prems(7) by simp
    ultimately obtain E2 where E2: "E2 \<subseteq> ?V2" "shards_ok crc xxh3 ss' ((m |` (- E1)) |` (- E2))"
      "case r2 of Inr n \<Rightarrow> E2 = ?V2 \<and> n = card ?V2 | Inl _ \<Rightarrow> True"
      using Cons.IH [OF E1(2) Cons.prems(2,3) _ _ _ _ r2(1)] Cons.prems(4,5) unfolding ss1(1) V2
      by (cases r2) auto
    have "(m |` (- E1)) |` (- E2) = m |` (- (E1 \<union> E2))"
      by (auto simp: restrict_map_def)
    then show ?thesis
      using E1 E2 V card_Un_disjoint [OF V(3,4,2)] Inr r2(2)
      by (intro exI [of _ "E1 \<union> E2"]) (auto simp: V(1) split: sum.splits)
  qed
qed

lemma shards_erase_prefix_ok:
  assumes "shards_ok crc xxh3 ss m" and "crc_zero_ok crc" and "list_all (erase_room ss) [0..<n_shards ss]" and "finite (dom m)"
    and "shards_erase_prefix crc xxh3 ss t subject d = Some (r, ss')"
  defines "V \<equiv> {k \<in> dom m. starts_with (u128_to_le t @ subject) k}"
  shows "\<exists>E\<subseteq>V. shards_ok crc xxh3 ss' (m |` (- E)) \<and> (case r of Inr n \<Rightarrow> t \<noteq> 0 \<and> E = V \<and> n = card V | Inl _ \<Rightarrow> True)"
proof (cases "t = 0")
  case True
  then show ?thesis
    using assms by (auto simp: shards_erase_prefix_def restrict_map_def intro!: exI [of _ "{}"])
next
  case False
  have V: "victims xxh3 (n_shards ss) (u128_to_le t @ subject) m (set [0..<n_shards ss]) = V"
    using shard_for_less [OF assms(1)] by (auto simp: victims_def V_def)
  have "sum_shards crc xxh3 (Req_erase_prefix t subject d) (\<lambda>r. case r of Resp_erased _ k \<Rightarrow> Some k | _ \<Rightarrow> None) ss [0..<n_shards ss] = Some (r, ss')"
    using assms(5) False by (simp add: shards_erase_prefix_def)
  from erase_shards_ok [OF assms(1,2) False distinct_upt _ assms(3,4) this] False show ?thesis
    unfolding V by (cases r) (auto simp: atLeast0LessThan)
qed

subsection \<open>An empty server\<close>

lemma open_shards_empty:
  assumes crc: "crc_zero_ok crc" and seg: "seg < 2 ^ 32"
  shows "\<exists>vs disk'. open_shards crc xxh3 seg (replicate n empty_dir) disk = Inr (vs, disk') \<and> length vs = n \<and>
    (\<forall>v\<in>set vs. store_ok crc xxh3 v Map.empty \<and> clock v = 1)"
proof (induction n arbitrary: disk)
  case (Suc n)
  obtain v where v: "open_shared crc xxh3 empty_dir seg disk = Inr v" "store_ok crc xxh3 v Map.empty" "clock v = 1"
    using open_empty_ok [OF crc seg] by metis
  with Suc [of "tenant_disk v"] show ?case
    by auto
qed simp

lemma shards_open_empty:
  assumes "crc_zero_ok crc" and "seg < 2 ^ 32" and "0 < n"
  obtains ss where "shards_open crc xxh3 seg (replicate n empty_dir) ro = Inr ss"
    and "shards_ok crc xxh3 ss Map.empty" and "n_shards ss = n" and "\<And>k. 1 + k < 2 ^ 64 \<Longrightarrow> shards_room k ss"
proof -
  obtain vs disk where vs: "open_shards crc xxh3 seg (replicate n empty_dir) [] = Inr (vs, disk)" "length vs = n"
    "\<forall>v\<in>set vs. store_ok crc xxh3 v Map.empty \<and> clock v = 1"
    using open_shards_empty [OF assms(1,2)] by blast
  let ?ss = "\<lparr>ss_shards = vs, ss_disk = disk, ss_read_only = ro, ss_down = []\<rparr>"
  have "shard_part xxh3 n i Map.empty = Map.empty" for i
    by (simp add: shard_part_def fun_eq_iff)
  then have "shards_ok crc xxh3 ?ss Map.empty"
    using vs(2,3) assms(3) by (auto simp: shards_ok_def n_shards_def)
  then show thesis
    using vs by (intro that [of ?ss]) (auto simp: shards_open_def n_shards_def shards_room_def list_all_iff)
qed

subsection \<open>Multi-get over shards\<close>

lemma mget_items_ok:
  assumes "store_ok crc xxh3 v m" and "mget_items crc xxh3 v items t = Some (r, w)"
  shows "store_ok crc xxh3 w m \<and> clock w = clock v \<and> r = Inr (map (\<lambda>(i, k). (i, m k)) items)"
  using assms
proof (induction items arbitrary: v r)
  case (Cons x items)
  obtain i k where x: "x = (i, k)"
    by force
  obtain a v1 where g: "get_scoped crc xxh3 v k t = Some (a, v1)"
    using Cons.prems(2) by (auto simp: x split: option.splits)
  have a: "a = Inr (m k)" "store_ok crc xxh3 v1 m"
    using get_scoped_ok [OF Cons.prems(1), of k t] g by auto
  obtain b where b: "mget_items crc xxh3 v1 items t = Some (b, w)"
    using Cons.prems(2) by (auto simp: x g a split: option.splits sum.splits)
  show ?case
    using Cons.IH [OF a(2) b] get_scoped_clock [OF g] Cons.prems(2) by (simp add: x g a b)
qed simp

lemma mget_bucket_call:
  assumes ok: "shards_ok crc xxh3 ss m" and s: "s < n_shards ss" and keys: "\<forall>(i, k)\<in>set items. shard_for xxh3 k (n_shards ss) = s"
    and ex: "expect (\<lambda>r. case r of Resp_mget_batch items \<Rightarrow> Some items | _ \<Rightarrow> None)
      (shard_call crc xxh3 ss s (Req_mget_batch items t)) = Some (r, ss')"
  shows "ss_step 0 ss ss' \<and> shards_ok crc xxh3 ss' m \<and> (r = Inl Unavailable \<or> r = Inr (map (\<lambda>(i, k). (i, m k)) items))"
proof -
  let ?Q = "\<lambda>resp. resp = Resp_mget_batch (map (\<lambda>(i, k). (i, m k)) items)"
  have part: "map (\<lambda>(i, k). (i, shard_part xxh3 (n_shards ss) s m k)) items = map (\<lambda>(i, k). (i, m k)) items"
    using keys by (auto simp: shard_part_def)
  have body: "store_ok crc xxh3 w (shard_part xxh3 (n_shards ss) s m) \<and> (\<exists>i\<le>0. clock w = clock v + of_nat i) \<and> ?Q resp"
    if v: "store_ok crc xxh3 v (shard_part xxh3 (n_shards ss) s m)"
      and p: "process_kv crc xxh3 v (Req_mget_batch items t) = Some (resp, w)" for v resp w
  proof -
    obtain x where x: "mget_items crc xxh3 v items t = Some (x, w)" "resp = (case x of Inl e \<Rightarrow> Resp_err (error_text e) | Inr rs \<Rightarrow> Resp_mget_batch rs)"
      using p by (auto simp: reply_def)
    show ?thesis
      using mget_items_ok [OF v x(1)] by (simp add: x part)
  qed
  show ?thesis
    using shard_op_ok [where M = "\<lambda>_. m" and Q = ?Q and j = 0, OF ok s ex body] by auto
qed

lemma place_values_nth:
  assumes "distinct (map fst items)" and "i < length r"
  shows "place_values r items ! i = (case map_of items i of Some x \<Rightarrow> x | None \<Rightarrow> r ! i)"
  using assms
proof (induction items arbitrary: r)
  case (Cons x items)
  obtain j y where x: "x = (j, y)"
    by force
  have "map_of items j = None"
    using Cons.prems(1) by (auto simp: x map_of_eq_None_iff)
  then show ?case
    using Cons.IH [of "r[j := y]"] Cons.prems by (auto simp: x place_values_def nth_list_update split: option.splits)
qed (simp add: place_values_def)

lemma length_place_values [simp]: "length (place_values r items) = length r"
  by (induction items arbitrary: r) (auto simp: place_values_def split: prod.splits)

text \<open>The answer once the shards in \<open>D\<close> have been asked.\<close>

definition mget_part :: "(bytes \<Rightarrow> u64) \<Rightarrow> nat \<Rightarrow> (bytes \<Rightarrow> bytes option) \<Rightarrow> bytes list \<Rightarrow> nat set \<Rightarrow> bytes option list" where
  "mget_part xxh3 n m keys D = map (\<lambda>k. if shard_for xxh3 k n \<in> D then m k else None) keys"

lemma map_of_bucket:
  "i < length keys \<Longrightarrow> map_of (map (\<lambda>(i, k). (i, m k)) (mget_bucket xxh3 n keys s)) i =
    (if shard_for xxh3 (keys ! i) n = s then Some (m (keys ! i)) else None)"
proof -
  assume i: "i < length keys"
  have d: "distinct (map fst (map (\<lambda>(i, k). (i, m k)) (mget_bucket xxh3 n keys s)))"
    unfolding mget_bucket_def by (simp add: case_prod_unfold comp_def distinct_map_filter)
  have mem: "(i, x) \<in> set (map (\<lambda>(i, k). (i, m k)) (mget_bucket xxh3 n keys s)) \<longleftrightarrow> shard_for xxh3 (keys ! i) n = s \<and> x = m (keys ! i)" for x
    using i by (force simp: mget_bucket_def in_set_enumerate_eq)
  show ?thesis
  proof (cases "shard_for xxh3 (keys ! i) n = s")
    case True
    then show ?thesis
      using map_of_is_SomeI [OF d] mem by auto
  next
    case False
    then show ?thesis
      using mem map_of_SomeD [of "map (\<lambda>(i, k). (i, m k)) (mget_bucket xxh3 n keys s)" i]
      by (metis not_None_eq)
  qed
qed

lemma place_bucket:
  "place_values (mget_part xxh3 n m keys D) (map (\<lambda>(i, k). (i, m k)) (mget_bucket xxh3 n keys s)) = mget_part xxh3 n m keys (insert s D)"
proof (rule nth_equalityI)
  fix i
  assume "i < length (place_values (mget_part xxh3 n m keys D) (map (\<lambda>(i, k). (i, m k)) (mget_bucket xxh3 n keys s)))"
  then have i: "i < length keys"
    by (simp add: mget_part_def)
  have d: "distinct (map fst (map (\<lambda>(i, k). (i, m k)) (mget_bucket xxh3 n keys s)))"
    unfolding mget_bucket_def by (simp add: case_prod_unfold comp_def distinct_map_filter)
  show "place_values (mget_part xxh3 n m keys D) (map (\<lambda>(i, k). (i, m k)) (mget_bucket xxh3 n keys s)) ! i = mget_part xxh3 n m keys (insert s D) ! i"
    using place_values_nth [OF d, of i "mget_part xxh3 n m keys D"] i by (simp add: map_of_bucket) (simp add: mget_part_def)
qed (simp add: mget_part_def)

lemma mget_buckets_ok:
  assumes "shards_ok crc xxh3 ss m" and "n_shards ss = n" and "\<forall>s\<in>set shards. s < n"
    and "mget_buckets crc xxh3 ss (map (\<lambda>s. (s, mget_bucket xxh3 n keys s)) shards) t (mget_part xxh3 n m keys D) = Some (r, ss')"
  shows "ss_step 0 ss ss' \<and> shards_ok crc xxh3 ss' m \<and> (r = Inl Unavailable \<or> r = Inr (mget_part xxh3 n m keys (D \<union> set shards)))"
  using assms
proof (induction shards arbitrary: ss D)
  case (Cons s shards)
  let ?b = "mget_bucket xxh3 n keys s"
  show ?case
  proof (cases "?b = []")
    case True
    have "mget_part xxh3 n m keys D = mget_part xxh3 n m keys (insert s D)"
      using place_bucket [of xxh3 n m keys D s] by (simp add: True place_values_def)
    then show ?thesis
      using Cons.IH [OF Cons.prems(1,2), of "insert s D"] Cons.prems(3,4) by (simp add: True)
  next
    case False
    obtain r1 s1 where e: "expect (\<lambda>r. case r of Resp_mget_batch items \<Rightarrow> Some items | _ \<Rightarrow> None)
        (shard_call crc xxh3 ss s (Req_mget_batch ?b t)) = Some (r1, s1)"
      using Cons.prems(4) False by (auto split: option.splits)
    have "\<forall>(i, k)\<in>set ?b. shard_for xxh3 k (n_shards ss) = s"
      by (auto simp: mget_bucket_def Cons.prems(2))
    from mget_bucket_call [OF Cons.prems(1) _ this e] Cons.prems(2,3)
    have c: "ss_step 0 ss s1" "shards_ok crc xxh3 s1 m" "r1 = Inl Unavailable \<or> r1 = Inr (map (\<lambda>(i, k). (i, m k)) ?b)"
      by auto
    show ?thesis
    proof (cases r1)
      case (Inl x)
      then show ?thesis
        using c Cons.prems(4) False e by auto
    next
      case (Inr items)
      then have "mget_buckets crc xxh3 s1 (map (\<lambda>s. (s, mget_bucket xxh3 n keys s)) shards) t (mget_part xxh3 n m keys (insert s D)) = Some (r, ss')"
        using Cons.prems(4) False e c(3) by (simp add: place_bucket)
      from Cons.IH [OF c(2) _ _ this] c(1) Cons.prems(2,3) ss_step_trans [of 0 ss s1 0 ss'] show ?thesis
        by (auto simp: ss_step_def)
    qed
  qed
qed simp

lemma shards_mget_ok:
  assumes ok: "shards_ok crc xxh3 ss m" and ex: "shards_mget crc xxh3 ss keys t = Some (r, ss')"
  shows "ss_step 0 ss ss' \<and> shards_ok crc xxh3 ss' m \<and> (r = Inr (map m keys) \<or> r = Inl Unavailable)"
proof -
  have "replicate (length keys) None = mget_part xxh3 (n_shards ss) m keys {}"
    by (simp add: mget_part_def map_replicate_const)
  moreover have "mget_part xxh3 (n_shards ss) m keys (set [0..<n_shards ss]) = map m keys"
    using shard_for_less [OF ok] by (simp add: mget_part_def)
  ultimately show ?thesis
    using mget_buckets_ok [OF ok refl, of "[0..<n_shards ss]" keys t "{}" r ss'] ex by (auto simp: shards_mget_def)
qed

end
