(* ===== verification/Tenant_Auth.thy ===== *)
theory Tenant_Auth
  imports Tenant
begin

text \<open>
  The durable user table \<open>auth.kdb\<close> (\<open>skeg-tenant/auth/store.rs\<close>), password verification
  (\<open>auth/password.rs\<close>), bearer tokens (\<open>auth/token.rs\<close>), the quota sidecar (\<open>limits.rs\<close>) and the
  backend the server sees (\<open>skeg-server-tenant/lib.rs\<close>). CRC-32C, the Argon2 verifier and HMAC-SHA256
  are parameters. Strings are byte strings; a value of Rust's \<open>String\<close> is valid UTF-8.
\<close>

subsection \<open>Passwords\<close>

datatype password_error = BadParams | HashFailed | VerifyFailed | MalformedHash

text \<open>\<open>phc\<close> says whether a stored string is a PHC hash, \<open>argon\<close> whether a password matches it.\<close>

definition verify_password :: "(bytes \<Rightarrow> bool) \<Rightarrow> (bytes \<Rightarrow> bytes \<Rightarrow> bool) \<Rightarrow> bytes \<Rightarrow> bytes \<Rightarrow> password_error + unit" where
  "verify_password phc argon password stored =
    (if \<not> phc stored then Inl MalformedHash
     else if argon password stored then Inr () else Inl VerifyFailed)"

subsection \<open>The user table\<close>

record auth_record =
  ar_tenant :: tenant_id
  ar_hash :: bytes

type_synonym auth_store = "(bytes \<times> auth_record) list"

datatype store_error =
    StoreIo
  | BadMagic
  | BadVersion u32
  | StoreTruncated nat
  | BadCrc nat
  | DuplicateUser bytes

definition AUTH_MAGIC :: bytes where
  "AUTH_MAGIC = lit ''SKEGAUTH''"

definition AUTH_VERSION :: u32 where
  "AUTH_VERSION = 1"

definition auth_body :: "bytes \<Rightarrow> auth_record \<Rightarrow> bytes" where
  "auth_body user rec =
    tenant_as_bytes (ar_tenant rec) @ u32_to_le (of_nat (length user)) @
    u32_to_le (of_nat (length (ar_hash rec))) @ user @ ar_hash rec"

definition encode_auth_record :: "(bytes \<Rightarrow> u32) \<Rightarrow> bytes \<times> auth_record \<Rightarrow> bytes" where
  "encode_auth_record crc32c = (\<lambda>(user, rec).
    if length user \<ge> 2 ^ 32 \<or> length (ar_hash rec) \<ge> 2 ^ 32 then []
    else u32_to_le (crc32c (auth_body user rec)) @ auth_body user rec)"

definition auth_encode :: "(bytes \<Rightarrow> u32) \<Rightarrow> auth_store \<Rightarrow> bytes" where
  "auth_encode crc32c m =
    AUTH_MAGIC @ u32_to_le AUTH_VERSION @
    u32_to_le (if length m < 2 ^ 32 then of_nat (length m) else - 1) @
    concat (map (encode_auth_record crc32c) m)"

definition parse_auth_record :: "(bytes \<Rightarrow> u32) \<Rightarrow> bytes \<Rightarrow> nat \<Rightarrow> nat \<Rightarrow> store_error + (bytes \<times> auth_record) \<times> nat" where
  "parse_auth_record crc32c bs idx off =
    (if off + 4 + 16 + 4 + 4 > length bs then Inl (StoreTruncated off)
     else
       let crc_stored = u32_from_le (bslice off (off + 4) bs);
           body_start = off + 4;
           tid = bslice (off + 4) (off + 20) bs;
           user_len = unat (u32_from_le (bslice (off + 20) (off + 24) bs));
           hash_len = unat (u32_from_le (bslice (off + 24) (off + 28) bs));
           o1 = off + 28 in
       if o1 + user_len + hash_len > length bs then Inl (StoreTruncated o1)
       else and_then (ok_or (from_utf8 (bslice o1 (o1 + user_len) bs)) (StoreTruncated o1)) (\<lambda>user.
         let o2 = o1 + user_len in
         and_then (ok_or (from_utf8 (bslice o2 (o2 + hash_len) bs)) (StoreTruncated o2)) (\<lambda>hash.
         let o3 = o2 + hash_len in
         if crc32c (bslice body_start o3 bs) \<noteq> crc_stored then Inl (BadCrc idx)
         else Inr ((user, \<lparr>ar_tenant = tenant_from_bytes tid, ar_hash = hash\<rparr>), o3))))"

fun parse_auth_records :: "(bytes \<Rightarrow> u32) \<Rightarrow> bytes \<Rightarrow> nat \<Rightarrow> nat \<Rightarrow> nat \<Rightarrow> auth_store \<Rightarrow> store_error + auth_store" where
  "parse_auth_records crc32c bs idx 0 off m = Inr m"
| "parse_auth_records crc32c bs idx (Suc n) off m =
    and_then (parse_auth_record crc32c bs idx off) (\<lambda>((user, rec), off').
      parse_auth_records crc32c bs (Suc idx) n off' (AList.update user rec m))"

definition parse_into :: "(bytes \<Rightarrow> u32) \<Rightarrow> auth_store \<Rightarrow> bytes \<Rightarrow> store_error + auth_store" where
  "parse_into crc32c m bs =
    (if length bs < 16 \<or> bslice 0 8 bs \<noteq> AUTH_MAGIC then Inl BadMagic
     else let version = u32_from_le (bslice 8 12 bs) in
       if version \<noteq> AUTH_VERSION then Inl (BadVersion version)
       else parse_auth_records crc32c bs 0 (unat (u32_from_le (bslice 12 16 bs))) 16 m)"

text \<open>The file and its \<open>.tmp\<close> sibling; \<open>read_ok\<close> is whether reading an existing file succeeds.\<close>

record auth_files =
  af_main :: "bytes option"
  af_tmp :: "bytes option"

definition auth_open :: "(bytes \<Rightarrow> u32) \<Rightarrow> bool \<Rightarrow> auth_files \<Rightarrow> store_error + auth_store" where
  "auth_open crc32c read_ok fs =
    (case af_main fs of
       None \<Rightarrow> Inr []
     | Some bs \<Rightarrow> if read_ok then parse_into crc32c [] bs else Inl StoreIo)"

definition auth_upsert :: "auth_store \<Rightarrow> bytes \<Rightarrow> tenant_id \<Rightarrow> bytes \<Rightarrow> auth_record option \<times> auth_store" where
  "auth_upsert m user tenant hash = (map_of m user, AList.update user \<lparr>ar_tenant = tenant, ar_hash = hash\<rparr> m)"

definition auth_insert :: "auth_store \<Rightarrow> bytes \<Rightarrow> tenant_id \<Rightarrow> bytes \<Rightarrow> store_error + auth_store" where
  "auth_insert m user tenant hash =
    (if map_of m user \<noteq> None then Inl (DuplicateUser user)
     else Inr (AList.update user \<lparr>ar_tenant = tenant, ar_hash = hash\<rparr> m))"

definition auth_remove :: "auth_store \<Rightarrow> bytes \<Rightarrow> auth_record option \<times> auth_store" where
  "auth_remove m user = (map_of m user, AList.delete user m)"

definition auth_remove_tenant :: "auth_store \<Rightarrow> tenant_id \<Rightarrow> nat \<times> auth_store" where
  "auth_remove_tenant m tenant =
    (let m' = filter (\<lambda>(_, r). ar_tenant r \<noteq> tenant) m in (length m - length m', m'))"

definition auth_has_tenant :: "auth_store \<Rightarrow> tenant_id \<Rightarrow> bool" where
  "auth_has_tenant m tenant \<longleftrightarrow> list_ex (\<lambda>(_, r). ar_tenant r = tenant) m"

definition auth_verify_login ::
  "(bytes \<Rightarrow> bool) \<Rightarrow> (bytes \<Rightarrow> bytes \<Rightarrow> bool) \<Rightarrow> auth_store \<Rightarrow> bytes \<Rightarrow> bytes \<Rightarrow> password_error + tenant_id" where
  "auth_verify_login phc argon m user password =
    (case map_of m user of
       Some rec \<Rightarrow> and_then (verify_password phc argon password (ar_hash rec)) (\<lambda>_. Inr (ar_tenant rec))
     | None \<Rightarrow> Inl VerifyFailed)"

text \<open>How far \<open>save\<close> gets: opening the temporary file, a short write, the sync, the rename.\<close>

datatype save_outcome = Save_open_fails | Save_write_fails nat | Save_sync_fails | Save_rename_fails | Save_done

definition auth_save :: "(bytes \<Rightarrow> u32) \<Rightarrow> save_outcome \<Rightarrow> auth_store \<Rightarrow> auth_files \<Rightarrow> (store_error + unit) \<times> auth_files" where
  "auth_save crc32c out m fs =
    (let bs = auth_encode crc32c m in
     case out of
       Save_open_fails \<Rightarrow> (Inl StoreIo, fs)
     | Save_write_fails k \<Rightarrow> (Inl StoreIo, fs\<lparr>af_tmp := Some (take k bs)\<rparr>)
     | Save_sync_fails \<Rightarrow> (Inl StoreIo, fs\<lparr>af_tmp := Some bs\<rparr>)
     | Save_rename_fails \<Rightarrow> (Inl StoreIo, fs\<lparr>af_tmp := Some bs\<rparr>)
     | Save_done \<Rightarrow> (Inr (), \<lparr>af_main = Some bs, af_tmp = None\<rparr>))"

subsection \<open>Round trip of the file\<close>

definition auth_entry_ok :: "bytes \<times> auth_record \<Rightarrow> bool" where
  "auth_entry_ok = (\<lambda>(user, rec). utf8_valid user \<and> utf8_valid (ar_hash rec) \<and>
    length user < 2 ^ 32 \<and> length (ar_hash rec) < 2 ^ 32)"

definition auth_ok :: "auth_store \<Rightarrow> bool" where
  "auth_ok m \<longleftrightarrow> distinct (map fst m) \<and> list_all auth_entry_ok m \<and> length m < 2 ^ 32"

lemma length_AUTH_MAGIC [simp]: "length AUTH_MAGIC = 8"
  by (simp add: AUTH_MAGIC_def)

lemma length_auth_body [simp]: "length (auth_body user rec) = 24 + length user + length (ar_hash rec)"
  by (simp add: auth_body_def)

lemma parse_auth_record_at:
  assumes "auth_entry_ok (user, rec)" and "off = length pre"
  shows "parse_auth_record crc32c (pre @ encode_auth_record crc32c (user, rec) @ post) idx off =
    Inr ((user, rec), off + length (encode_auth_record crc32c (user, rec)))"
proof -
  have ok: "utf8_valid user" "utf8_valid (ar_hash rec)" "length user < 2 ^ 32" "length (ar_hash rec) < 2 ^ 32"
    using assms(1) by (auto simp: auth_entry_ok_def)
  then have lens: "unat (of_nat (length user) :: u32) = length user"
    "unat (of_nat (length (ar_hash rec)) :: u32) = length (ar_hash rec)"
    by (simp_all add: unat_of_nat_small)
  have "bslice 0 (24 + (length user + length (ar_hash rec))) (auth_body user rec @ post) = auth_body user rec"
    by (intro bslice_prefix) simp
  then show ?thesis
    using ok lens assms(2)
    by (simp add: parse_auth_record_def encode_auth_record_def auth_body_def slice_simps Let_def from_utf8_def)
qed

lemma parse_auth_records_at:
  assumes "list_all auth_entry_ok xs" and "off = length pre"
  shows "parse_auth_records crc32c (pre @ concat (map (encode_auth_record crc32c) xs)) idx (length xs) off m =
    Inr (fold (\<lambda>(u, r). AList.update u r) xs m)"
  using assms
proof (induction xs arbitrary: pre off idx m)
  case (Cons x xs)
  obtain u r where x: "x = (u, r)"
    by force
  show ?case
    using Cons.prems Cons.IH [of "off + length (encode_auth_record crc32c x)" "pre @ encode_auth_record crc32c x" "Suc idx"]
      parse_auth_record_at [of u r off pre crc32c "concat (map (encode_auth_record crc32c) xs)" idx]
    by (simp add: x)
qed simp

lemma fold_update_map_of:
  "map_of (fold (\<lambda>(u, r). AList.update u r) xs m) = map_of m ++ map_of (rev xs)"
  by (induction xs arbitrary: m) (auto simp: fun_eq_iff update_conv' map_add_def split: option.splits)

lemma map_of_rev_distinct: "distinct (map fst xs) \<Longrightarrow> map_of (rev xs) = map_of xs"
  by (metis map_of_inject_set distinct_rev rev_map set_rev)

lemma auth_parse_encode:
  assumes "auth_ok m"
  shows "\<exists>m'. parse_into crc32c [] (auth_encode crc32c m) = Inr m' \<and> map_of m' = map_of m"
proof -
  let ?bs = "auth_encode crc32c m"
  have m: "distinct (map fst m)" "list_all auth_entry_ok m" "length m < 2 ^ 32"
    using assms by (auto simp: auth_ok_def)
  have "parse_into crc32c [] ?bs = parse_auth_records crc32c ?bs 0 (length m) 16 []"
    using m(3) by (simp add: parse_into_def auth_encode_def slice_simps unat_of_nat_small)
  also have "\<dots> = Inr (fold (\<lambda>(u, r). AList.update u r) m [])"
    using parse_auth_records_at [OF m(2), of 16 "AUTH_MAGIC @ u32_to_le AUTH_VERSION @ u32_to_le (of_nat (length m))"] m(3)
    by (simp add: auth_encode_def)
  finally show ?thesis
    using m(1) by (auto simp: fold_update_map_of map_of_rev_distinct)
qed

lemma auth_ok_remove_tenant: "auth_ok m \<Longrightarrow> auth_ok (snd (auth_remove_tenant m t))"
  using le_less_trans [OF length_filter_le, of m "2 ^ 32"]
  by (auto simp: auth_ok_def auth_remove_tenant_def Let_def list_all_iff distinct_map_filter)

lemma map_of_remove_tenant:
  assumes "distinct (map fst m)"
  shows "map_of (snd (auth_remove_tenant m t)) user =
    (case map_of m user of Some r \<Rightarrow> if ar_tenant r = t then None else Some r | None \<Rightarrow> None)"
  using assms
proof (induction m)
  case (Cons x m)
  then show ?case
    by (cases x) (auto simp: auth_remove_tenant_def Let_def map_of_eq_None_iff split: option.splits
      dest: map_of_SomeD intro: rev_image_eqI)
qed (simp add: auth_remove_tenant_def)

lemma auth_has_tenant_map_of:
  assumes "distinct (map fst m)"
  shows "auth_has_tenant m t \<longleftrightarrow> (\<exists>user r. map_of m user = Some r \<and> ar_tenant r = t)"
  using assms by (force simp: auth_has_tenant_def list_ex_iff)

lemma auth_verify_login_Inr:
  "auth_verify_login phc argon m user pw = Inr t \<longleftrightarrow>
    (\<exists>r. map_of m user = Some r \<and> ar_tenant r = t \<and> phc (ar_hash r) \<and> argon pw (ar_hash r))"
  by (auto simp: auth_verify_login_def verify_password_def split: option.splits)

lemma auth_login_known: "auth_verify_login phc argon m user pw = Inr t \<Longrightarrow> auth_has_tenant m t"
  by (auto simp: auth_verify_login_Inr auth_has_tenant_def list_ex_iff dest!: map_of_SomeD)

lemma auth_ok_upsert:
  assumes "auth_ok m" and "auth_entry_ok (user, \<lparr>ar_tenant = t, ar_hash = h\<rparr>)" and "length m + 1 < 2 ^ 32"
  shows "auth_ok (snd (auth_upsert m user t h))"
proof -
  let ?r = "\<lparr>ar_tenant = t, ar_hash = h\<rparr>"
  have "set (AList.update user ?r m) \<subseteq> insert (user, ?r) (set m)"
    by (induction m) auto
  then have "list_all auth_entry_ok (AList.update user ?r m)"
    using assms(1,2) by (auto simp: auth_ok_def list_all_iff)
  moreover have "length (AList.update user ?r m) \<le> length m + 1"
    by (induction m) auto
  ultimately show ?thesis
    using assms(1,3) by (simp add: auth_ok_def auth_upsert_def distinct_update)
qed

subsection \<open>Bearer tokens\<close>

definition NONCE_LEN :: nat where "NONCE_LEN = 7"
definition TAG_LEN :: nat where "TAG_LEN = 16"
definition TOKEN_LEN :: nat where "TOKEN_LEN = TENANT_LEN + 8 + NONCE_LEN + TAG_LEN"

datatype token_error =
    BadLength nat nat
  | BadMac
  | Expired
  | TenantMismatch tenant_id tenant_id
  | BadClock

record verified_token =
  vt_tenant :: tenant_id
  vt_issued_at :: u64
  vt_expires_at :: u64

record token_store =
  ts_key :: bytes
  ts_ttl_secs :: u64

definition token_from_key :: "bytes \<Rightarrow> u64 \<Rightarrow> token_store" where
  "token_from_key key ttl = \<lparr>ts_key = key, ts_ttl_secs = max ttl 1\<rparr>"

definition token_rotate :: "token_store \<Rightarrow> bytes \<Rightarrow> token_store" where
  "token_rotate ts k = ts\<lparr>ts_key := k\<rparr>"

text \<open>\<open>hmac key msg\<close> is HMAC-SHA256, 32 bytes; \<open>now\<close> is the clock, absent before the epoch.\<close>

definition token_encode :: "(bytes \<Rightarrow> bytes \<Rightarrow> bytes) \<Rightarrow> token_store \<Rightarrow> tenant_id \<Rightarrow> u64 \<Rightarrow> bytes \<Rightarrow> bytes" where
  "token_encode hmac ts tenant issued_at nonce =
    (let signed = tenant_as_bytes tenant @ u64_to_le issued_at @ nonce in
     signed @ take TAG_LEN (hmac (ts_key ts) signed))"

definition token_issue :: "(bytes \<Rightarrow> bytes \<Rightarrow> bytes) \<Rightarrow> token_store \<Rightarrow> u64 option \<Rightarrow> bytes \<Rightarrow> tenant_id \<Rightarrow> token_error + bytes" where
  "token_issue hmac ts clock nonce tenant =
    and_then (ok_or clock BadClock) (\<lambda>now. Inr (token_encode hmac ts tenant now nonce))"

definition token_verify ::
  "(bytes \<Rightarrow> bytes \<Rightarrow> bytes) \<Rightarrow> token_store \<Rightarrow> u64 option \<Rightarrow> bytes \<Rightarrow> tenant_id option \<Rightarrow> token_error + verified_token" where
  "token_verify hmac ts clock token expected =
    (if length token \<noteq> TOKEN_LEN then Inl (BadLength (length token) TOKEN_LEN)
     else
       let signed = take (TENANT_LEN + 8 + NONCE_LEN) token;
           tag = drop (TENANT_LEN + 8 + NONCE_LEN) token in
       if take TAG_LEN (hmac (ts_key ts) signed) \<noteq> tag then Inl BadMac
       else
         let tenant = tenant_from_bytes (take TENANT_LEN token);
             issued_at = u64_from_le (bslice TENANT_LEN (TENANT_LEN + 8) token);
             expires_at = sat_add issued_at (ts_ttl_secs ts);
             finish = and_then (ok_or clock BadClock) (\<lambda>now.
               if now > expires_at then Inl Expired
               else Inr \<lparr>vt_tenant = tenant, vt_issued_at = issued_at, vt_expires_at = expires_at\<rparr>) in
         case expected of
           Some exp \<Rightarrow> if exp \<noteq> tenant then Inl (TenantMismatch tenant exp) else finish
         | None \<Rightarrow> finish)"

lemmas token_defs = TENANT_LEN_def NONCE_LEN_def TAG_LEN_def TOKEN_LEN_def

lemma token_verify_encode:
  assumes "length nonce = 7" and "\<And>k m. length (hmac k m) = 32"
  shows "token_verify hmac ts clock (token_encode hmac ts tenant iat nonce) expected =
    (let expires = sat_add iat (ts_ttl_secs ts) in
     if expected \<noteq> None \<and> expected \<noteq> Some tenant then Inl (TenantMismatch tenant (the expected))
     else case clock of
       None \<Rightarrow> Inl BadClock
     | Some now \<Rightarrow> if now > expires then Inl Expired
         else Inr \<lparr>vt_tenant = tenant, vt_issued_at = iat, vt_expires_at = expires\<rparr>)"
  using assms
  by (auto simp: token_verify_def token_encode_def token_defs Let_def slice_simps split: option.splits)

lemma token_accepted_signed:
  assumes "token_verify hmac ts clock token expected = Inr v"
  shows "\<exists>nonce. length nonce = 7 \<and> token = token_encode hmac ts (vt_tenant v) (vt_issued_at v) nonce \<and>
    (\<exists>now. clock = Some now \<and> now \<le> sat_add (vt_issued_at v) (ts_ttl_secs ts)) \<and>
    (expected = None \<or> expected = Some (vt_tenant v))"
proof -
  let ?nonce = "bslice 24 31 token"
  have len: "length token = 47"
    using assms by (auto simp: token_verify_def token_defs split: if_splits)
  have split: "tenant_as_bytes (tenant_from_bytes (take 16 token)) @ u64_to_le (u64_from_le (bslice 16 24 token)) @ ?nonce =
    take 31 token"
    using len bslice_join [of 16 24 31 token] bslice_join [of 0 16 31 token]
    by (simp add: tenant_as_bytes_def tenant_from_bytes_def u128_to_from_le u64_to_from_le bslice_def)
  have "token = take 31 token @ drop 31 token"
    by simp
  moreover have "take 16 (hmac (ts_key ts) (take 31 token)) = drop 31 token"
    using assms by (auto simp: token_verify_def token_defs Let_def split: if_splits)
  moreover have "vt_tenant v = tenant_from_bytes (take 16 token)" "vt_issued_at v = u64_from_le (bslice 16 24 token)"
    using assms by (auto simp: token_verify_def token_defs Let_def and_then_eq_Inr split: if_splits option.splits)
  ultimately have "token = token_encode hmac ts (vt_tenant v) (vt_issued_at v) ?nonce"
    using split by (simp add: token_encode_def TAG_LEN_def Let_def)
  then show ?thesis
    using assms len
    by (intro exI [of _ ?nonce]) (auto simp: token_verify_def token_defs Let_def and_then_eq_Inr not_less split: if_splits option.splits)
qed

subsection \<open>The quota sidecar\<close>

type_synonym limits = "u64 option \<times> u64 option"
type_synonym limits_store = "(tenant_id \<times> limits) list"

datatype limits_error = MalformedLine | BadTenantId | BadLimit | LimitsIo

definition opt_text :: "u64 option \<Rightarrow> bytes" where
  "opt_text v = (case v of None \<Rightarrow> [42] | Some x \<Rightarrow> dec_text (unat x))"

definition parse_opt :: "bytes \<Rightarrow> limits_error + u64 option" where
  "parse_opt s =
    (if s = [42] then Inr None
     else and_then (ok_or (parse_uint (2 ^ 64 - 1) s) BadLimit) (\<lambda>x. Inr (Some (of_nat x))))"

definition parse_limits_line :: "bytes \<Rightarrow> limits_error + tenant_id \<times> limits" where
  "parse_limits_line line =
    (case split_whitespace line of
       [t, mv, md] \<Rightarrow>
         and_then (ok_or (parse_uint (2 ^ 128 - 1) t) BadTenantId) (\<lambda>tid.
         and_then (parse_opt mv) (\<lambda>a.
         and_then (parse_opt md) (\<lambda>b. Inr (of_nat tid, (a, b)))))
     | _ \<Rightarrow> Inl MalformedLine)"

fun parse_limits_lines :: "bytes list \<Rightarrow> limits_store \<Rightarrow> limits_error + limits_store" where
  "parse_limits_lines [] m = Inr m"
| "parse_limits_lines (l # ls) m =
    (if split_whitespace l = [] then parse_limits_lines ls m
     else and_then (parse_limits_line l) (\<lambda>(t, lim). parse_limits_lines ls (AList.update t lim m)))"

text \<open>A file that cannot be read, or is not UTF-8, is treated as a missing one.\<close>

definition limits_open :: "bool \<Rightarrow> bytes option \<Rightarrow> limits_error + limits_store" where
  "limits_open read_ok content =
    (case content of
       Some text \<Rightarrow> if read_ok \<and> utf8_valid text then parse_limits_lines (text_lines text) [] else Inr []
     | None \<Rightarrow> Inr [])"

definition limits_get :: "limits_store \<Rightarrow> tenant_id \<Rightarrow> limits" where
  "limits_get m t = (case map_of m t of Some l \<Rightarrow> l | None \<Rightarrow> (None, None))"

definition limits_line :: "tenant_id \<times> limits \<Rightarrow> bytes" where
  "limits_line = (\<lambda>(t, mv, md). dec_text (unat t) @ [32] @ opt_text mv @ [32] @ opt_text md @ [10])"

text \<open>Whether the write of the temporary file and its rename succeed is an input.\<close>

definition limits_persist :: "bool \<Rightarrow> limits_store \<Rightarrow> bytes option \<Rightarrow> (limits_error + unit) \<times> bytes option" where
  "limits_persist io_ok m disk =
    (if io_ok then (Inr (), Some (concat (map limits_line m))) else (Inl LimitsIo, disk))"

definition limits_set :: "bool \<Rightarrow> limits_store \<Rightarrow> bytes option \<Rightarrow> tenant_id \<Rightarrow> limits \<Rightarrow>
  (limits_error + unit) \<times> limits_store \<times> bytes option" where
  "limits_set io_ok m disk t lim =
    (let m' = AList.update t lim m; (r, disk') = limits_persist io_ok m' disk in (r, m', disk'))"

definition limits_remove :: "bool \<Rightarrow> limits_store \<Rightarrow> bytes option \<Rightarrow> tenant_id \<Rightarrow>
  (limits_error + unit) \<times> limits_store \<times> bytes option" where
  "limits_remove io_ok m disk t =
    (let m' = AList.delete t m; (r, disk') = limits_persist io_ok m' disk in (r, m', disk'))"

lemma plain_word_dec: "plain_word (dec_text n)"
proof -
  have "list_all is_ascii_digit (dec_text n)" "dec_text n \<noteq> []"
    using dec_text_digits [of n] dec_text_Cons [of n] by auto
  then show ?thesis
    by (auto simp: plain_word_def list_all_iff is_ascii_digit_def word_less_nat_alt word_le_nat_alt)
qed

lemma plain_word_opt: "plain_word (opt_text v)"
  by (cases v) (simp_all add: opt_text_def plain_word_dec, simp add: plain_word_def)

lemma parse_opt_text: "parse_opt (opt_text v) = Inr v"
proof (cases v)
  case (Some x)
  have "dec_text (unat x) \<noteq> [42]"
    using dec_text_Cons [of "unat x"] by (auto simp: is_ascii_digit_def)
  moreover have "parse_uint (2 ^ 64 - 1) (dec_text (unat x)) = Some (unat x)"
    using unat_lt [of x] by (intro parse_uint_text) simp
  ultimately show ?thesis
    by (simp add: Some opt_text_def parse_opt_def)
qed (simp add: opt_text_def parse_opt_def)

lemma parse_limits_line_text:
  "parse_limits_line (dec_text (unat t) @ 32 # opt_text mv @ 32 # opt_text md) = Inr (t, mv, md)"
proof -
  have "parse_uint (2 ^ 128 - 1) (dec_text (unat t)) = Some (unat t)"
    using unat_lt [of t] by (intro parse_uint_text) simp
  then show ?thesis
    by (simp add: parse_limits_line_def split_whitespace_words plain_word_dec plain_word_opt parse_opt_text)
qed

lemma plain_word_no_lf: "plain_word w \<Longrightarrow> 10 \<notin> set w \<and> 13 \<notin> set w \<and> ascii w"
  by (auto simp: plain_word_def list_all_iff ascii_def)

lemma limits_lines_text:
  "parse_limits_lines (text_lines (concat (map limits_line m))) acc = Inr (fold (\<lambda>(t, l). AList.update t l) m acc)"
proof (induction m arbitrary: acc)
  case (Cons x m)
  obtain t mv md where x: "x = (t, mv, md)"
    by (cases x) auto
  let ?l = "dec_text (unat t) @ 32 # opt_text mv @ 32 # opt_text md"
  have no: "10 \<notin> set ?l" "13 \<notin> set ?l" "ascii ?l"
    using plain_word_no_lf [OF plain_word_dec] plain_word_no_lf [OF plain_word_opt] by (auto simp: ascii_def)
  have "text_lines (limits_line x @ rest) = ?l # text_lines rest" for rest
    using text_lines_line [of ?l "[]" rest] no(1,2) last_in_set [of ?l]
    by (auto simp: limits_line_def x text_lines_def split: if_splits)
  then show ?case
    using Cons.IH by (simp add: parse_limits_line_text x split_whitespace_words plain_word_dec plain_word_opt)
qed (simp add: text_lines_def)

lemma limits_text_ascii: "ascii (concat (map limits_line m))"
  using plain_word_no_lf [OF plain_word_dec] plain_word_no_lf [OF plain_word_opt]
  by (auto simp: ascii_def limits_line_def list_all_iff)

lemma limits_open_persist:
  assumes "distinct (map fst m)"
  shows "\<exists>m'. limits_open True (snd (limits_persist True m disk)) = Inr m' \<and> map_of m' = map_of m"
  using assms limits_text_ascii [of m]
  by (simp add: limits_open_def limits_persist_def limits_lines_text utf8_valid_ascii fold_update_map_of map_of_rev_distinct)

subsection \<open>The backend\<close>

datatype anonymous_policy = Lenient | Strict

datatype quota_admin_error = Unsupported

record tenant_limits =
  max_vectors :: "u64 option"
  max_disk_bytes :: "u64 option"

record auth_backend =
  ab_auth :: auth_store
  ab_limits :: limits_store
  ab_strict :: bool
  ab_admin :: "tenant_id option"
  ab_files :: auth_files
  ab_quotas :: "bytes option"

datatype backend_error = BeStore store_error | BeLimits limits_error

definition backend_open :: "(bytes \<Rightarrow> u32) \<Rightarrow> (bytes \<Rightarrow> u128) \<Rightarrow> bool \<Rightarrow> bool \<Rightarrow> auth_files \<Rightarrow> bytes option \<Rightarrow>
  bool \<Rightarrow> bytes option \<Rightarrow> backend_error + auth_backend" where
  "backend_open crc32c xxh3_128 read_ok qread_ok fs quotas strict admin_tenant =
    (case auth_open crc32c read_ok fs of
       Inl e \<Rightarrow> Inl (BeStore e)
     | Inr store \<Rightarrow>
         (case limits_open qread_ok quotas of
            Inl e \<Rightarrow> Inl (BeLimits e)
          | Inr limits \<Rightarrow>
              Inr \<lparr>ab_auth = store, ab_limits = limits, ab_strict = strict,
                ab_admin = map_option (tenant_from_name xxh3_128) admin_tenant, ab_files = fs, ab_quotas = quotas\<rparr>))"

definition be_verify_login :: "(bytes \<Rightarrow> bool) \<Rightarrow> (bytes \<Rightarrow> bytes \<Rightarrow> bool) \<Rightarrow> auth_backend \<Rightarrow> bytes \<Rightarrow> bytes \<Rightarrow> tenant_id option" where
  "be_verify_login phc argon b user password =
    (case auth_verify_login phc argon (ab_auth b) user password of Inr t \<Rightarrow> Some t | Inl _ \<Rightarrow> None)"

definition be_has_tenant :: "auth_backend \<Rightarrow> tenant_id \<Rightarrow> bool" where
  "be_has_tenant b t = auth_has_tenant (ab_auth b) t"

definition be_anonymous_policy :: "auth_backend \<Rightarrow> anonymous_policy" where
  "be_anonymous_policy b = (if ab_strict b then Strict else Lenient)"

definition be_limits :: "auth_backend \<Rightarrow> tenant_id \<Rightarrow> tenant_limits" where
  "be_limits b t = (let (mv, md) = limits_get (ab_limits b) t in \<lparr>max_vectors = mv, max_disk_bytes = md\<rparr>)"

definition be_is_admin :: "auth_backend \<Rightarrow> tenant_id \<Rightarrow> bool" where
  "be_is_admin b t \<longleftrightarrow> \<not> tenant_is_zero t \<and> ab_admin b = Some t"

definition be_resolve_tenant :: "(bytes \<Rightarrow> u128) \<Rightarrow> auth_backend \<Rightarrow> bytes \<Rightarrow> tenant_id option" where
  "be_resolve_tenant xxh3_128 b name =
    (let t = tenant_from_name xxh3_128 name in if auth_has_tenant (ab_auth b) t then Some t else None)"

definition be_set_limits :: "bool \<Rightarrow> auth_backend \<Rightarrow> tenant_id \<Rightarrow> tenant_limits \<Rightarrow> (quota_admin_error + unit) \<times> auth_backend" where
  "be_set_limits io_ok b t lim =
    (let (r, m, disk) = limits_set io_ok (ab_limits b) (ab_quotas b) t (max_vectors lim, max_disk_bytes lim) in
     (case r of Inr u \<Rightarrow> Inr u | Inl _ \<Rightarrow> Inl Unsupported, b\<lparr>ab_limits := m, ab_quotas := disk\<rparr>))"

definition be_remove_tenant :: "(bytes \<Rightarrow> u32) \<Rightarrow> save_outcome \<Rightarrow> bool \<Rightarrow> auth_backend \<Rightarrow> tenant_id \<Rightarrow>
  (quota_admin_error + nat) \<times> auth_backend" where
  "be_remove_tenant crc32c out io_ok b t =
    (let (n, auth) = auth_remove_tenant (ab_auth b) t;
         (r, fs) = auth_save crc32c out auth (ab_files b);
         b1 = b\<lparr>ab_auth := auth, ab_files := fs\<rparr> in
     case r of
       Inl _ \<Rightarrow> (Inl Unsupported, b1)
     | Inr _ \<Rightarrow>
         (let (_, m, disk) = limits_remove io_ok (ab_limits b1) (ab_quotas b1) t in
          (Inr n, b1\<lparr>ab_limits := m, ab_quotas := disk\<rparr>)))"

text \<open>
  What the command handler relies on: a tenant that logs in is one the forgery check knows.
\<close>

locale tenant_backend =
  fixes verify_login :: "bytes \<Rightarrow> bytes \<Rightarrow> tenant_id option"
    and has_tenant :: "tenant_id \<Rightarrow> bool"
  assumes login_known: "verify_login user pw = Some t \<Longrightarrow> has_tenant t"
begin

lemma no_login: "\<not> has_tenant t \<Longrightarrow> verify_login user pw \<noteq> Some t"
  using login_known by blast

end

interpretation ab: tenant_backend "be_verify_login phc argon b" "be_has_tenant b" for phc argon b
  by unfold_locales (auto simp: be_verify_login_def be_has_tenant_def split: sum.splits dest: auth_login_known)

lemma auth_save_reopen:
  assumes "auth_ok m"
  shows "case auth_save crc32c out m fs of
      (Inr _, fs') \<Rightarrow> (\<exists>m'. auth_open crc32c True fs' = Inr m' \<and> map_of m' = map_of m)
    | (Inl _, fs') \<Rightarrow> auth_open crc32c read_ok fs' = auth_open crc32c read_ok fs"
  using auth_parse_encode [OF assms]
  by (cases out) (auto simp: auth_save_def auth_open_def Let_def)

lemma parse_auth_records_distinct:
  "parse_auth_records crc32c bs idx n off m = Inr m' \<Longrightarrow> distinct (map fst m) \<Longrightarrow> distinct (map fst m')"
  by (induction crc32c bs idx n off m rule: parse_auth_records.induct) (auto simp: and_then_eq_Inr distinct_update)

lemma auth_open_distinct: "auth_open crc32c read_ok fs = Inr m \<Longrightarrow> distinct (map fst m)"
  by (auto simp: auth_open_def parse_into_def Let_def split: option.splits if_splits dest: parse_auth_records_distinct)


definition demo_auth :: auth_store where
  "demo_auth = [(lit ''ann'', \<lparr>ar_tenant = 7, ar_hash = lit ''h1''\<rparr>), (lit ''bob'', \<lparr>ar_tenant = 9, ar_hash = lit ''h2''\<rparr>)]"

definition demo_backend :: auth_backend where
  "demo_backend = \<lparr>ab_auth = demo_auth, ab_limits = [], ab_strict = True, ab_admin = Some 9,
    ab_files = \<lparr>af_main = None, af_tmp = None\<rparr>, ab_quotas = None\<rparr>"

lemma demo_auth_ok: "auth_ok (ab_auth demo_backend)"
  by (simp add: auth_ok_def demo_backend_def demo_auth_def auth_entry_ok_def utf8_step_ascii)


text \<open>
  C11: A bearer token is accepted exactly when it is the one the store signs, under its current key,
  for the tenant and the issue time it names, the tenant is the expected one, and the clock has not
  passed the issue time plus the lifetime; the view returned is the one that was signed.
\<close>

theorem token_accept_iff:
  assumes "\<And>k msg. length (hmac k msg) = 32"
  shows "token_verify hmac ts clock token expected = Inr v \<longleftrightarrow>
    (\<exists>nonce. length nonce = 7 \<and> token = token_encode hmac ts (vt_tenant v) (vt_issued_at v) nonce) \<and>
    (expected = None \<or> expected = Some (vt_tenant v)) \<and>
    v = \<lparr>vt_tenant = vt_tenant v, vt_issued_at = vt_issued_at v,
         vt_expires_at = sat_add (vt_issued_at v) (ts_ttl_secs ts)\<rparr> \<and>
    (\<exists>now. clock = Some now \<and> now \<le> vt_expires_at v)"
proof
  assume acc: "token_verify hmac ts clock token expected = Inr v"
  obtain nonce now where n: "length nonce = 7" "token = token_encode hmac ts (vt_tenant v) (vt_issued_at v) nonce"
    and c: "clock = Some now" "now \<le> sat_add (vt_issued_at v) (ts_ttl_secs ts)"
    and e: "expected = None \<or> expected = Some (vt_tenant v)"
    using token_accepted_signed [OF acc] by auto
  have "v = \<lparr>vt_tenant = vt_tenant v, vt_issued_at = vt_issued_at v,
         vt_expires_at = sat_add (vt_issued_at v) (ts_ttl_secs ts)\<rparr>"
    using acc c e unfolding n(2) token_verify_encode [OF n(1) assms] by (auto simp: Let_def split: if_splits)
  then show "(\<exists>nonce. length nonce = 7 \<and> token = token_encode hmac ts (vt_tenant v) (vt_issued_at v) nonce) \<and>
    (expected = None \<or> expected = Some (vt_tenant v)) \<and>
    v = \<lparr>vt_tenant = vt_tenant v, vt_issued_at = vt_issued_at v,
         vt_expires_at = sat_add (vt_issued_at v) (ts_ttl_secs ts)\<rparr> \<and>
    (\<exists>now. clock = Some now \<and> now \<le> vt_expires_at v)"
    using n c e by (metis verified_token.select_convs(3))
next
  assume r: "(\<exists>nonce. length nonce = 7 \<and> token = token_encode hmac ts (vt_tenant v) (vt_issued_at v) nonce) \<and>
    (expected = None \<or> expected = Some (vt_tenant v)) \<and>
    v = \<lparr>vt_tenant = vt_tenant v, vt_issued_at = vt_issued_at v,
         vt_expires_at = sat_add (vt_issued_at v) (ts_ttl_secs ts)\<rparr> \<and>
    (\<exists>now. clock = Some now \<and> now \<le> vt_expires_at v)"
  then obtain nonce now where n: "length nonce = 7" "token = token_encode hmac ts (vt_tenant v) (vt_issued_at v) nonce"
    and c: "clock = Some now" "now \<le> vt_expires_at v"
    by blast
  have x: "vt_expires_at v = sat_add (vt_issued_at v) (ts_ttl_secs ts)"
    using r by (metis verified_token.select_convs(3))
  show "token_verify hmac ts clock token expected = Inr v"
    using r c unfolding n(2) token_verify_encode [OF n(1) assms] by (auto simp: Let_def x [symmetric] not_le)
qed

theorem token_accept_iff_witness:
  "token_verify (\<lambda>_ _. replicate 32 3) \<lparr>ts_key = [1], ts_ttl_secs = 60\<rparr> (Some 100)
     (token_encode (\<lambda>_ _. replicate 32 3) \<lparr>ts_key = [1], ts_ttl_secs = 60\<rparr> 7 50 (replicate 7 0)) None =
   Inr \<lparr>vt_tenant = 7, vt_issued_at = 50, vt_expires_at = 110\<rparr>"
  by (subst token_accept_iff)
    (auto simp: sat_add_def intro!: exI [of _ "replicate 7 0"])

text \<open>
  C37: Limits survive a restart: whatever table was persisted, opening the sidecar again gives every
  tenant the limits it had.
\<close>

theorem limits_roundtrip:
  assumes "distinct (map fst m)" and "limits_set True m disk t lim = (r, m', disk')"
  shows "r = Inr () \<and> (\<exists>m''. limits_open True disk' = Inr m'' \<and>
    limits_get m'' = (\<lambda>u. if u = t then lim else limits_get m u))"
proof -
  have m': "m' = AList.update t lim m" "disk' = snd (limits_persist True m' disk)" "r = Inr ()"
    using assms(2) by (auto simp: limits_set_def limits_persist_def Let_def)
  obtain m'' where "limits_open True disk' = Inr m''" "map_of m'' = map_of m'"
    using limits_open_persist [of m' disk] assms(1) by (auto simp: m' distinct_update)
  then show ?thesis
    by (auto simp: m' limits_get_def update_conv' fun_eq_iff split: option.splits)
qed

theorem limits_roundtrip_witness:
  "\<exists>m''. limits_open True (snd (snd (limits_set True [(5, Some 3, None)] None 9 (None, Some 77)))) = Inr m'' \<and>
    limits_get m'' = (\<lambda>u. if u = 9 then (None, Some 77) else limits_get [(5, Some 3, None)] u)"
  using limits_roundtrip [of "[(5, Some 3, None)]" None 9 "(None, Some 77)"
      "fst (limits_set True [(5, Some 3, None)] None 9 (None, Some 77))"
      "fst (snd (limits_set True [(5, Some 3, None)] None 9 (None, Some 77)))"
      "snd (snd (limits_set True [(5, Some 3, None)] None 9 (None, Some 77)))"]
  by simp

end
