(* ===== verification/Resp_Handler.thy ===== *)
theory Resp_Handler
  imports Server_Shard Resp_Command Tenant_Auth
begin

text \<open>
  The RESP3 command handlers (\<open>skeg-server/resp3_handler.rs\<close>): key scoping and the forgery check, the
  key-value commands, erasure, the admin quota commands, HELLO, command classification and the
  dispatcher. The vector commands and the statistics text are not part of the dispatcher here; the
  names they scope are.
\<close>

text \<open>Hash, checksum and password functions of other crates.\<close>

record externals =
  x_crc :: "bytes \<Rightarrow> u32"
  x_xxh3 :: "bytes \<Rightarrow> u64"
  x_xxh3_128 :: "bytes \<Rightarrow> u128"
  x_phc :: "bytes \<Rightarrow> bool"
  x_argon :: "bytes \<Rightarrow> bytes \<Rightarrow> bool"
  x_version :: bytes

type_synonym 'a reply_of = "('a \<times> shard_set) option"

subsection \<open>Scoping\<close>

definition scope_key :: "tenant_id \<Rightarrow> bytes \<Rightarrow> bytes" where
  "scope_key tenant key = (if tenant_is_zero tenant then key else tenant_as_bytes tenant @ key)"

definition tenant_u128 :: "tenant_id \<Rightarrow> u128" where
  "tenant_u128 tenant = u128_from_le (tenant_as_bytes tenant)"

definition anon_key_collides_with_tenant :: "tenant_id \<Rightarrow> bytes \<Rightarrow> auth_backend option \<Rightarrow> bool" where
  "anon_key_collides_with_tenant tenant key ctx =
    (if \<not> tenant_is_zero tenant \<or> length key < TENANT_LEN then False
     else case ctx of
       None \<Rightarrow> False
     | Some b \<Rightarrow>
         (let candidate = tenant_from_bytes (take TENANT_LEN key) in
          if tenant_is_zero candidate then False else be_has_tenant b candidate))"

definition anon_forgery_error :: resp_frame where
  "anon_forgery_error = Frame_Error (lit ''ERR key prefix collides with a bound tenant id; authenticate with HELLO 3 AUTH to use scoped keys'')"

definition MAX_VINDEX_NAME_LEN :: nat where
  "MAX_VINDEX_NAME_LEN = 255"

fun contains :: "bytes \<Rightarrow> bytes \<Rightarrow> bool" where
  "contains pat [] \<longleftrightarrow> pat = []"
| "contains pat (b # bs) \<longleftrightarrow> starts_with pat (b # bs) \<or> contains pat bs"

definition vindex_name_char :: "u8 \<Rightarrow> bool" where
  "vindex_name_char b \<longleftrightarrow> 48 \<le> b \<and> b \<le> 57 \<or> 65 \<le> b \<and> b \<le> 90 \<or> 97 \<le> b \<and> b \<le> 122 \<or> b = 45 \<or> b = 95 \<or> b = 46"

definition scope_vindex_or_reject :: "tenant_id \<Rightarrow> bytes \<Rightarrow> resp_frame + bytes" where
  "scope_vindex_or_reject tenant raw_name =
    (if contains (lit ''::'') raw_name then
       Inl (Frame_Error (lit ''ERR VINDEX name must not contain '' @ [39] @ lit ''::'' @ [39] @ lit '' (reserved for tenant scoping)''))
     else if raw_name \<noteq> [] \<and> length raw_name \<le> MAX_VINDEX_NAME_LEN \<and> raw_name \<noteq> lit ''.'' \<and> raw_name \<noteq> lit ''..'' \<and>
       \<not> contains (lit ''..'') raw_name \<and> list_all vindex_name_char raw_name
     then Inr (scoped_vindex_name tenant raw_name)
     else Inl (Frame_Error (lit ''ERR VINDEX name: 1-255 chars, [A-Za-z0-9._-] only, no '' @ [39] @ lit ''..'' @ [39])))"

subsection \<open>Replies\<close>

fun shard_error_text :: "shard_error \<Rightarrow> bytes" where
  "shard_error_text Unavailable = lit ''shard unavailable''"
| "shard_error_text (Storage e) = lit ''storage error: '' @ e"

definition shard_error_frame :: "shard_error \<Rightarrow> resp_frame" where
  "shard_error_frame e = Frame_Error (lit ''ERR '' @ shard_error_text e)"

definition wrong_arity :: "string \<Rightarrow> resp_frame" where
  "wrong_arity name = Frame_Error (lit ''ERR wrong number of arguments for '' @ [39] @ lit name @ [39])"

definition disk_limit :: "auth_backend option \<Rightarrow> tenant_id \<Rightarrow> nat option" where
  "disk_limit ctx tenant = (case ctx of None \<Rightarrow> None | Some b \<Rightarrow> map_option unat (max_disk_bytes (be_limits b tenant)))"

text \<open>\<open>as i64\<close> of a 64-bit count.\<close>

definition as_i64 :: "nat \<Rightarrow> int" where
  "as_i64 n = sint (of_nat n :: u64)"

subsection \<open>Key-value commands\<close>

definition kv_get :: "externals \<Rightarrow> bytes list \<Rightarrow> shard_set \<Rightarrow> tenant_id \<Rightarrow> auth_backend option \<Rightarrow> resp_frame reply_of" where
  "kv_get x args ss tenant ctx =
    (case args of
       [key] \<Rightarrow>
         if anon_key_collides_with_tenant tenant key ctx then Some (anon_forgery_error, ss)
         else (case shards_get (x_crc x) (x_xxh3 x) ss (scope_key tenant key) (tenant_u128 tenant) of
           None \<Rightarrow> None
         | Some (Inr (Some v), ss) \<Rightarrow> Some (Frame_Bulk v, ss)
         | Some (Inr None, ss) \<Rightarrow> Some (Frame_Null, ss)
         | Some (Inl e, ss) \<Rightarrow> Some (shard_error_frame e, ss))
     | _ \<Rightarrow> Some (wrong_arity ''GET'', ss))"

definition kv_set :: "externals \<Rightarrow> bytes list \<Rightarrow> shard_set \<Rightarrow> tenant_id \<Rightarrow> auth_backend option \<Rightarrow> resp_frame reply_of" where
  "kv_set x args ss tenant ctx =
    (case args of
       [key, val] \<Rightarrow>
         if anon_key_collides_with_tenant tenant key ctx then Some (anon_forgery_error, ss)
         else (case shards_set (x_crc x) (x_xxh3 x) ss (scope_key tenant key) val Kernel (tenant_u128 tenant) (disk_limit ctx tenant) of
           None \<Rightarrow> None
         | Some (Inr _, ss) \<Rightarrow> Some (frame_ok_reply, ss)
         | Some (Inl e, ss) \<Rightarrow> Some (shard_error_frame e, ss))
     | _ \<Rightarrow> Some (wrong_arity ''SET'', ss))"

definition kv_append :: "externals \<Rightarrow> bytes list \<Rightarrow> shard_set \<Rightarrow> tenant_id \<Rightarrow> auth_backend option \<Rightarrow> resp_frame reply_of" where
  "kv_append x args ss tenant ctx =
    (case args of
       [key, val] \<Rightarrow>
         if anon_key_collides_with_tenant tenant key ctx then Some (anon_forgery_error, ss)
         else (case shards_append (x_crc x) (x_xxh3 x) ss (scope_key tenant key) val Kernel (tenant_u128 tenant) (disk_limit ctx tenant) of
           None \<Rightarrow> None
         | Some (Inr len, ss) \<Rightarrow> Some (Frame_Integer (as_i64 len), ss)
         | Some (Inl e, ss) \<Rightarrow> Some (shard_error_frame e, ss))
     | _ \<Rightarrow> Some (wrong_arity ''APPEND'', ss))"

fun del_keys :: "externals \<Rightarrow> tenant_id \<Rightarrow> shard_set \<Rightarrow> bytes list \<Rightarrow> int \<Rightarrow> resp_frame reply_of" where
  "del_keys x tenant ss [] count = Some (Frame_Integer count, ss)"
| "del_keys x tenant ss (key # keys) count =
    (case shards_del (x_crc x) (x_xxh3 x) ss (scope_key tenant key) Kernel of
       None \<Rightarrow> None
     | Some (Inr b, ss) \<Rightarrow> del_keys x tenant ss keys (if b then count + 1 else count)
     | Some (Inl e, ss) \<Rightarrow> Some (shard_error_frame e, ss))"

definition kv_del :: "externals \<Rightarrow> bytes list \<Rightarrow> shard_set \<Rightarrow> tenant_id \<Rightarrow> auth_backend option \<Rightarrow> resp_frame reply_of" where
  "kv_del x args ss tenant ctx =
    (if args = [] then Some (wrong_arity ''DEL'', ss)
     else if list_ex (\<lambda>key. anon_key_collides_with_tenant tenant key ctx) args then Some (anon_forgery_error, ss)
     else del_keys x tenant ss args 0)"

fun exists_keys :: "externals \<Rightarrow> tenant_id \<Rightarrow> shard_set \<Rightarrow> bytes list \<Rightarrow> int \<Rightarrow> resp_frame reply_of" where
  "exists_keys x tenant ss [] count = Some (Frame_Integer count, ss)"
| "exists_keys x tenant ss (key # keys) count =
    (case shards_get (x_crc x) (x_xxh3 x) ss (scope_key tenant key) (tenant_u128 tenant) of
       None \<Rightarrow> None
     | Some (Inr (Some _), ss) \<Rightarrow> exists_keys x tenant ss keys (count + 1)
     | Some (Inr None, ss) \<Rightarrow> exists_keys x tenant ss keys count
     | Some (Inl e, ss) \<Rightarrow> Some (shard_error_frame e, ss))"

definition kv_exists :: "externals \<Rightarrow> bytes list \<Rightarrow> shard_set \<Rightarrow> tenant_id \<Rightarrow> auth_backend option \<Rightarrow> resp_frame reply_of" where
  "kv_exists x args ss tenant ctx =
    (if args = [] then Some (wrong_arity ''EXISTS'', ss)
     else if list_ex (\<lambda>key. anon_key_collides_with_tenant tenant key ctx) args then Some (anon_forgery_error, ss)
     else exists_keys x tenant ss args 0)"

fun mget_keys :: "externals \<Rightarrow> tenant_id \<Rightarrow> shard_set \<Rightarrow> bytes list \<Rightarrow> resp_frame list \<Rightarrow> resp_frame reply_of" where
  "mget_keys x tenant ss [] out = Some (Frame_Array out, ss)"
| "mget_keys x tenant ss (key # keys) out =
    (case shards_get (x_crc x) (x_xxh3 x) ss (scope_key tenant key) (tenant_u128 tenant) of
       None \<Rightarrow> None
     | Some (Inr (Some v), ss) \<Rightarrow> mget_keys x tenant ss keys (out @ [Frame_Bulk v])
     | Some (Inr None, ss) \<Rightarrow> mget_keys x tenant ss keys (out @ [Frame_Null])
     | Some (Inl e, ss) \<Rightarrow> Some (shard_error_frame e, ss))"

definition kv_mget :: "externals \<Rightarrow> bytes list \<Rightarrow> shard_set \<Rightarrow> tenant_id \<Rightarrow> auth_backend option \<Rightarrow> resp_frame reply_of" where
  "kv_mget x args ss tenant ctx =
    (if args = [] then Some (wrong_arity ''MGET'', ss)
     else if list_ex (\<lambda>key. anon_key_collides_with_tenant tenant key ctx) args then Some (anon_forgery_error, ss)
     else mget_keys x tenant ss args [])"

fun chunks2 :: "bytes list \<Rightarrow> (bytes \<times> bytes) list" where
  "chunks2 (a # b # rest) = (a, b) # chunks2 rest"
| "chunks2 _ = []"

definition kv_mset :: "externals \<Rightarrow> bytes list \<Rightarrow> shard_set \<Rightarrow> tenant_id \<Rightarrow> auth_backend option \<Rightarrow> resp_frame reply_of" where
  "kv_mset x args ss tenant ctx =
    (if args = [] \<or> odd (length args) then Some (wrong_arity ''MSET'', ss)
     else if list_ex (\<lambda>(key, _). anon_key_collides_with_tenant tenant key ctx) (chunks2 args) then Some (anon_forgery_error, ss)
     else (case shards_mset (x_crc x) (x_xxh3 x) ss (map (\<lambda>(k, v). (scope_key tenant k, v)) (chunks2 args)) Kernel of
       None \<Rightarrow> None
     | Some (Inr _, ss) \<Rightarrow> Some (frame_ok_reply, ss)
     | Some (Inl e, ss) \<Rightarrow> Some (shard_error_frame e, ss)))"

text \<open>INCR reads, computes and writes back; the two shard calls are separate definitions.\<close>

definition incr_read :: "externals \<Rightarrow> bytes \<Rightarrow> shard_set \<Rightarrow> u128 \<Rightarrow> (resp_frame + int) reply_of" where
  "incr_read x key ss tenant =
    (case shards_get (x_crc x) (x_xxh3 x) ss key tenant of
       None \<Rightarrow> None
     | Some (Inr (Some b), ss) \<Rightarrow>
         (case Option.bind (from_utf8 b) parse_i64 of
            Some n \<Rightarrow> Some (Inr n, ss)
          | None \<Rightarrow> Some (Inl (Frame_Error (lit ''ERR value is not an integer or out of range'')), ss))
     | Some (Inr None, ss) \<Rightarrow> Some (Inr 0, ss)
     | Some (Inl e, ss) \<Rightarrow> Some (Inl (shard_error_frame e), ss))"

definition incr_write :: "externals \<Rightarrow> bytes \<Rightarrow> int \<Rightarrow> int \<Rightarrow> shard_set \<Rightarrow> u128 \<Rightarrow> resp_frame reply_of" where
  "incr_write x key current delta ss tenant =
    (let new = current + delta in
     if \<not> is_i64 new then Some (Frame_Error (lit ''ERR increment or decrement would overflow''), ss)
     else (case shards_set (x_crc x) (x_xxh3 x) ss key (int_text new) Kernel tenant None of
       None \<Rightarrow> None
     | Some (Inr _, ss) \<Rightarrow> Some (Frame_Integer new, ss)
     | Some (Inl e, ss) \<Rightarrow> Some (shard_error_frame e, ss)))"

definition incr_apply :: "externals \<Rightarrow> bytes \<Rightarrow> int \<Rightarrow> shard_set \<Rightarrow> u128 \<Rightarrow> resp_frame reply_of" where
  "incr_apply x key delta ss tenant =
    (case incr_read x key ss tenant of
       None \<Rightarrow> None
     | Some (Inl e, ss) \<Rightarrow> Some (e, ss)
     | Some (Inr current, ss) \<Rightarrow> incr_write x key current delta ss tenant)"

definition kv_incrby_apply :: "externals \<Rightarrow> bytes \<Rightarrow> int \<Rightarrow> shard_set \<Rightarrow> tenant_id \<Rightarrow> auth_backend option \<Rightarrow> resp_frame reply_of" where
  "kv_incrby_apply x key delta ss tenant ctx =
    (if anon_key_collides_with_tenant tenant key ctx then Some (anon_forgery_error, ss)
     else incr_apply x (scope_key tenant key) delta ss (tenant_u128 tenant))"

definition kv_incr_by :: "externals \<Rightarrow> bytes list \<Rightarrow> shard_set \<Rightarrow> int \<Rightarrow> tenant_id \<Rightarrow> auth_backend option \<Rightarrow> resp_frame reply_of" where
  "kv_incr_by x args ss sign tenant ctx =
    (case args of
       [key] \<Rightarrow>
         if anon_key_collides_with_tenant tenant key ctx then Some (anon_forgery_error, ss)
         else incr_apply x (scope_key tenant key) sign ss (tenant_u128 tenant)
     | _ \<Rightarrow> Some (wrong_arity ''INCR/DECR'', ss))"

definition kv_decrby :: "externals \<Rightarrow> bytes \<Rightarrow> int \<Rightarrow> shard_set \<Rightarrow> tenant_id \<Rightarrow> auth_backend option \<Rightarrow> resp_frame reply_of" where
  "kv_decrby x key delta ss tenant ctx =
    (if is_i64 (- delta) then kv_incrby_apply x key (- delta) ss tenant ctx
     else Some (Frame_Error (lit ''ERR value out of range''), ss))"

definition kv_select_db :: "int \<Rightarrow> resp_frame" where
  "kv_select_db db =
    (if db = 0 then frame_ok_reply
     else Frame_Error (lit ''ERR DB index out of range (skeg only supports DB 0)''))"

definition skeg_subject_erase :: "externals \<Rightarrow> bytes list \<Rightarrow> shard_set \<Rightarrow> tenant_id \<Rightarrow> resp_frame reply_of" where
  "skeg_subject_erase x args ss tenant =
    (case args of
       [subject] \<Rightarrow>
         if tenant_is_zero tenant then Some (Frame_Error (lit ''ERR SKEG.SUBJECT.ERASE requires an authenticated tenant''), ss)
         else if subject = [] then Some (Frame_Error (lit ''ERR subject prefix must not be empty''), ss)
         else (case shards_erase_prefix (x_crc x) (x_xxh3 x) ss (tenant_u128 tenant) subject Kernel of
           None \<Rightarrow> None
         | Some (Inr n, ss) \<Rightarrow> Some (Frame_Integer (as_i64 n), ss)
         | Some (Inl e, ss) \<Rightarrow> Some (shard_error_frame e, ss))
     | _ \<Rightarrow> Some (wrong_arity ''SKEG.SUBJECT.ERASE'', ss))"

definition skeg_reclaim :: "externals \<Rightarrow> shard_set \<Rightarrow> tenant_id \<Rightarrow> auth_backend option \<Rightarrow> resp_frame reply_of" where
  "skeg_reclaim x ss caller ctx =
    (case ctx of
       None \<Rightarrow> Some (Frame_Error (lit ''ERR multi-tenant backend not configured''), ss)
     | Some b \<Rightarrow>
         if \<not> be_is_admin b caller then Some (Frame_Error (lit ''ERR admin privileges required''), ss)
         else (case shards_reclaim (x_crc x) (x_xxh3 x) ss of
           None \<Rightarrow> None
         | Some (Inr freed, ss) \<Rightarrow> Some (Frame_Integer (as_i64 freed), ss)
         | Some (Inl e, ss) \<Rightarrow> Some (shard_error_frame e, ss)))"

subsection \<open>Dispatch\<close>

text \<open>The arms of \<open>dispatch_command\<close> for the key-value commands; other commands are not answered here.\<close>

fun dispatch_kv :: "externals \<Rightarrow> resp_command \<Rightarrow> shard_set \<Rightarrow> tenant_id \<Rightarrow> auth_backend option \<Rightarrow> resp_frame reply_of" where
  "dispatch_kv x (Cmd_Get key) ss t ctx = kv_get x [key] ss t ctx"
| "dispatch_kv x (Cmd_Set key val) ss t ctx = kv_set x [key, val] ss t ctx"
| "dispatch_kv x (Cmd_Append key val) ss t ctx = kv_append x [key, val] ss t ctx"
| "dispatch_kv x (Cmd_Del keys) ss t ctx = kv_del x keys ss t ctx"
| "dispatch_kv x (Cmd_Exists keys) ss t ctx = kv_exists x keys ss t ctx"
| "dispatch_kv x (Cmd_Mget keys) ss t ctx = kv_mget x keys ss t ctx"
| "dispatch_kv x (Cmd_Mset pairs) ss t ctx = kv_mset x (concat (map (\<lambda>(k, v). [k, v]) pairs)) ss t ctx"
| "dispatch_kv x (Cmd_Incr key) ss t ctx = kv_incr_by x [key] ss 1 t ctx"
| "dispatch_kv x (Cmd_Decr key) ss t ctx = kv_incr_by x [key] ss (- 1) t ctx"
| "dispatch_kv x (Cmd_IncrBy key delta) ss t ctx = kv_incrby_apply x key delta ss t ctx"
| "dispatch_kv x (Cmd_DecrBy key delta) ss t ctx = kv_decrby x key delta ss t ctx"
| "dispatch_kv x _ ss t ctx = None"

text \<open>The keys a command names.\<close>

fun cmd_keys :: "resp_command \<Rightarrow> bytes list" where
  "cmd_keys (Cmd_Get key) = [key]"
| "cmd_keys (Cmd_Set key val) = [key]"
| "cmd_keys (Cmd_Append key val) = [key]"
| "cmd_keys (Cmd_Del keys) = keys"
| "cmd_keys (Cmd_Exists keys) = keys"
| "cmd_keys (Cmd_Mget keys) = keys"
| "cmd_keys (Cmd_Mset pairs) = map fst pairs"
| "cmd_keys (Cmd_Incr key) = [key]"
| "cmd_keys (Cmd_Decr key) = [key]"
| "cmd_keys (Cmd_IncrBy key delta) = [key]"
| "cmd_keys (Cmd_DecrBy key delta) = [key]"
| "cmd_keys _ = []"

subsection \<open>What a private map answers\<close>

definition stored_int :: "bytes option \<Rightarrow> int option" where
  "stored_int v = (case v of None \<Rightarrow> Some 0 | Some b \<Rightarrow> Option.bind (from_utf8 b) parse_i64)"

definition incr_spec :: "(bytes \<Rightarrow> bytes option) \<Rightarrow> bytes \<Rightarrow> int \<Rightarrow> resp_frame \<times> (bytes \<Rightarrow> bytes option)" where
  "incr_spec m key delta =
    (case stored_int (m key) of
       None \<Rightarrow> (Frame_Error (lit ''ERR value is not an integer or out of range''), m)
     | Some n \<Rightarrow>
         if is_i64 (n + delta) then (Frame_Integer (n + delta), m(key \<mapsto> int_text (n + delta)))
         else (Frame_Error (lit ''ERR increment or decrement would overflow''), m))"

definition value_frame :: "bytes option \<Rightarrow> resp_frame" where
  "value_frame v = (case v of Some b \<Rightarrow> Frame_Bulk b | None \<Rightarrow> Frame_Null)"

fun kv_spec :: "resp_command \<Rightarrow> (bytes \<Rightarrow> bytes option) \<Rightarrow> resp_frame \<times> (bytes \<Rightarrow> bytes option)" where
  "kv_spec (Cmd_Get key) m = (value_frame (m key), m)"
| "kv_spec (Cmd_Set key val) m = (frame_ok_reply, m(key \<mapsto> val))"
| "kv_spec (Cmd_Append key val) m =
    (let new = (case m key of None \<Rightarrow> [] | Some cur \<Rightarrow> cur) @ val in (Frame_Integer (as_i64 (length new)), m(key \<mapsto> new)))"
| "kv_spec (Cmd_Del keys) m =
    (if keys = [] then (wrong_arity ''DEL'', m)
     else (Frame_Integer (int (card (set keys \<inter> dom m))), m |` (- set keys)))"
| "kv_spec (Cmd_Exists keys) m =
    (if keys = [] then (wrong_arity ''EXISTS'', m)
     else (Frame_Integer (int (length (filter (\<lambda>k. m k \<noteq> None) keys))), m))"
| "kv_spec (Cmd_Mget keys) m =
    (if keys = [] then (wrong_arity ''MGET'', m) else (Frame_Array (map (\<lambda>k. value_frame (m k)) keys), m))"
| "kv_spec (Cmd_Mset pairs) m =
    (if pairs = [] then (wrong_arity ''MSET'', m) else (frame_ok_reply, map_writes m pairs))"
| "kv_spec (Cmd_Incr key) m = incr_spec m key 1"
| "kv_spec (Cmd_Decr key) m = incr_spec m key (- 1)"
| "kv_spec (Cmd_IncrBy key delta) m = incr_spec m key delta"
| "kv_spec (Cmd_DecrBy key delta) m =
    (if is_i64 (- delta) then incr_spec m key (- delta) else (Frame_Error (lit ''ERR value out of range''), m))"
| "kv_spec _ m = (Frame_Null, m)"

text \<open>
  An answer: what the map answers, or a shard error, after which every key has either its old value
  or the one the command was to give it.
\<close>

definition kv_answers :: "resp_command \<Rightarrow> (bytes \<Rightarrow> bytes option) \<Rightarrow> resp_frame \<Rightarrow> (bytes \<Rightarrow> bytes option) \<Rightarrow> bool" where
  "kv_answers cmd m f m' \<longleftrightarrow> (f, m') = kv_spec cmd m \<or>
    (\<exists>e. f = shard_error_frame e) \<and> (\<forall>k. m' k = m k \<or> m' k = snd (kv_spec cmd m) k)"

text \<open>The map a tenant sees.\<close>

definition view :: "tenant_id \<Rightarrow> (bytes \<Rightarrow> bytes option) \<Rightarrow> bytes \<Rightarrow> bytes option" where
  "view t m = (\<lambda>k. m (scope_key t k))"

text \<open>Bounds on the records a command writes, and the timestamps it takes of a shard.\<close>

fun cmd_fits :: "externals \<Rightarrow> tenant_id \<Rightarrow> shard_set \<Rightarrow> resp_command \<Rightarrow> bool" where
  "cmd_fits x t ss (Cmd_Set key val) \<longleftrightarrow> rec_fits (scope_key t key) val"
| "cmd_fits x t ss (Cmd_Append key val) \<longleftrightarrow>
    (case shards_get (x_crc x) (x_xxh3 x) ss (scope_key t key) (tenant_u128 t) of
       Some (Inr cur, _) \<Rightarrow> rec_fits (scope_key t key) ((case cur of None \<Rightarrow> [] | Some c \<Rightarrow> c) @ val)
     | _ \<Rightarrow> True)"
| "cmd_fits x t ss (Cmd_Del keys) \<longleftrightarrow> list_all (\<lambda>k. rec_fits (scope_key t k) []) keys"
| "cmd_fits x t ss (Cmd_Mset pairs) \<longleftrightarrow> list_all (\<lambda>(k, v). rec_fits (scope_key t k) v) pairs"
| "cmd_fits x t ss (Cmd_Incr key) \<longleftrightarrow> rec_fits (scope_key t key) (replicate 20 0)"
| "cmd_fits x t ss (Cmd_Decr key) \<longleftrightarrow> rec_fits (scope_key t key) (replicate 20 0)"
| "cmd_fits x t ss (Cmd_IncrBy key delta) \<longleftrightarrow> rec_fits (scope_key t key) (replicate 20 0)"
| "cmd_fits x t ss (Cmd_DecrBy key delta) \<longleftrightarrow> rec_fits (scope_key t key) (replicate 20 0)"
| "cmd_fits x t ss _ \<longleftrightarrow> True"

fun cmd_room :: "nat \<Rightarrow> resp_command \<Rightarrow> nat" where
  "cmd_room n (Cmd_Get key) = 0"
| "cmd_room n (Cmd_Del keys) = length keys"
| "cmd_room n (Cmd_Exists keys) = 0"
| "cmd_room n (Cmd_Mget keys) = 0"
| "cmd_room n (Cmd_Mset pairs) = n * Suc (length pairs)"
| "cmd_room n _ = 1"

lemma scope_key_inj [simp]: "scope_key t a = scope_key t b \<longleftrightarrow> a = b"
  by (simp add: scope_key_def)

lemma view_upd: "view t (m(scope_key t k := v)) = (view t m)(k := v)"
  by (auto simp: view_def)

lemma view_writes: "view t (map_writes m (map (\<lambda>(k, v). (scope_key t k, v)) ps)) = map_writes (view t m) ps"
  by (induction ps arbitrary: m) (auto simp: map_writes_simps view_upd)

lemma map_writes_other: "key \<notin> fst ` set ps \<Longrightarrow> map_writes m ps key = m key"
  by (induction ps arbitrary: m) (auto simp: map_writes_simps)

text \<open>
  What a handler shows: the shards represent a map again, the command answered for the tenant's view,
  and no key outside the ones the command names, in the tenant's namespace, changed.
\<close>

definition handled :: "externals \<Rightarrow> tenant_id \<Rightarrow> resp_command \<Rightarrow> (bytes \<Rightarrow> bytes option) \<Rightarrow> resp_frame \<Rightarrow> shard_set \<Rightarrow> bool" where
  "handled x t cmd m f ss' \<longleftrightarrow> (\<exists>m'. shards_ok (x_crc x) (x_xxh3 x) ss' m' \<and> kv_answers cmd (view t m) f (view t m') \<and>
    (\<forall>key. key \<notin> scope_key t ` set (cmd_keys cmd) \<longrightarrow> m' key = m key))"

lemma handledI:
  "shards_ok (x_crc x) (x_xxh3 x) ss' m' \<Longrightarrow> kv_answers cmd (view t m) f (view t m') \<Longrightarrow>
    (\<And>key. key \<notin> scope_key t ` set (cmd_keys cmd) \<Longrightarrow> m' key = m key) \<Longrightarrow> handled x t cmd m f ss'"
  unfolding handled_def by blast

lemma answers_same: "f = shard_error_frame e \<Longrightarrow> kv_answers cmd m f m"
  by (auto simp: kv_answers_def)

lemma answers_spec: "kv_spec cmd m = (f, m') \<Longrightarrow> kv_answers cmd m f m'"
  by (simp add: kv_answers_def)

subsection \<open>Each handler answers for the tenant's map\<close>

lemma kv_get_ok:
  assumes ok: "shards_ok (x_crc x) (x_xxh3 x) ss m" and c: "\<not> anon_key_collides_with_tenant t key ctx"
    and ex: "kv_get x [key] ss t ctx = Some (f, ss')"
  shows "ss_step 0 ss ss' \<and> handled x t (Cmd_Get key) m f ss'"
proof -
  obtain r where r: "shards_get (x_crc x) (x_xxh3 x) ss (scope_key t key) (tenant_u128 t) = Some (r, ss')"
    and f: "f = (case r of Inr v \<Rightarrow> value_frame v | Inl e \<Rightarrow> shard_error_frame e)"
    using ex c by (auto simp: kv_get_def value_frame_def split: option.splits sum.splits)
  note s = shards_get_ok [OF ok r]
  have "kv_answers (Cmd_Get key) (view t m) f (view t m)"
    using s f by (auto simp: view_def kv_answers_def)
  then show ?thesis
    using s by (auto intro!: handledI [where m' = m])
qed

lemma kv_set_ok:
  assumes ok: "shards_ok (x_crc x) (x_xxh3 x) ss m" and crc: "crc_zero_ok (x_crc x)" and c: "\<not> anon_key_collides_with_tenant t key ctx"
    and fits: "cmd_fits x t ss (Cmd_Set key val)" and room: "shards_room 1 ss"
    and ex: "kv_set x [key, val] ss t ctx = Some (f, ss')"
  shows "ss_step 1 ss ss' \<and> handled x t (Cmd_Set key val) m f ss'"
proof -
  obtain r where r: "shards_set (x_crc x) (x_xxh3 x) ss (scope_key t key) val Kernel (tenant_u128 t) (disk_limit ctx t) = Some (r, ss')"
    and f: "f = (case r of Inr _ \<Rightarrow> frame_ok_reply | Inl e \<Rightarrow> shard_error_frame e)"
    using ex c by (auto simp: kv_set_def split: option.splits sum.splits)
  note s = shards_set_ok [OF ok crc fits [simplified] room r]
  show ?thesis
  proof (cases r)
    case (Inl e)
    then show ?thesis
      using s f by (auto intro!: handledI [where m' = m] answers_same)
  next
    case (Inr u)
    then show ?thesis
      using s f by (auto intro!: handledI [where m' = "m(scope_key t key \<mapsto> val)"] answers_spec simp: view_upd)
  qed
qed

lemma append_shard_down:
  assumes "shards_get crc xxh3 ss key t = Some (Inl e, s1)" and "shards_ok crc xxh3 ss m"
  shows "shards_append crc xxh3 ss key val d t l = Some (Inl Unavailable, ss)"
proof -
  have "shard_for xxh3 key (n_shards ss) \<in> set (ss_down ss)"
  proof (rule ccontr)
    assume up: "shard_for xxh3 key (n_shards ss) \<notin> set (ss_down ss)"
    let ?v = "(ss_shards ss ! shard_for xxh3 key (n_shards ss))\<lparr>tenant_disk := ss_disk ss\<rparr>"
    have v: "store_ok crc xxh3 ?v (shard_part xxh3 (n_shards ss) (shard_for xxh3 key (n_shards ss)) m)"
      using assms(2) shard_for_less [OF assms(2)] by (simp add: shards_ok_def)
    show False
      using assms(1) up get_scoped_ok [OF v, of key t]
      by (auto simp: shards_get_def expect_def shard_call_def process_def reply_def split: option.splits)
  qed
  then show ?thesis
    by (simp add: shards_append_def expect_def shard_call_def)
qed

lemma append_diverges:
  assumes "shards_get crc xxh3 ss key t = None"
  shows "ss_read_only ss \<or> shards_append crc xxh3 ss key val d t l = None"
  using assms
  by (auto simp: shards_get_def shards_append_def expect_def shard_call_def process_def append_scoped_def
      split: option.splits if_splits sum.splits prod.splits)

lemma append_read_only:
  assumes "ss_read_only ss" and "shards_append crc xxh3 ss key val d t l = Some (r, ss')" and ok: "shards_ok crc xxh3 ss m"
  shows "(\<exists>e. r = Inl e) \<and> ss_step 1 ss ss' \<and> shards_ok crc xxh3 ss' m"
proof -
  let ?s = "shard_for xxh3 key (n_shards ss)"
  have s: "?s < n_shards ss"
    by (rule shard_for_less [OF ok])
  have "store_ok crc xxh3 ((ss_shards ss ! ?s)\<lparr>tenant_disk := ss_disk ss\<rparr>) (shard_part xxh3 (n_shards ss) ?s m)"
    using ok s by (simp add: shards_ok_def)
  then have "shards_ok crc xxh3 (ss\<lparr>ss_shards := (ss_shards ss)[?s := (ss_shards ss ! ?s)\<lparr>tenant_disk := ss_disk ss\<rparr>], ss_disk := ss_disk ss\<rparr>) m"
    by (rule shards_ok_update [OF ok s]) simp
  moreover have "ss_step 1 ss (ss\<lparr>ss_shards := (ss_shards ss)[?s := (ss_shards ss ! ?s)\<lparr>tenant_disk := ss_disk ss\<rparr>], ss_disk := ss_disk ss\<rparr>)"
    by (rule shard_step [OF s]) (auto intro: exI [of _ 0])
  ultimately show ?thesis
    using assms(1,2) ok ss_step_mono [OF ss_step_refl, of 1 ss]
    by (auto simp: shards_append_def expect_def shard_call_def process_def split: if_splits)
qed

lemma kv_append_ok:
  assumes ok: "shards_ok (x_crc x) (x_xxh3 x) ss m" and crc: "crc_zero_ok (x_crc x)" and c: "\<not> anon_key_collides_with_tenant t key ctx"
    and fits: "cmd_fits x t ss (Cmd_Append key val)" and room: "shards_room 1 ss"
    and ex: "kv_append x [key, val] ss t ctx = Some (f, ss')"
  shows "ss_step 1 ss ss' \<and> handled x t (Cmd_Append key val) m f ss'"
proof -
  let ?k = "scope_key t key" let ?g = "shards_get (x_crc x) (x_xxh3 x) ss ?k (tenant_u128 t)"
  let ?new = "(case m ?k of None \<Rightarrow> [] | Some cur \<Rightarrow> cur) @ val"
  obtain r where r: "shards_append (x_crc x) (x_xxh3 x) ss ?k val Kernel (tenant_u128 t) (disk_limit ctx t) = Some (r, ss')"
    and f: "f = (case r of Inr n \<Rightarrow> Frame_Integer (as_i64 n) | Inl e \<Rightarrow> shard_error_frame e)"
    using ex c by (auto simp: kv_append_def split: option.splits sum.splits)
  have fail: ?thesis if "\<exists>e. r = Inl e" "ss_step 1 ss ss'" "shards_ok (x_crc x) (x_xxh3 x) ss' m"
    using that f by (auto intro!: handledI [where m' = m] answers_same)
  consider (some) s1 where "?g = Some (Inr (m ?k), s1)" | (down) e s1 where "?g = Some (Inl e, s1)" | (none) "?g = None"
    using shards_get_ok [OF ok, of ?k "tenant_u128 t"] by (cases ?g) auto
  then show ?thesis
  proof cases
    case some
    then have "rec_fits ?k ?new"
      using fits by simp
    note s = shards_append_ok [OF ok crc room refl this r]
    show ?thesis
    proof (cases r)
      case (Inl e)
      then show ?thesis
        using fail s by auto
    next
      case (Inr n)
      have "view t (m(?k \<mapsto> ?new)) = (view t m)(key \<mapsto> (case view t m key of None \<Rightarrow> [] | Some cur \<Rightarrow> cur) @ val)"
        by (simp add: view_upd) (simp add: view_def)
      then show ?thesis
        using s f Inr by (auto intro!: handledI [where m' = "m(?k \<mapsto> ?new)"] answers_spec simp: Let_def) (simp add: view_def)
    qed
  next
    case down
    then show ?thesis
      using append_shard_down [OF down ok] r fail ok ss_step_mono [OF ss_step_refl, of 1 ss] by auto
  next
    case none
    have "ss_read_only ss"
      using append_diverges [OF none, of val Kernel "disk_limit ctx t"] r by simp
    from append_read_only [OF this r ok] show ?thesis
      using fail by blast
  qed
qed

text \<open>The commands over several keys.\<close>

lemma scope_key_image [simp]: "scope_key t k \<in> scope_key t ` E \<longleftrightarrow> k \<in> E"
  by auto

lemma answers_shrink:
  assumes "(\<exists>e. f = shard_error_frame e)" and "\<And>k. m' k = m k \<or> m' k = snd (kv_spec cmd m) k"
  shows "kv_answers cmd m f m'"
  using assms by (auto simp: kv_answers_def)

lemma del_keys_ok:
  assumes "shards_ok (x_crc x) (x_xxh3 x) ss m" and "crc_zero_ok (x_crc x)"
    and "list_all (\<lambda>k. rec_fits (scope_key t k) []) keys" and "shards_room (length keys) ss"
    and "del_keys x t ss keys n = Some (f, ss')"
  shows "ss_step (length keys) ss ss' \<and> (\<exists>E\<subseteq>set keys. shards_ok (x_crc x) (x_xxh3 x) ss' (m |` (- scope_key t ` E)) \<and>
    (E = set keys \<and> f = Frame_Integer (n + int (card (set keys \<inter> dom (view t m)))) \<or> (\<exists>e. f = shard_error_frame e)))"
  using assms
proof (induction keys arbitrary: ss m n)
  case Nil
  then show ?case
    by (auto simp: restrict_map_def)
next
  case (Cons k keys)
  obtain r s1 where r: "shards_del (x_crc x) (x_xxh3 x) ss (scope_key t k) Kernel = Some (r, s1)"
    and rest: "case r of Inr b \<Rightarrow> del_keys x t s1 keys (if b then n + 1 else n) = Some (f, ss')
      | Inl e \<Rightarrow> f = shard_error_frame e \<and> ss' = s1"
    using Cons.prems(5) by (auto split: option.splits sum.splits)
  have "rec_fits (scope_key t k) []" "shards_room 1 ss"
    using Cons.prems(3,4) shards_room_mono [of "length (k # keys)" ss 1] by auto
  note s = shards_del_ok [OF Cons.prems(1,2) this r]
  show ?case
  proof (cases r)
    case (Inl e)
    then show ?thesis
      using s rest ss_step_mono [of 1 ss ss' "length (k # keys)"] by (auto simp: restrict_map_def intro!: exI [of _ "{}"])
  next
    case (Inr b)
    let ?m = "m(scope_key t k := None)"
    have room: "shards_room (length keys) s1"
      using s ss_step_room [of 1 ss s1 "length keys"] Cons.prems(4) by simp
    have s1: "shards_ok (x_crc x) (x_xxh3 x) s1 ?m" "list_all (\<lambda>k. rec_fits (scope_key t k) []) keys"
      "del_keys x t s1 keys (if b then n + 1 else n) = Some (f, ss')"
      using s Inr rest Cons.prems(3) by auto
    obtain E where E: "ss_step (length keys) s1 ss'" "E \<subseteq> set keys" "shards_ok (x_crc x) (x_xxh3 x) ss' (?m |` (- scope_key t ` E))"
      "E = set keys \<and> f = Frame_Integer ((if b then n + 1 else n) + int (card (set keys \<inter> dom (view t ?m)))) \<or> (\<exists>e. f = shard_error_frame e)"
      using Cons.IH [OF s1(1) Cons.prems(2) s1(2) room s1(3)] by blast
    have "?m |` (- scope_key t ` E) = m |` (- scope_key t ` insert k E)"
      by (auto simp: restrict_map_def)
    moreover have "(if b then n + 1 else n) + int (card (set keys \<inter> dom (view t ?m))) = n + int (card (set (k # keys) \<inter> dom (view t m)))"
    proof -
      have "set (k # keys) \<inter> dom (view t m) = (if b then insert k else id) (set keys \<inter> dom (view t ?m))" "k \<notin> dom (view t ?m)"
        using s Inr by (auto simp: view_def split: if_splits)
      then show ?thesis
        by (auto split: if_splits)
    qed
    moreover have "ss_step (length (k # keys)) ss ss'"
      using ss_step_trans [of 1 ss s1 "length keys" ss'] s E(1) by simp
    ultimately show ?thesis
      using E by (intro conjI exI [of _ "insert k E"]) auto
  qed
qed

lemma kv_del_ok:
  assumes ok: "shards_ok (x_crc x) (x_xxh3 x) ss m" and crc: "crc_zero_ok (x_crc x)"
    and c: "\<not> list_ex (\<lambda>k. anon_key_collides_with_tenant t k ctx) keys"
    and fits: "cmd_fits x t ss (Cmd_Del keys)" and room: "shards_room (length keys) ss"
    and ex: "kv_del x keys ss t ctx = Some (f, ss')"
  shows "ss_step (length keys) ss ss' \<and> handled x t (Cmd_Del keys) m f ss'"
proof (cases "keys = []")
  case True
  then show ?thesis
    using ex ok by (auto simp: kv_del_def intro!: handledI [where m' = m] answers_spec)
next
  case False
  then have "del_keys x t ss keys 0 = Some (f, ss')"
    using ex c by (simp add: kv_del_def)
  from del_keys_ok [OF ok crc fits [simplified] room this]
  obtain E where E: "ss_step (length keys) ss ss'" "E \<subseteq> set keys" "shards_ok (x_crc x) (x_xxh3 x) ss' (m |` (- scope_key t ` E))"
    "E = set keys \<and> f = Frame_Integer (int (card (set keys \<inter> dom (view t m)))) \<or> (\<exists>e. f = shard_error_frame e)"
    by auto
  have v: "view t (m |` (- scope_key t ` E)) = view t m |` (- E)"
    by (simp add: view_def restrict_map_def)
  have "kv_answers (Cmd_Del keys) (view t m) f (view t (m |` (- scope_key t ` E)))"
    unfolding v using E(2,4) False by (auto simp: kv_answers_def restrict_map_def)
  moreover have "(m |` (- scope_key t ` E)) key = m key" if "key \<notin> scope_key t ` set keys" for key
    using that image_mono [OF E(2), of "scope_key t"] by (auto simp: restrict_map_def)
  ultimately show ?thesis
    using E(1) by (auto intro!: handledI [OF E(3)])
qed
lemma exists_keys_ok:
  assumes "shards_ok (x_crc x) (x_xxh3 x) ss m" and "exists_keys x t ss keys n = Some (f, ss')"
  shows "ss_step 0 ss ss' \<and> shards_ok (x_crc x) (x_xxh3 x) ss' m \<and>
    (f = Frame_Integer (n + int (length (filter (\<lambda>k. view t m k \<noteq> None) keys))) \<or> (\<exists>e. f = shard_error_frame e))"
  using assms
proof (induction keys arbitrary: ss n)
  case (Cons k keys)
  obtain r s1 where r: "shards_get (x_crc x) (x_xxh3 x) ss (scope_key t k) (tenant_u128 t) = Some (r, s1)"
    and rest: "case r of Inr v \<Rightarrow> exists_keys x t s1 keys (if v = None then n else n + 1) = Some (f, ss')
      | Inl e \<Rightarrow> f = shard_error_frame e \<and> ss' = s1"
    using Cons.prems(2) by (auto split: option.splits sum.splits)
  note s = shards_get_ok [OF Cons.prems(1) r]
  show ?case
  proof (cases r)
    case (Inr v)
    have v: "v = view t m k"
      using s Inr by (auto simp: view_def)
    have IH: "ss_step 0 s1 ss' \<and> shards_ok (x_crc x) (x_xxh3 x) ss' m \<and>
      (f = Frame_Integer ((if v = None then n else n + 1) + int (length (filter (\<lambda>k. view t m k \<noteq> None) keys))) \<or> (\<exists>e. f = shard_error_frame e))"
      by (rule Cons.IH) (use s rest Inr in auto)
    then show ?thesis
      using s ss_step_trans [of 0 ss s1 0 ss'] by (auto simp: v split: if_splits)
  qed (use s rest in auto)
qed auto

lemma kv_exists_ok:
  assumes ok: "shards_ok (x_crc x) (x_xxh3 x) ss m" and c: "\<not> list_ex (\<lambda>k. anon_key_collides_with_tenant t k ctx) keys"
    and ex: "kv_exists x keys ss t ctx = Some (f, ss')"
  shows "ss_step 0 ss ss' \<and> handled x t (Cmd_Exists keys) m f ss'"
proof (cases "keys = []")
  case True
  then show ?thesis
    using ex ok by (auto simp: kv_exists_def intro!: handledI [where m' = m] answers_spec)
next
  case False
  then have "exists_keys x t ss keys 0 = Some (f, ss')"
    using ex c by (simp add: kv_exists_def)
  note s = exists_keys_ok [OF ok this]
  then have "kv_answers (Cmd_Exists keys) (view t m) f (view t m)"
    using False by (auto simp: kv_answers_def)
  then show ?thesis
    using s by (auto intro!: handledI [where m' = m])
qed

lemma mget_keys_ok:
  assumes "shards_ok (x_crc x) (x_xxh3 x) ss m" and "mget_keys x t ss keys out = Some (f, ss')"
  shows "ss_step 0 ss ss' \<and> shards_ok (x_crc x) (x_xxh3 x) ss' m \<and>
    (f = Frame_Array (out @ map (\<lambda>k. value_frame (view t m k)) keys) \<or> (\<exists>e. f = shard_error_frame e))"
  using assms
proof (induction keys arbitrary: ss out)
  case (Cons k keys)
  obtain r s1 where r: "shards_get (x_crc x) (x_xxh3 x) ss (scope_key t k) (tenant_u128 t) = Some (r, s1)"
    and rest: "case r of Inr v \<Rightarrow> mget_keys x t s1 keys (out @ [value_frame v]) = Some (f, ss')
      | Inl e \<Rightarrow> f = shard_error_frame e \<and> ss' = s1"
    using Cons.prems(2) by (auto simp: value_frame_def split: option.splits sum.splits)
  note s = shards_get_ok [OF Cons.prems(1) r]
  show ?case
  proof (cases r)
    case (Inr v)
    have v: "v = view t m k"
      using s Inr by (auto simp: view_def)
    have IH: "ss_step 0 s1 ss' \<and> shards_ok (x_crc x) (x_xxh3 x) ss' m \<and>
      (f = Frame_Array ((out @ [value_frame v]) @ map (\<lambda>k. value_frame (view t m k)) keys) \<or> (\<exists>e. f = shard_error_frame e))"
      by (rule Cons.IH) (use s rest Inr in auto)
    then show ?thesis
      using s ss_step_trans [of 0 ss s1 0 ss'] by (auto simp: v)
  qed (use s rest in auto)
qed auto

lemma kv_mget_ok:
  assumes ok: "shards_ok (x_crc x) (x_xxh3 x) ss m" and c: "\<not> list_ex (\<lambda>k. anon_key_collides_with_tenant t k ctx) keys"
    and ex: "kv_mget x keys ss t ctx = Some (f, ss')"
  shows "ss_step 0 ss ss' \<and> handled x t (Cmd_Mget keys) m f ss'"
proof (cases "keys = []")
  case True
  then show ?thesis
    using ex ok by (auto simp: kv_mget_def intro!: handledI [where m' = m] answers_spec)
next
  case False
  then have "mget_keys x t ss keys [] = Some (f, ss')"
    using ex c by (simp add: kv_mget_def)
  note s = mget_keys_ok [OF ok this]
  then have "kv_answers (Cmd_Mget keys) (view t m) f (view t m)"
    using False by (auto simp: kv_answers_def)
  then show ?thesis
    using s by (auto intro!: handledI [where m' = m])
qed

lemma chunks2_pairs: "chunks2 (concat (map (\<lambda>(k, v). [k, v]) ps)) = ps"
  by (induction ps) auto

lemma pairs_even: "length (concat (map (\<lambda>(k, v). [k, v]) ps)) = 2 * length ps"
  by (induction ps) auto

lemma kv_mset_ok:
  assumes ok: "shards_ok (x_crc x) (x_xxh3 x) ss m" and crc: "crc_zero_ok (x_crc x)"
    and c: "\<not> list_ex (\<lambda>(k, _). anon_key_collides_with_tenant t k ctx) ps"
    and fits: "cmd_fits x t ss (Cmd_Mset ps)" and room: "shards_room (n_shards ss * Suc (length ps)) ss"
    and ex: "kv_mset x (concat (map (\<lambda>(k, v). [k, v]) ps)) ss t ctx = Some (f, ss')"
  shows "ss_step (n_shards ss * Suc (length ps)) ss ss' \<and> handled x t (Cmd_Mset ps) m f ss'"
proof (cases "ps = []")
  case True
  then show ?thesis
    using ex ok ss_step_mono [OF ss_step_refl, of "n_shards ss * Suc 0" ss]
    by (auto simp: kv_mset_def intro!: handledI [where m' = m] answers_spec)
next
  case False
  let ?ps = "map (\<lambda>(k, v). (scope_key t k, v)) ps"
  have l: "concat (map (\<lambda>(k, v). [k, v]) ps) \<noteq> []" "even (length (concat (map (\<lambda>(k, v). [k, v]) ps)))"
    using False pairs_even [of ps] by (cases ps; auto)+
  obtain r where r: "shards_mset (x_crc x) (x_xxh3 x) ss ?ps Kernel = Some (r, ss')"
    and f: "f = (case r of Inr _ \<Rightarrow> frame_ok_reply | Inl e \<Rightarrow> shard_error_frame e)"
    using ex c l unfolding kv_mset_def chunks2_pairs by (cases "shards_mset (x_crc x) (x_xxh3 x) ss ?ps Kernel") (auto simp del: concat_eq_Nil_conv split: sum.splits)
  have "list_all (\<lambda>(k, v). rec_fits k v) ?ps" "shards_room (n_shards ss * Suc (length ?ps)) ss"
    using fits room by (auto simp: list_all_iff)
  from shards_mset_ok [OF ok crc this r] obtain m' where s: "ss_step (n_shards ss * Suc (length ps)) ss ss'"
    and m': "shards_ok (x_crc x) (x_xxh3 x) ss' m'" "\<And>k. m' k = m k \<or> m' k = map_writes m ?ps k" "r = Inr () \<longrightarrow> m' = map_writes m ?ps"
    by auto
  have "view t m' k = view t m k \<or> view t m' k = map_writes (view t m) ps k" for k
    using m'(2) [of "scope_key t k"] view_writes [of t m ps] by (auto simp: view_def fun_eq_iff)
  then have "kv_answers (Cmd_Mset ps) (view t m) f (view t m')"
    using f m'(3) False view_writes [of t m ps] by (cases r) (auto simp: kv_answers_def)
  moreover have "m' key = m key" if "key \<notin> scope_key t ` set (cmd_keys (Cmd_Mset ps))" for key
  proof -
    have "key \<notin> fst ` set ?ps"
      using that by (auto simp: image_iff)
    then show ?thesis
      using m'(2) [of key] map_writes_other [of key ?ps m] by auto
  qed
  ultimately show ?thesis
    using s m'(1) by (auto intro: handledI)
qed

lemma length_dec_text: "n < 10 ^ d \<Longrightarrow> 0 < d \<Longrightarrow> length (dec_text n) \<le> d"
proof (induction d arbitrary: n)
  case (Suc d)
  show ?case
  proof (cases "n < 10")
    case False
    then have "0 < d" "n div 10 < 10 ^ d"
      using Suc.prems by (cases d; simp)+
    then show ?thesis
      using Suc.IH [of "n div 10"] False by (simp add: dec_text.simps [of n])
  qed (simp add: dec_text.simps [of n])
qed simp

lemma length_int_text: "is_i64 i \<Longrightarrow> length (int_text i) \<le> 20"
proof -
  assume i: "is_i64 i"
  have "nat (- i) < 10 ^ 19" "nat i < 10 ^ 19"
    using i by (auto simp: is_i64_def)
  then show ?thesis
    using length_dec_text [of "nat (- i)" 19] length_dec_text [of "nat i" 19] by (auto simp: int_text_def)
qed

lemma incr_fits: "rec_fits k (replicate 20 0) \<Longrightarrow> is_i64 i \<Longrightarrow> rec_fits k (int_text i)"
  using padded_mono [OF length_int_text, of i "length k"] by (simp add: rec_fits_def)

lemma incr_read_ok:
  assumes ok: "shards_ok (x_crc x) (x_xxh3 x) ss m" and ex: "incr_read x key ss t = Some (r, ss')"
  shows "ss_step 0 ss ss' \<and> shards_ok (x_crc x) (x_xxh3 x) ss' m \<and>
    (case r of Inr n \<Rightarrow> stored_int (m key) = Some n
     | Inl f \<Rightarrow> f = Frame_Error (lit ''ERR value is not an integer or out of range'') \<and> stored_int (m key) = None \<or>
         (\<exists>e. f = shard_error_frame e))"
proof -
  obtain r0 where r0: "shards_get (x_crc x) (x_xxh3 x) ss key t = Some (r0, ss')"
    and r: "r = (case r0 of Inl e \<Rightarrow> Inl (shard_error_frame e) | Inr v \<Rightarrow>
      (case stored_int v of Some n \<Rightarrow> Inr n | None \<Rightarrow> Inl (Frame_Error (lit ''ERR value is not an integer or out of range''))))"
    using ex by (auto simp: incr_read_def stored_int_def split: option.splits sum.splits)
  show ?thesis
    using shards_get_ok [OF ok r0] by (auto simp: r split: option.splits)
qed

lemma incr_write_ok:
  assumes ok: "shards_ok (x_crc x) (x_xxh3 x) ss m" and crc: "crc_zero_ok (x_crc x)"
    and fits: "rec_fits key (replicate 20 0)" and room: "shards_room 1 ss"
    and ex: "incr_write x key cur delta ss t = Some (f, ss')"
  shows "ss_step 1 ss ss' \<and>
    (f = Frame_Integer (cur + delta) \<and> is_i64 (cur + delta) \<and> shards_ok (x_crc x) (x_xxh3 x) ss' (m(key \<mapsto> int_text (cur + delta))) \<or>
     f = Frame_Error (lit ''ERR increment or decrement would overflow'') \<and> \<not> is_i64 (cur + delta) \<and> shards_ok (x_crc x) (x_xxh3 x) ss' m \<or>
     (\<exists>e. f = shard_error_frame e) \<and> shards_ok (x_crc x) (x_xxh3 x) ss' m)"
proof (cases "is_i64 (cur + delta)")
  case False
  then show ?thesis
    using ex ok ss_step_mono [OF ss_step_refl, of 1 ss] by (auto simp: incr_write_def)
next
  case True
  then obtain r where r: "shards_set (x_crc x) (x_xxh3 x) ss key (int_text (cur + delta)) Kernel t None = Some (r, ss')"
    and f: "f = (case r of Inr _ \<Rightarrow> Frame_Integer (cur + delta) | Inl e \<Rightarrow> shard_error_frame e)"
    using ex by (auto simp: incr_write_def Let_def split: option.splits sum.splits)
  from shards_set_ok [OF ok crc incr_fits [OF fits True] room r] show ?thesis
    using True f by (cases r) auto
qed

lemma incr_apply_ok:
  assumes ok: "shards_ok (x_crc x) (x_xxh3 x) ss m" and crc: "crc_zero_ok (x_crc x)"
    and fits: "rec_fits (scope_key t key) (replicate 20 0)" and room: "shards_room 1 ss"
    and ex: "incr_apply x (scope_key t key) delta ss (tenant_u128 t) = Some (f, ss')"
    and cmd: "kv_spec cmd = (\<lambda>m. incr_spec m key delta)" "cmd_keys cmd = [key]"
  shows "ss_step 1 ss ss' \<and> handled x t cmd m f ss'"
proof -
  obtain r s1 where r: "incr_read x (scope_key t key) ss (tenant_u128 t) = Some (r, s1)"
    and rest: "case r of Inl e \<Rightarrow> f = e \<and> ss' = s1 | Inr n \<Rightarrow> incr_write x (scope_key t key) n delta s1 (tenant_u128 t) = Some (f, ss')"
    using ex by (auto simp: incr_apply_def split: option.splits sum.splits)
  note rd = incr_read_ok [OF ok r]
  show ?thesis
  proof (cases r)
    case (Inl e)
    then have "kv_answers cmd (view t m) f (view t m)" "ss_step 1 ss ss'" "shards_ok (x_crc x) (x_xxh3 x) ss' m"
      using rd rest ss_step_mono [of 0 ss ss' 1] by (auto simp: kv_answers_def cmd incr_spec_def view_def)
    then show ?thesis
      by (auto intro: handledI [where m' = m])
  next
    case (Inr n)
    have n: "stored_int (view t m key) = Some n" and s1: "shards_ok (x_crc x) (x_xxh3 x) s1 m" "shards_room 1 s1" "ss_step 0 ss s1"
      using rd Inr ss_step_room [of 0 ss s1 1] room by (auto simp: view_def)
    note wr = incr_write_ok [OF s1(1) crc fits s1(2), of n delta "tenant_u128 t" f ss']
    have st: "ss_step 1 ss ss'"
      using wr rest Inr ss_step_trans [OF s1(3), of 1 ss'] by simp
    from wr rest Inr consider
      "f = Frame_Integer (n + delta)" "is_i64 (n + delta)" "shards_ok (x_crc x) (x_xxh3 x) ss' (m(scope_key t key \<mapsto> int_text (n + delta)))"
      | "kv_answers cmd (view t m) f (view t m)" "shards_ok (x_crc x) (x_xxh3 x) ss' m"
      by (auto simp: kv_answers_def cmd incr_spec_def n)
    then show ?thesis
    proof cases
      case 1
      then show ?thesis
        using st by (auto simp: cmd incr_spec_def n view_upd intro!: handledI [OF 1(3)] answers_spec)
    next
      case 2
      then show ?thesis
        using st by (auto intro: handledI [where m' = m])
    qed
  qed
qed

text \<open>
  A command of a tenant none of whose keys is refused is answered for that tenant's map.
\<close>

fun is_kv :: "resp_command \<Rightarrow> bool" where
  "is_kv (Cmd_Get _) = True"
| "is_kv (Cmd_Set _ _) = True"
| "is_kv (Cmd_Append _ _) = True"
| "is_kv (Cmd_Del _) = True"
| "is_kv (Cmd_Exists _) = True"
| "is_kv (Cmd_Mget _) = True"
| "is_kv (Cmd_Mset _) = True"
| "is_kv (Cmd_Incr _) = True"
| "is_kv (Cmd_Decr _) = True"
| "is_kv (Cmd_IncrBy _ _) = True"
| "is_kv (Cmd_DecrBy _ _) = True"
| "is_kv _ = False"

definition forges :: "tenant_id \<Rightarrow> auth_backend option \<Rightarrow> resp_command \<Rightarrow> bool" where
  "forges t ctx cmd \<longleftrightarrow> list_ex (\<lambda>k. anon_key_collides_with_tenant t k ctx) (cmd_keys cmd)"

lemma dispatch_kv_ok:
  assumes ok: "shards_ok (x_crc x) (x_xxh3 x) ss m" and crc: "crc_zero_ok (x_crc x)" and kv: "is_kv cmd"
    and nf: "\<not> forges t ctx cmd" and fits: "cmd_fits x t ss cmd" and room: "shards_room (cmd_room (n_shards ss) cmd) ss"
    and ex: "dispatch_kv x cmd ss t ctx = Some (f, ss')"
  shows "ss_step (cmd_room (n_shards ss) cmd) ss ss' \<and> handled x t cmd m f ss'"
proof (cases cmd)
  case (Cmd_Get k)
  then show ?thesis
    using kv_get_ok [OF ok, of t k ctx f ss'] nf ex by (simp add: forges_def)
next
  case (Cmd_Set k v)
  then show ?thesis
    using kv_set_ok [OF ok crc, of t k ctx v f ss'] nf ex fits room by (simp add: forges_def)
next
  case (Cmd_Append k v)
  then show ?thesis
    using kv_append_ok [OF ok crc, of t k ctx v f ss'] nf ex fits room by (simp add: forges_def del: cmd_fits.simps)
next
  case (Cmd_Del ks)
  then show ?thesis
    using kv_del_ok [OF ok crc, of t ctx ks f ss'] nf ex fits room by (simp add: forges_def)
next
  case (Cmd_Exists ks)
  then show ?thesis
    using kv_exists_ok [OF ok, of t ctx ks f ss'] nf ex by (simp add: forges_def)
next
  case (Cmd_Mget ks)
  then show ?thesis
    using kv_mget_ok [OF ok, of t ctx ks f ss'] nf ex by (simp add: forges_def)
next
  case (Cmd_Mset ps)
  have "\<not> list_ex (\<lambda>(k, _). anon_key_collides_with_tenant t k ctx) ps"
    using nf by (auto simp: forges_def Cmd_Mset list_ex_iff)
  then show ?thesis
    using kv_mset_ok [OF ok crc _ _ _ , of t ctx ps f ss'] ex fits room by (simp add: Cmd_Mset)
next
  case (Cmd_Incr k)
  then show ?thesis
    using incr_apply_ok [OF ok crc, of t k 1 f ss' cmd] nf ex fits room by (simp add: forges_def kv_incr_by_def fun_eq_iff)
next
  case (Cmd_Decr k)
  then show ?thesis
    using incr_apply_ok [OF ok crc, of t k "- 1" f ss' cmd] nf ex fits room by (simp add: forges_def kv_incr_by_def fun_eq_iff)
next
  case (Cmd_IncrBy k d)
  then show ?thesis
    using incr_apply_ok [OF ok crc, of t k d f ss' cmd] nf ex fits room by (simp add: forges_def kv_incrby_apply_def fun_eq_iff)
next
  case (Cmd_DecrBy k d)
  show ?thesis
  proof (cases "is_i64 (- d)")
    case True
    then show ?thesis
      using incr_apply_ok [OF ok crc, of t k "- d" f ss' cmd] nf ex fits room
      by (simp add: Cmd_DecrBy forges_def kv_incrby_apply_def kv_decrby_def fun_eq_iff)
  next
    case False
    then show ?thesis
      using ex ok ss_step_mono [OF ss_step_refl, of 1 ss]
      by (auto simp: Cmd_DecrBy kv_decrby_def intro!: handledI [where m' = m] answers_spec)
  qed
qed (use kv in simp_all)

subsection \<open>Tenants in one server\<close>

lemma forges_keeps:
  assumes "is_kv cmd" and "forges t ctx cmd" and "dispatch_kv x cmd ss t ctx = Some (f, ss')"
  shows "ss' = ss \<and> (\<exists>e. f = Frame_Error e)"
proof -
  have "list_ex (\<lambda>(k, _). anon_key_collides_with_tenant t k ctx) ps \<longleftrightarrow> list_ex (\<lambda>k. anon_key_collides_with_tenant t k ctx) (map fst ps)"
    for ps :: "(bytes \<times> bytes) list"
    by (induction ps) auto
  then show ?thesis
    using assms
    by (cases cmd) (auto simp: forges_def kv_get_def kv_set_def kv_append_def kv_del_def kv_exists_def kv_mget_def
      kv_mset_def kv_incr_by_def kv_incrby_apply_def kv_decrby_def anon_forgery_error_def wrong_arity_def chunks2_pairs
      split: if_splits)
qed

text \<open>No key another client is allowed to name lies in the namespace of a tenant that can log in.\<close>

lemma other_keys:
  assumes "u \<noteq> t" and "\<not> tenant_is_zero t" and "be_has_tenant b t" and "\<not> forges u (Some b) cmd"
  shows "scope_key t k \<notin> scope_key u ` set (cmd_keys cmd)"
proof
  assume "scope_key t k \<in> scope_key u ` set (cmd_keys cmd)"
  then obtain k' where k': "k' \<in> set (cmd_keys cmd)" "scope_key t k = scope_key u k'"
    by auto
  show False
  proof (cases "tenant_is_zero u")
    case True
    then have "k' = tenant_as_bytes t @ k"
      using k'(2) assms(2) by (simp add: scope_key_def)
    then have "anon_key_collides_with_tenant u k' (Some b)"
      using True assms(2,3) by (simp add: anon_key_collides_with_tenant_def TENANT_LEN_def)
    then show False
      using assms(4) k'(1) by (auto simp: forges_def list_ex_iff)
  next
    case False
    then have "tenant_as_bytes t @ k = tenant_as_bytes u @ k'"
      using k'(2) assms(2) by (simp add: scope_key_def)
    then have "tenant_as_bytes t = tenant_as_bytes u"
      by (metis append_eq_append_conv length_tenant_as_bytes)
    then show False
      using assms(1) by (simp add: tenant_as_bytes_inj)
  qed
qed

lemma bound_never_forges: "\<not> tenant_is_zero t \<Longrightarrow> \<not> forges t ctx cmd"
  by (auto simp: forges_def list_ex_iff anon_key_collides_with_tenant_def)

text \<open>The commands of all connections in the order the server executes them, each with its tenant.\<close>

fun serve :: "externals \<Rightarrow> auth_backend option \<Rightarrow> shard_set \<Rightarrow> (tenant_id \<times> resp_command) list \<Rightarrow> (resp_frame list \<times> shard_set) option" where
  "serve x ctx ss [] = Some ([], ss)"
| "serve x ctx ss ((t, cmd) # hist) =
    (case dispatch_kv x cmd ss t ctx of
       None \<Rightarrow> None
     | Some (f, ss) \<Rightarrow> map_option (map_prod ((#) f) id) (serve x ctx ss hist))"

fun serve_fits :: "externals \<Rightarrow> auth_backend option \<Rightarrow> shard_set \<Rightarrow> (tenant_id \<times> resp_command) list \<Rightarrow> bool" where
  "serve_fits x ctx ss [] = True"
| "serve_fits x ctx ss ((t, cmd) # hist) \<longleftrightarrow> is_kv cmd \<and> cmd_fits x t ss cmd \<and>
    (case dispatch_kv x cmd ss t ctx of None \<Rightarrow> True | Some (f, ss) \<Rightarrow> serve_fits x ctx ss hist)"

definition serve_room :: "nat \<Rightarrow> (tenant_id \<times> resp_command) list \<Rightarrow> nat" where
  "serve_room n hist = sum_list (map (\<lambda>(_, cmd). cmd_room n cmd) hist)"

text \<open>A tenant's own exchange, and a map that explains it.\<close>

fun own :: "tenant_id \<Rightarrow> (tenant_id \<times> resp_command) list \<Rightarrow> resp_frame list \<Rightarrow> (resp_command \<times> resp_frame) list" where
  "own t ((u, cmd) # hist) (f # fs) = (if u = t then [(cmd, f)] else []) @ own t hist fs"
| "own t _ _ = []"

inductive private_run :: "(bytes \<Rightarrow> bytes option) \<Rightarrow> (resp_command \<times> resp_frame) list \<Rightarrow> (bytes \<Rightarrow> bytes option) \<Rightarrow> bool" where
  private_Nil: "private_run m [] m"
| private_Cons: "kv_answers cmd m f m' \<Longrightarrow> private_run m' h m'' \<Longrightarrow> private_run m ((cmd, f) # h) m''"

inductive_simps private_run_simps: "private_run m [] m'" "private_run m ((cmd, f) # h) m'"

lemma serve_isolated:
  assumes "shards_ok (x_crc x) (x_xxh3 x) ss m" and "crc_zero_ok (x_crc x)" and "be_has_tenant b t" and "\<not> tenant_is_zero t"
    and "serve_fits x (Some b) ss hist" and "shards_room (serve_room (n_shards ss) hist) ss"
    and "serve x (Some b) ss hist = Some (fs, ss')"
  shows "\<exists>m'. shards_ok (x_crc x) (x_xxh3 x) ss' m' \<and> private_run (view t m) (own t hist fs) (view t m')"
  using assms
proof (induction hist arbitrary: ss m fs)
  case Nil
  then show ?case
    by (auto simp: private_run_simps)
next
  case (Cons h hist)
  obtain u cmd where h: "h = (u, cmd)"
    by force
  obtain f s1 fs' where d: "dispatch_kv x cmd ss u (Some b) = Some (f, s1)" and sv: "serve x (Some b) s1 hist = Some (fs', ss')"
    and fs: "fs = f # fs'"
    using Cons.prems(7) by (auto simp: h split: option.splits)
  have f: "is_kv cmd" "cmd_fits x u ss cmd" "serve_fits x (Some b) s1 hist"
    using Cons.prems(5) d by (auto simp: h)
  have room: "shards_room (cmd_room (n_shards ss) cmd + serve_room (n_shards ss) hist) ss"
    using Cons.prems(6) by (simp add: serve_room_def h)
  have "\<exists>m1. shards_ok (x_crc x) (x_xxh3 x) s1 m1 \<and> shards_room (serve_room (n_shards s1) hist) s1 \<and>
    (if u = t then kv_answers cmd (view t m) f (view t m1) else view t m1 = view t m)"
  proof (cases "forges u (Some b) cmd")
    case True
    then have "u \<noteq> t" "s1 = ss"
      using bound_never_forges [OF Cons.prems(4)] forges_keeps [OF f(1) True d] by auto
    then show ?thesis
      using Cons.prems(1) shards_room_mono [OF room, of "serve_room (n_shards ss) hist"] by auto
  next
    case False
    have r: "shards_room (cmd_room (n_shards ss) cmd) ss"
      by (rule shards_room_mono [OF room]) simp
    from dispatch_kv_ok [OF Cons.prems(1,2) f(1) False f(2) r d]
    obtain m1 where st: "ss_step (cmd_room (n_shards ss) cmd) ss s1" and m1: "shards_ok (x_crc x) (x_xxh3 x) s1 m1"
      "kv_answers cmd (view u m) f (view u m1)" "\<forall>key. key \<notin> scope_key u ` set (cmd_keys cmd) \<longrightarrow> m1 key = m key"
      by (auto simp: handled_def)
    have "shards_room (serve_room (n_shards s1) hist) s1"
      using ss_step_room [OF st room] st by (simp add: ss_step_def)
    moreover have "view t m1 = view t m" if "u \<noteq> t"
      using m1(3) other_keys [OF that Cons.prems(4,3) False] by (simp add: view_def fun_eq_iff)
    ultimately show ?thesis
      using m1 by auto
  qed
  then obtain m1 where m1: "shards_ok (x_crc x) (x_xxh3 x) s1 m1" "shards_room (serve_room (n_shards s1) hist) s1"
    "if u = t then kv_answers cmd (view t m) f (view t m1) else view t m1 = view t m"
    by blast
  from Cons.IH [OF m1(1) Cons.prems(2-4) f(3) m1(2) sv]
  obtain m' where "shards_ok (x_crc x) (x_xxh3 x) ss' m'" "private_run (view t m1) (own t hist fs') (view t m')"
    by blast
  then show ?case
    using m1(3) by (cases "u = t") (auto simp: h fs intro: private_Cons)
qed


definition demo_x :: externals where
  "demo_x = \<lparr>x_crc = (\<lambda>_. 5), x_xxh3 = (\<lambda>_. 7), x_xxh3_128 = (\<lambda>_. 3), x_phc = (\<lambda>_. True),
    x_argon = (\<lambda>pw h. True), x_version = lit ''1''\<rparr>"

definition demo_shards :: shard_set where
  "demo_shards = projr (shards_open (\<lambda>_. 5) (\<lambda>_. 7) 256 (replicate 2 empty_dir) False)"

definition demo_hist :: "(tenant_id \<times> resp_command) list" where
  "demo_hist = [(7, Cmd_Set [1] [50]), (9, Cmd_Set [1] [3]), (0, Cmd_Set (tenant_as_bytes 7 @ [1]) [4]),
    (7, Cmd_Incr [1]), (9, Cmd_Del [[1]]), (7, Cmd_Mget [[1], [2]])]"

lemma demo_shards_open: "shards_open (\<lambda>_. 5) (\<lambda>_. 7) 256 (replicate 2 empty_dir) False = Inr demo_shards"
proof -
  have "\<not> isl (shards_open (\<lambda>_. 5) (\<lambda>_. 7) 256 (replicate 2 empty_dir) False)"
    by code_simp
  then show ?thesis
    by (simp add: demo_shards_def)
qed

lemma demo_serve_fits: "serve_fits demo_x (Some demo_backend) demo_shards demo_hist"
  by code_simp

lemma demo_serve: "map_option fst (serve demo_x (Some demo_backend) demo_shards demo_hist) =
    Some [frame_ok_reply, frame_ok_reply, anon_forgery_error, Frame_Integer 3, Frame_Integer 1, Frame_Array [Frame_Bulk [51], Frame_Null]]"
  by code_simp


subsection \<open>Concurrent increments\<close>

lemma stored_int_text: "is_i64 i \<Longrightarrow> stored_int (Some (int_text i)) = Some i"
  by (simp add: stored_int_def int_text_line parse_i64_text)

text \<open>
  C40: INCR is not atomic across connections. When the reads of two increments of one key both come
  before their writes, both clients are told the same new value and the counter has gone up by one.
\<close>

theorem incr_lost_update:
  assumes "shards_ok (x_crc x) (x_xxh3 x) ss m" and "crc_zero_ok (x_crc x)" and "rec_fits key (replicate 20 0)" and "shards_room 2 ss"
    and "incr_read x key ss t = Some (Inr a, s1)" and "incr_read x key s1 t = Some (Inr b, s2)"
    and "incr_write x key a 1 s2 t = Some (Frame_Integer p, s3)" and "incr_write x key b 1 s3 t = Some (Frame_Integer q, s4)"
  shows "p = q \<and> stored_int (m key) = Some (p - 1) \<and>
    (\<exists>m'. shards_ok (x_crc x) (x_xxh3 x) s4 m' \<and> stored_int (m' key) = Some p)"
proof -
  from incr_read_ok [OF assms(1,5)] have r1: "ss_step 0 ss s1" "shards_ok (x_crc x) (x_xxh3 x) s1 m" "stored_int (m key) = Some a"
    by simp_all
  from incr_read_ok [OF r1(2) assms(6)] r1(3) have r2: "ss_step 0 s1 s2" "shards_ok (x_crc x) (x_xxh3 x) s2 m" "b = a"
    by simp_all
  have room: "shards_room 2 s2"
    using assms(4) ss_step_room [OF r1(1), of 2] ss_step_room [OF r2(1), of 2] by (simp add: numeral_2_eq_2)
  from incr_write_ok [OF r2(2) assms(2,3) shards_room_mono [OF room] assms(7)]
  have w1: "ss_step 1 s2 s3" "p = a + 1" "shards_ok (x_crc x) (x_xxh3 x) s3 (m(key \<mapsto> int_text p))"
    by (auto simp: shard_error_frame_def)
  have "shards_room 1 s3"
    using ss_step_room [OF w1(1), of 1] room by (simp add: numeral_2_eq_2)
  from incr_write_ok [OF w1(3) assms(2,3) this assms(8)] r2(3)
  have w2: "q = a + 1" "is_i64 q" "shards_ok (x_crc x) (x_xxh3 x) s4 (m(key \<mapsto> int_text p, key \<mapsto> int_text q))"
    by (auto simp: shard_error_frame_def)
  then show ?thesis
    using w1(2) r1(3) stored_int_text [OF w2(2)] by (auto intro!: exI [of _ "m(key \<mapsto> int_text p, key \<mapsto> int_text q)"])
qed

definition demo_race :: "(int \<times> int \<times> resp_frame \<times> resp_frame) option" where
  "demo_race =
    (case incr_read demo_x [1] demo_shards 0 of
       Some (Inr a, s1) \<Rightarrow>
         (case incr_read demo_x [1] s1 0 of
            Some (Inr b, s2) \<Rightarrow>
              (case incr_write demo_x [1] a 1 s2 0 of
                 Some (f, s3) \<Rightarrow> map_option (\<lambda>(g, _). (a, b, f, g)) (incr_write demo_x [1] b 1 s3 0)
               | None \<Rightarrow> None)
          | _ \<Rightarrow> None)
     | _ \<Rightarrow> None)"

lemma demo_shards_ok: "shards_ok (x_crc demo_x) (x_xxh3 demo_x) demo_shards Map.empty \<and> shards_room 2 demo_shards"
proof -
  have c: "crc_zero_ok (\<lambda>_. 5)"
    by (simp add: crc_zero_ok_def)
  obtain s where "shards_open (\<lambda>_. 5) (\<lambda>_. 7) 256 (replicate 2 empty_dir) False = Inr s" "shards_ok (\<lambda>_. 5) (\<lambda>_. 7) s Map.empty"
    "shards_room 2 s"
    by (rule shards_open_empty [OF c, of 256 2 "\<lambda>_. 7" False]) auto
  then show ?thesis
    using demo_shards_open by (simp add: demo_x_def)
qed

theorem incr_lost_update_witness:
  "\<exists>s4 m'. shards_ok (x_crc demo_x) (x_xxh3 demo_x) s4 m' \<and> stored_int (m' [1]) = Some 1"
proof -
  have "demo_race = Some (0, 0, Frame_Integer 1, Frame_Integer 1)"
    by code_simp
  then obtain s1 s2 s3 s4 where s: "incr_read demo_x [1] demo_shards 0 = Some (Inr 0, s1)" "incr_read demo_x [1] s1 0 = Some (Inr 0, s2)"
    "incr_write demo_x [1] 0 1 s2 0 = Some (Frame_Integer 1, s3)" "incr_write demo_x [1] 0 1 s3 0 = Some (Frame_Integer 1, s4)"
    by (auto simp: demo_race_def split: option.splits sum.splits)
  have "crc_zero_ok (x_crc demo_x)" "rec_fits [1] (replicate 20 0)"
    by (simp add: demo_x_def crc_zero_ok_def) code_simp
  from incr_lost_update [OF conjunct1 [OF demo_shards_ok] this conjunct2 [OF demo_shards_ok] s] show ?thesis
    by blast
qed

end
