(* ===== verification/Server_Payload.thy ===== *)
theory Server_Payload
  imports Text "HOL-Library.List_Lexorder" "HOL-Library.Code_Target_Numeral"
begin

text \<open>
  The payload filters of a vector search (\<open>payload.rs\<close>): typed fields parsed from a payload blob, the
  index from field values to vector ids, the filter language with its evaluation over the index, and
  its tokenizer and recursive-descent parser. Ordered maps and sets are sorted lists; evaluation and
  parsing return \<open>None\<close> where the code panics or where the parser's fuel would run out.
\<close>

subsection \<open>Values and fields\<close>

datatype pvalue = Keyword bytes | PInt int

text \<open>The derived order: keywords before integers.\<close>

instantiation pvalue :: linorder
begin

fun less_eq_pvalue :: "pvalue \<Rightarrow> pvalue \<Rightarrow> bool" where
  "less_eq_pvalue (Keyword a) (Keyword b) \<longleftrightarrow> a \<le> b"
| "less_eq_pvalue (PInt i) (PInt j) \<longleftrightarrow> i \<le> j"
| "less_eq_pvalue (Keyword a) (PInt j) \<longleftrightarrow> True"
| "less_eq_pvalue (PInt i) (Keyword b) \<longleftrightarrow> False"

definition less_pvalue :: "pvalue \<Rightarrow> pvalue \<Rightarrow> bool" where
  "less_pvalue x y \<longleftrightarrow> x \<le> y \<and> \<not> y \<le> (x :: pvalue)"

instance
proof
  fix x y z :: pvalue
  show "x < y \<longleftrightarrow> x \<le> y \<and> \<not> y \<le> x"
    by (rule less_pvalue_def)
  show "x \<le> x"
    by (cases x) auto
  show "x \<le> z" if "x \<le> y" "y \<le> z"
    using that by (cases x; cases y; cases z) auto
  show "x = y" if "x \<le> y" "y \<le> x"
    using that by (cases x; cases y) auto
  show "x \<le> y \<or> y \<le> x"
    by (cases x; cases y) auto
qed

end

definition value_parse :: "bytes \<Rightarrow> pvalue" where
  "value_parse tok = (case parse_i64 tok of Some n \<Rightarrow> PInt n | None \<Rightarrow> Keyword tok)"

text \<open>\<open>split_once\<close> at the first equals sign.\<close>

fun split_eq :: "bytes \<Rightarrow> (bytes \<times> bytes) option" where
  "split_eq [] = None"
| "split_eq (b # bs) = (if b = 61 then Some ([], bs) else map_option (\<lambda>(k, v). (b # k, v)) (split_eq bs))"

definition parse_fields :: "bytes \<Rightarrow> (bytes \<times> pvalue) list" where
  "parse_fields blob =
    (case from_utf8 blob of
       None \<Rightarrow> []
     | Some text \<Rightarrow>
         map (\<lambda>(k, v). (k, value_parse v)) (filter (\<lambda>(k, _). k \<noteq> []) (List.map_filter split_eq (split_whitespace text))))"

subsection \<open>Ordered maps and sets\<close>

fun bt_insert :: "'k::linorder \<Rightarrow> 'v \<Rightarrow> ('k \<times> 'v) list \<Rightarrow> ('k \<times> 'v) list" where
  "bt_insert k v [] = [(k, v)]"
| "bt_insert k v ((k', v') # m) =
    (if k < k' then (k, v) # (k', v') # m else if k = k' then (k, v) # m else (k', v') # bt_insert k v m)"

definition bt_ok :: "('k::linorder \<times> 'v) list \<Rightarrow> bool" where
  "bt_ok m \<longleftrightarrow> sorted_wrt (<) (map fst m)"

definition bs_insert :: "u64 \<Rightarrow> u64 list \<Rightarrow> u64 list" where
  "bs_insert x s = (if x \<in> set s then s else insort x s)"

lemma map_of_bt_insert [simp]: "map_of (bt_insert k v m) = (map_of m)(k \<mapsto> v)"
  by (induction k v m rule: bt_insert.induct) (auto simp: fun_eq_iff)

lemma set_bt_insert: "fst ` set (bt_insert k v m) = insert k (fst ` set m)"
  by (induction k v m rule: bt_insert.induct) auto

lemma bt_insert_ok [simp]: "bt_ok m \<Longrightarrow> bt_ok (bt_insert k v m)"
proof (induction k v m rule: bt_insert.induct)
  case (2 k v k' v' m)
  then show ?case
    using set_bt_insert [of k v m] by (auto simp: bt_ok_def simp flip: set_map)
qed (simp add: bt_ok_def)

lemma bt_delete_ok [simp]: "bt_ok m \<Longrightarrow> bt_ok (AList.delete k m)"
  by (simp add: bt_ok_def sorted_wrt_map AList.delete_eq sorted_wrt_filter)

lemma bt_distinct: "bt_ok m \<Longrightarrow> distinct (map fst m)"
  by (simp add: bt_ok_def strict_sorted_iff)

lemma bs_insert_ok [simp]:
  "sorted (bs_insert x s) \<longleftrightarrow> sorted s" "distinct s \<Longrightarrow> distinct (bs_insert x s)" "set (bs_insert x s) = insert x (set s)"
  by (auto simp: bs_insert_def sorted_insort set_insort_key distinct_insort)

subsection \<open>The index\<close>

record payload_index =
  by_field :: "(bytes \<times> (pvalue \<times> u64 list) list) list"
  by_id :: "(u64 \<times> (bytes \<times> pvalue) list) list"

definition payload_empty :: payload_index where
  "payload_empty = \<lparr>by_field = [], by_id = []\<rparr>"

definition lookup_or :: "'v \<Rightarrow> ('k \<times> 'v) list \<Rightarrow> 'k \<Rightarrow> 'v" where
  "lookup_or d m k = (case map_of m k of Some v \<Rightarrow> v | None \<Rightarrow> d)"

definition add_posting :: "u64 \<Rightarrow> bytes \<times> pvalue \<Rightarrow> (bytes \<times> (pvalue \<times> u64 list) list) list \<Rightarrow> (bytes \<times> (pvalue \<times> u64 list) list) list" where
  "add_posting vid fv bf =
    (let values = lookup_or [] bf (fst fv) in
     bt_insert (fst fv) (bt_insert (snd fv) (bs_insert vid (lookup_or [] values (snd fv))) values) bf)"

definition drop_posting :: "u64 \<Rightarrow> bytes \<times> pvalue \<Rightarrow> (bytes \<times> (pvalue \<times> u64 list) list) list \<Rightarrow> (bytes \<times> (pvalue \<times> u64 list) list) list" where
  "drop_posting vid fv bf =
    (case map_of bf (fst fv) of
       None \<Rightarrow> bf
     | Some values \<Rightarrow>
         (let values =
            (case map_of values (snd fv) of
               None \<Rightarrow> values
             | Some ids \<Rightarrow>
                 (let ids = filter (\<lambda>i. i \<noteq> vid) ids in
                  if ids = [] then AList.delete (snd fv) values else bt_insert (snd fv) ids values)) in
          if values = [] then AList.delete (fst fv) bf else bt_insert (fst fv) values bf))"

definition payload_remove :: "u64 \<Rightarrow> payload_index \<Rightarrow> payload_index" where
  "payload_remove vid idx =
    (case map_of (by_id idx) vid of
       None \<Rightarrow> idx
     | Some fvs \<Rightarrow> \<lparr>by_field = fold (drop_posting vid) fvs (by_field idx), by_id = AList.delete vid (by_id idx)\<rparr>)"

definition payload_upsert :: "u64 \<Rightarrow> (bytes \<times> pvalue) list \<Rightarrow> payload_index \<Rightarrow> payload_index" where
  "payload_upsert vid fvs idx =
    (let idx = payload_remove vid idx in
     \<lparr>by_field = fold (add_posting vid) fvs (by_field idx),
      by_id = (if fvs \<noteq> [] then bt_insert vid fvs (by_id idx) else by_id idx)\<rparr>)"

definition postings :: "payload_index \<Rightarrow> bytes \<Rightarrow> pvalue \<Rightarrow> u64 list option" where
  "postings idx field val = Option.bind (map_of (by_field idx) field) (\<lambda>vs. map_of vs val)"

definition sort_dedup :: "u64 list \<Rightarrow> u64 list" where
  "sort_dedup v = remdups_adj (sort v)"

definition field_ids :: "payload_index \<Rightarrow> bytes \<Rightarrow> u64 list" where
  "field_ids idx field = sort_dedup (concat (map snd (lookup_or [] (by_field idx) field)))"

datatype bound = Included pvalue | Excluded pvalue | Unbounded

fun above :: "bound \<Rightarrow> pvalue \<Rightarrow> bool" where
  "above (Included a) v \<longleftrightarrow> a \<le> v"
| "above (Excluded a) v \<longleftrightarrow> a < v"
| "above Unbounded v \<longleftrightarrow> True"

fun below :: "bound \<Rightarrow> pvalue \<Rightarrow> bool" where
  "below (Included b) v \<longleftrightarrow> v \<le> b"
| "below (Excluded b) v \<longleftrightarrow> v < b"
| "below Unbounded v \<longleftrightarrow> True"

text \<open>The bounds \<open>BTreeMap::range\<close> panics on.\<close>

fun range_panics :: "bound \<Rightarrow> bound \<Rightarrow> bool" where
  "range_panics (Included a) (Included b) \<longleftrightarrow> b < a"
| "range_panics (Included a) (Excluded b) \<longleftrightarrow> b < a"
| "range_panics (Excluded a) (Included b) \<longleftrightarrow> b < a"
| "range_panics (Excluded a) (Excluded b) \<longleftrightarrow> b \<le> a"
| "range_panics _ _ \<longleftrightarrow> False"

definition range_ids :: "payload_index \<Rightarrow> bytes \<Rightarrow> bound \<Rightarrow> bound \<Rightarrow> u64 list option" where
  "range_ids idx field lo hi =
    (case map_of (by_field idx) field of
       None \<Rightarrow> Some []
     | Some vs \<Rightarrow>
         if range_panics lo hi then None
         else Some (sort_dedup (concat (map snd (filter (\<lambda>(v, _). above lo v \<and> below hi v) vs)))))"

definition all_ids :: "payload_index \<Rightarrow> u64 list" where
  "all_ids idx = map fst (by_id idx)"

fun intersect_sorted :: "u64 list \<Rightarrow> u64 list \<Rightarrow> u64 list" where
  "intersect_sorted (a # as) (b # bs) =
    (if a < b then intersect_sorted as (b # bs)
     else if b < a then intersect_sorted (a # as) bs
     else a # intersect_sorted as bs)"
| "intersect_sorted _ _ = []"

text \<open>Whether a binary search of a sorted slice finds the id.\<close>

function binary_search :: "u64 list \<Rightarrow> u64 \<Rightarrow> bool" where
  "binary_search xs x =
    (if xs = [] then False
     else let mid = length xs div 2 in
       if xs ! mid = x then True
       else if xs ! mid < x then binary_search (drop (Suc mid) xs) x
       else binary_search (take mid xs) x)"
  by pat_completeness auto
termination
  by (relation "measure (\<lambda>(xs, x). length xs)") (auto simp: Let_def)

declare binary_search.simps [simp del]

subsection \<open>Filters\<close>

datatype pfilter =
    F_Eq bytes pvalue
  | F_In bytes "pvalue list"
  | F_Range bytes bound bound
  | F_Exists bytes
  | F_And "pfilter list"
  | F_Or "pfilter list"
  | F_Not pfilter

fun is_not :: "pfilter \<Rightarrow> bool" where
  "is_not (F_Not f) \<longleftrightarrow> True"
| "is_not _ \<longleftrightarrow> False"

fun intersect_all :: "u64 list \<Rightarrow> u64 list list \<Rightarrow> u64 list" where
  "intersect_all a [] = a"
| "intersect_all a (s # ss) = (let a = intersect_sorted a s in if a = [] then a else intersect_all a ss)"

definition intersect_sets :: "u64 list list \<Rightarrow> u64 list" where
  "intersect_sets sets = (case sort_key length sets of [] \<Rightarrow> [] | a # ss \<Rightarrow> intersect_all a ss)"

fun evaluate :: "payload_index \<Rightarrow> pfilter \<Rightarrow> u64 list option"
  and positives :: "payload_index \<Rightarrow> pfilter list \<Rightarrow> u64 list list option"
  and subtract :: "payload_index \<Rightarrow> u64 list \<Rightarrow> pfilter list \<Rightarrow> u64 list option"
  and union :: "payload_index \<Rightarrow> pfilter list \<Rightarrow> u64 list option" where
  "evaluate idx (F_Eq f v) = Some (case postings idx f v of Some ids \<Rightarrow> ids | None \<Rightarrow> [])"
| "evaluate idx (F_In f vs) =
    Some (sort_dedup (concat (map (\<lambda>v. case postings idx f v of Some ids \<Rightarrow> ids | None \<Rightarrow> []) vs)))"
| "evaluate idx (F_Range f lo hi) = range_ids idx f lo hi"
| "evaluate idx (F_Exists f) = Some (field_ids idx f)"
| "evaluate idx (F_And parts) =
    (case positives idx parts of
       None \<Rightarrow> None
     | Some sets \<Rightarrow> subtract idx (if list_all is_not parts then all_ids idx else intersect_sets sets) parts)"
| "evaluate idx (F_Or parts) = map_option sort_dedup (union idx parts)"
| "evaluate idx (F_Not f) =
    map_option (\<lambda>excluded. filter (\<lambda>id. \<not> binary_search excluded id) (all_ids idx)) (evaluate idx f)"
| "positives idx [] = Some []"
| "positives idx (p # ps) =
    (if is_not p then positives idx ps
     else case evaluate idx p of
       None \<Rightarrow> None
     | Some s \<Rightarrow> map_option ((#) s) (positives idx ps))"
| "subtract idx acc [] = Some acc"
| "subtract idx acc (p # ps) =
    (case p of
       F_Not f \<Rightarrow>
         if acc = [] then Some []
         else (case evaluate idx f of
           None \<Rightarrow> None
         | Some b \<Rightarrow> subtract idx (filter (\<lambda>id. \<not> binary_search b id) acc) ps)
     | _ \<Rightarrow> subtract idx acc ps)"
| "union idx [] = Some []"
| "union idx (p # ps) =
    (case evaluate idx p of None \<Rightarrow> None | Some s \<Rightarrow> map_option ((@) s) (union idx ps))"

subsection \<open>The index invariant\<close>

definition ids_of :: "(bytes \<times> (pvalue \<times> u64 list) list) list \<Rightarrow> bytes \<Rightarrow> pvalue \<Rightarrow> u64 set" where
  "ids_of bf f v = set (lookup_or [] (lookup_or [] bf f) v)"

definition bf_ok :: "(bytes \<times> (pvalue \<times> u64 list) list) list \<Rightarrow> bool" where
  "bf_ok bf \<longleftrightarrow> (\<forall>f vs. map_of bf f = Some vs \<longrightarrow> bt_ok vs \<and> (\<forall>v ids. map_of vs v = Some ids \<longrightarrow> sorted ids \<and> distinct ids))"

definition payload_ok :: "payload_index \<Rightarrow> (u64 \<Rightarrow> (bytes \<times> pvalue) list) \<Rightarrow> bool" where
  "payload_ok idx flds \<longleftrightarrow> bt_ok (by_id idx) \<and> bf_ok (by_field idx) \<and>
    (\<forall>i. map_of (by_id idx) i = (if flds i = [] then None else Some (flds i))) \<and>
    (\<forall>f v. ids_of (by_field idx) f v = {i. (f, v) \<in> set (flds i)})"

definition vs_ok :: "(pvalue \<times> u64 list) list \<Rightarrow> bool" where
  "vs_ok vs \<longleftrightarrow> bt_ok vs \<and> (\<forall>v ids. map_of vs v = Some ids \<longrightarrow> sorted ids \<and> distinct ids)"

lemma vs_ok_lookup: "bf_ok bf \<Longrightarrow> vs_ok (lookup_or [] bf f)"
  by (auto simp: bf_ok_def vs_ok_def lookup_or_def bt_ok_def split: option.splits)

lemma ids_ok_lookup: "vs_ok vs \<Longrightarrow> sorted (lookup_or [] vs v) \<and> distinct (lookup_or [] vs v)"
  by (auto simp: vs_ok_def lookup_or_def split: option.splits)

lemma vs_ok_insert: "vs_ok vs \<Longrightarrow> sorted ids \<Longrightarrow> distinct ids \<Longrightarrow> vs_ok (bt_insert v ids vs)"
  by (auto simp: vs_ok_def)

lemma vs_ok_delete: "vs_ok vs \<Longrightarrow> vs_ok (AList.delete v vs)"
  by (auto simp: vs_ok_def delete_conv)

lemma bf_ok_insert: "bf_ok bf \<Longrightarrow> vs_ok vs \<Longrightarrow> bf_ok (bt_insert f vs bf)"
  by (auto simp: bf_ok_def vs_ok_def)

lemma bf_ok_delete: "bf_ok bf \<Longrightarrow> bf_ok (AList.delete f bf)"
  by (auto simp: bf_ok_def delete_conv split: if_splits)

lemma lookup_or_upd [simp]:
  "lookup_or d (bt_insert k v m) k' = (if k' = k then v else lookup_or d m k')"
  "lookup_or d (AList.delete k m) k' = (if k' = k then d else lookup_or d m k')"
  by (simp_all add: lookup_or_def delete_conv)

lemma add_posting_ok: "bf_ok bf \<Longrightarrow> bf_ok (add_posting i fv bf)"
  by (simp add: add_posting_def Let_def bf_ok_insert vs_ok_insert vs_ok_lookup ids_ok_lookup)

lemma ids_of_add_posting:
  "ids_of (add_posting i fv bf) f v = (if (f, v) = fv then insert i (ids_of bf f v) else ids_of bf f v)"
  by (auto simp: ids_of_def add_posting_def Let_def prod_eq_iff)

lemma drop_posting_ok: "bf_ok bf \<Longrightarrow> bf_ok (drop_posting i fv bf)"
  using vs_ok_lookup [of bf "fst fv"] ids_ok_lookup [of "lookup_or [] bf (fst fv)" "snd fv"]
  by (auto simp: drop_posting_def lookup_or_def Let_def sorted_wrt_filter intro!: bf_ok_insert bf_ok_delete vs_ok_insert vs_ok_delete
      split: option.splits)

lemma ids_of_drop_posting:
  "ids_of (drop_posting i fv bf) f v = (if (f, v) = fv then ids_of bf f v - {i} else ids_of bf f v)"
proof (cases "map_of bf (fst fv)")
  case (Some vs)
  let ?vs = "case map_of vs (snd fv) of None \<Rightarrow> vs | Some ids \<Rightarrow>
    (let ids = filter (\<lambda>j. j \<noteq> i) ids in if ids = [] then AList.delete (snd fv) vs else bt_insert (snd fv) ids vs)"
  have "lookup_or [] ?vs v = (if v = snd fv then filter (\<lambda>j. j \<noteq> i) (lookup_or [] vs v) else lookup_or [] vs v)" for v
    by (auto simp: Let_def lookup_or_def delete_conv split: option.splits)
  moreover have "drop_posting i fv bf = (if ?vs = [] then AList.delete (fst fv) bf else bt_insert (fst fv) ?vs bf)"
    by (simp add: drop_posting_def Some Let_def)
  then have "lookup_or [] (drop_posting i fv bf) f = (if f = fst fv then ?vs else lookup_or [] bf f)"
    by simp
  moreover have "lookup_or [] bf (fst fv) = vs"
    by (simp add: lookup_or_def Some)
  ultimately show ?thesis
    by (auto simp: ids_of_def prod_eq_iff)
qed (auto simp: drop_posting_def ids_of_def lookup_or_def prod_eq_iff)

lemma fold_add_posting:
  "bf_ok bf \<Longrightarrow> bf_ok (fold (add_posting i) fvs bf) \<and>
    (\<forall>f v. ids_of (fold (add_posting i) fvs bf) f v = (if (f, v) \<in> set fvs then {i} else {}) \<union> ids_of bf f v)"
  by (induction fvs arbitrary: bf) (auto simp: add_posting_ok ids_of_add_posting)

lemma fold_drop_posting:
  "bf_ok bf \<Longrightarrow> bf_ok (fold (drop_posting i) fvs bf) \<and>
    (\<forall>f v. ids_of (fold (drop_posting i) fvs bf) f v = ids_of bf f v - (if (f, v) \<in> set fvs then {i} else {}))"
  by (induction fvs arbitrary: bf) (auto simp: drop_posting_ok ids_of_drop_posting)

lemma payload_remove_ok:
  assumes ok: "payload_ok idx flds"
  shows "payload_ok (payload_remove i idx) (flds(i := []))"
proof (cases "flds i = []")
  case True
  then show ?thesis
    using ok by (auto simp: payload_remove_def payload_ok_def fun_upd_idem)
next
  case False
  then have "payload_remove i idx = \<lparr>by_field = fold (drop_posting i) (flds i) (by_field idx), by_id = AList.delete i (by_id idx)\<rparr>"
    using ok by (simp add: payload_remove_def payload_ok_def)
  then show ?thesis
    using ok fold_drop_posting [of "by_field idx" i "flds i"] by (auto simp: payload_ok_def delete_conv)
qed

lemma payload_upsert_ok:
  assumes "payload_ok idx flds"
  shows "payload_ok (payload_upsert i fvs idx) (flds(i := fvs))"
  using payload_remove_ok [OF assms, of i] fold_add_posting [of "by_field (payload_remove i idx)" i fvs]
  by (auto simp: payload_ok_def payload_upsert_def Let_def)

subsection \<open>What a filter means\<close>

fun matches :: "(bytes \<times> pvalue) list \<Rightarrow> pfilter \<Rightarrow> bool" where
  "matches fvs (F_Eq f v) \<longleftrightarrow> (f, v) \<in> set fvs"
| "matches fvs (F_In f vs) \<longleftrightarrow> (\<exists>v\<in>set vs. (f, v) \<in> set fvs)"
| "matches fvs (F_Range f lo hi) \<longleftrightarrow> (\<exists>(g, v)\<in>set fvs. g = f \<and> above lo v \<and> below hi v)"
| "matches fvs (F_Exists f) \<longleftrightarrow> (\<exists>(g, v)\<in>set fvs. g = f)"
| "matches fvs (F_And ps) \<longleftrightarrow> (\<forall>p\<in>set ps. matches fvs p)"
| "matches fvs (F_Or ps) \<longleftrightarrow> (\<exists>p\<in>set ps. matches fvs p)"
| "matches fvs (F_Not p) \<longleftrightarrow> \<not> matches fvs p"

definition hits :: "(u64 \<Rightarrow> (bytes \<times> pvalue) list) \<Rightarrow> pfilter \<Rightarrow> u64 set" where
  "hits flds f = {i. flds i \<noteq> [] \<and> matches (flds i) f}"

definition id_list :: "u64 list \<Rightarrow> bool" where
  "id_list s \<longleftrightarrow> sorted s \<and> distinct s"

lemma id_list_filter [simp]: "id_list s \<Longrightarrow> id_list (filter P s)"
  by (simp add: id_list_def sorted_wrt_filter)

lemma distinct_remdups_adj: "sorted v \<Longrightarrow> distinct (remdups_adj v)" for v :: "u64 list"
  by (induction v rule: remdups_adj.induct) (auto simp: order.antisym)

lemma sort_dedup_ok [simp]: "id_list (sort_dedup v)" "set (sort_dedup v) = set v"
proof -
  have "sorted (sort_dedup v)" "distinct (sort_dedup v)"
    by (simp_all add: sort_dedup_def sorted_remdups_adj distinct_remdups_adj)
  then show "id_list (sort_dedup v)" "set (sort_dedup v) = set v"
    by (simp_all add: id_list_def sort_dedup_def)
qed

lemma intersect_sorted_ok:
  "id_list a \<Longrightarrow> id_list b \<Longrightarrow> id_list (intersect_sorted a b) \<and> set (intersect_sorted a b) = set a \<inter> set b"
  proof (induction a b rule: intersect_sorted.induct)
  case (1 a as b bs)
  consider "a < b" | "b < a" | "a = b"
    by (rule linorder_cases)
  then show ?case
    by cases (use 1 in \<open>auto simp: id_list_def\<close>)
qed (simp_all add: id_list_def)

lemma binary_search_iff: "sorted xs \<Longrightarrow> binary_search xs x \<longleftrightarrow> x \<in> set xs"
proof (induction xs x rule: binary_search.induct)
  case (1 xs x)
  show ?case
  proof (cases "xs = []")
    case False
    let ?mid = "length xs div 2"
    have mid: "?mid < length xs"
      using False by simp
    then have xs: "xs = take ?mid xs @ xs ! ?mid # drop (Suc ?mid) xs"
      by (simp add: id_take_nth_drop)
    have s: "sorted (take ?mid xs @ xs ! ?mid # drop (Suc ?mid) xs)"
      using 1(3) xs by simp
    have "x \<in> set xs \<longleftrightarrow> x \<in> set (take ?mid xs) \<or> x = xs ! ?mid \<or> x \<in> set (drop (Suc ?mid) xs)"
      by (subst xs) auto
    then show ?thesis
      using s 1(1,2) [OF False refl] 1(3) False
      by (subst binary_search.simps) (auto simp: Let_def sorted_append sorted_wrt_drop sorted_wrt_take)
  qed (simp add: binary_search.simps)
qed

lemma intersect_all_ok:
  assumes "id_list a" and "\<forall>s\<in>set ss. id_list s"
  shows "id_list (intersect_all a ss) \<and> set (intersect_all a ss) = set a \<inter> \<Inter> (set ` set ss)"
  using assms
proof (induction a ss rule: intersect_all.induct)
  case (2 a s ss)
  then show ?case
    using intersect_sorted_ok [of a s] by (auto simp: Let_def)
qed simp

lemma intersect_sets_ok:
  assumes "sets \<noteq> []" and "\<forall>s\<in>set sets. id_list s"
  shows "id_list (intersect_sets sets) \<and> set (intersect_sets sets) = \<Inter> (set ` set sets)"
proof (cases "sort_key length sets")
  case (Cons a ss)
  then have "set sets = insert a (set ss)"
    by (metis list.simps(15) set_sort)
  then show ?thesis
    using assms intersect_all_ok [of a ss] by (auto simp: intersect_sets_def Cons)
next
  case Nil
  then show ?thesis
    using assms(1) by (metis length_0_conv length_sort)
qed

lemma postings_ok:
  assumes "payload_ok idx flds"
  defines "ids f v \<equiv> (case postings idx f v of Some ids \<Rightarrow> ids | None \<Rightarrow> [])"
  shows "id_list (ids f v)" and "set (ids f v) = {i. (f, v) \<in> set (flds i)}"
proof -
  have e: "ids f v = lookup_or [] (lookup_or [] (by_field idx) f) v"
    by (auto simp: ids_def postings_def lookup_or_def split: option.splits)
  show "id_list (ids f v)"
    using assms(1) ids_ok_lookup [OF vs_ok_lookup] by (simp add: e payload_ok_def id_list_def)
  show "set (ids f v) = {i. (f, v) \<in> set (flds i)}"
    using assms(1) by (simp add: e payload_ok_def ids_of_def)
qed

text \<open>The ids listed under the values of a field that satisfy a predicate.\<close>

lemma field_values_ok:
  assumes "payload_ok idx flds"
  shows "set (concat (map snd (filter (\<lambda>(v, _). P v) (lookup_or [] (by_field idx) f)))) = {i. \<exists>v. (f, v) \<in> set (flds i) \<and> P v}"
proof -
  let ?vs = "lookup_or [] (by_field idx) f"
  have bf: "bf_ok (by_field idx)"
    using assms by (simp add: payload_ok_def)
  then have d: "distinct (map fst ?vs)"
    using vs_ok_lookup [of "by_field idx" f] bt_distinct by (auto simp: vs_ok_def)
  have "i \<in> set (concat (map snd (filter (\<lambda>(v, _). P v) ?vs))) \<longleftrightarrow> (\<exists>v. P v \<and> i \<in> ids_of (by_field idx) f v)" for i
  proof -
    have "i \<in> set (lookup_or [] ?vs v) \<longleftrightarrow> (\<exists>ids. (v, ids) \<in> set ?vs \<and> i \<in> set ids)" for v
      using d by (auto simp: lookup_or_def [of _ ?vs] dest: map_of_SomeD split: option.splits)
    then show ?thesis
      by (auto simp: ids_of_def)
  qed
  then show ?thesis
    using assms by (auto simp: payload_ok_def simp del: set_concat)
qed

lemma eval_preds:
  assumes ok: "payload_ok idx flds"
  shows "evaluate idx (F_Eq f v) = Some ids \<Longrightarrow> id_list ids \<and> set ids = hits flds (F_Eq f v)"
    and "evaluate idx (F_In f vs) = Some ids \<Longrightarrow> id_list ids \<and> set ids = hits flds (F_In f vs)"
    and "evaluate idx (F_Range f lo hi) = Some ids \<Longrightarrow> id_list ids \<and> set ids = hits flds (F_Range f lo hi)"
    and "evaluate idx (F_Exists f) = Some ids \<Longrightarrow> id_list ids \<and> set ids = hits flds (F_Exists f)"
proof -
  show "id_list ids \<and> set ids = hits flds (F_Eq f v)" if "evaluate idx (F_Eq f v) = Some ids"
    using that postings_ok [OF ok, of f v] by (auto simp: hits_def)
  show "id_list ids \<and> set ids = hits flds (F_In f vs)" if "evaluate idx (F_In f vs) = Some ids"
    using that postings_ok(2) [OF ok, of f] by (auto simp: hits_def)
  show "id_list ids \<and> set ids = hits flds (F_Range f lo hi)" if "evaluate idx (F_Range f lo hi) = Some ids"
  proof -
    have "ids = sort_dedup (concat (map snd (filter (\<lambda>(v, _). above lo v \<and> below hi v) (lookup_or [] (by_field idx) f))))"
      using that by (auto simp: range_ids_def lookup_or_def sort_dedup_def split: option.splits if_splits)
    then show ?thesis
      using field_values_ok [OF ok, of "\<lambda>v. above lo v \<and> below hi v" f] by (auto simp: hits_def simp del: set_concat)
  qed
  show "id_list ids \<and> set ids = hits flds (F_Exists f)" if "evaluate idx (F_Exists f) = Some ids"
    using that field_values_ok [OF ok, of "\<lambda>_. True" f]
    by (auto simp: hits_def field_ids_def simp del: set_concat) force+
qed

lemma all_ids_ok: "payload_ok idx flds \<Longrightarrow> id_list (all_ids idx) \<and> set (all_ids idx) = {i. flds i \<noteq> []}"
  by (auto simp: payload_ok_def all_ids_def id_list_def bt_ok_def strict_sorted_iff simp flip: dom_map_of_conv_image_fst
      split: if_splits)

lemma is_not_iff: "is_not p \<longleftrightarrow> (\<exists>g. p = F_Not g)"
  by (cases p) auto

lemma evaluate_ok:
  assumes ok: "payload_ok idx flds"
  shows "evaluate idx f = Some ids \<Longrightarrow> id_list ids \<and> set ids = hits flds f"
    and "positives idx ps = Some sets \<Longrightarrow> (\<forall>s\<in>set sets. id_list s) \<and> map set sets = map (hits flds) (filter (\<lambda>p. \<not> is_not p) ps)"
    and "subtract idx acc ps = Some r \<Longrightarrow> id_list acc \<Longrightarrow>
      id_list r \<and> set r = {i \<in> set acc. \<forall>g. F_Not g \<in> set ps \<longrightarrow> i \<notin> hits flds g}"
    and "union idx ps = Some u \<Longrightarrow> set u = \<Union> (hits flds ` set ps)"
  using ok
proof (induction idx f and idx ps and idx acc ps and idx ps arbitrary: ids and sets and r and u
    rule: evaluate_positives_subtract_union.induct)
  case (5 idx parts)
  from "5.prems" obtain sets where s: "positives idx parts = Some sets"
    and sub: "subtract idx (if list_all is_not parts then all_ids idx else intersect_sets sets) parts = Some ids"
    by (auto split: option.splits)
  note p = "5.IH"(1) [OF s "5.prems"(2)]
  have acc: "id_list (if list_all is_not parts then all_ids idx else intersect_sets sets) \<and>
    set (if list_all is_not parts then all_ids idx else intersect_sets sets) =
      {i. flds i \<noteq> [] \<and> (\<forall>p\<in>set parts. \<not> is_not p \<longrightarrow> matches (flds i) p)}"
  proof (cases "list_all is_not parts")
    case True
    then show ?thesis
      using all_ids_ok [OF "5.prems"(2)] by (auto simp: list_all_iff)
  next
    case False
    then have ne: "filter (\<lambda>p. \<not> is_not p) parts \<noteq> []"
      by (auto simp: list_all_iff filter_empty_conv)
    then have "sets \<noteq> []"
      using p by (metis list.map_disc_iff)
    moreover have "set ` set sets = hits flds ` set (filter (\<lambda>p. \<not> is_not p) parts)"
      using p by (metis set_map)
    ultimately show ?thesis
      using False ne p intersect_sets_ok [of sets] by (auto simp: hits_def list_all_iff filter_empty_conv)
  qed
  have "id_list ids \<and> set ids = {i. flds i \<noteq> [] \<and> (\<forall>p\<in>set parts. \<not> is_not p \<longrightarrow> matches (flds i) p) \<and>
      (\<forall>g. F_Not g \<in> set parts \<longrightarrow> i \<notin> hits flds g)}"
    using "5.IH"(2) [OF s sub conjunct1 [OF acc] "5.prems"(2)] acc by auto
  moreover have "(\<forall>p\<in>set parts. \<not> is_not p \<longrightarrow> matches x p) \<and> (\<forall>g. F_Not g \<in> set parts \<longrightarrow> \<not> matches x g)
      \<longleftrightarrow> (\<forall>p\<in>set parts. matches x p)" for x
    using is_not_iff by (metis matches.simps(7))
  ultimately show ?case
    by (auto simp: hits_def)
next
  case (7 idx f)
  then show ?case
    using all_ids_ok [OF "7.prems"(2)] by (auto simp: hits_def id_list_def binary_search_iff sorted_wrt_filter)
next
  case (11 idx acc p ps)
  show ?case
  proof (cases "\<exists>g. p = F_Not g")
    case True
    then obtain g where p: "p = F_Not g" ..
    show ?thesis
    proof (cases "acc = []")
      case False
      then obtain b where b: "evaluate idx g = Some b" "subtract idx (filter (\<lambda>id. \<not> binary_search b id) acc) ps = Some r"
        using "11.prems"(1) by (auto simp: p split: option.splits)
      from "11.IH"(7) [OF p False b(1) "11.prems"(3)] have g: "id_list b" "set b = hits flds g"
        by simp_all
      then have "set (filter (\<lambda>id. \<not> binary_search b id) acc) = {i \<in> set acc. i \<notin> hits flds g}"
        by (auto simp: id_list_def binary_search_iff)
      then show ?thesis
        using "11.IH"(8) [OF p False b(1,2) id_list_filter [OF "11.prems"(2)] "11.prems"(3)] by (auto simp: p simp del: set_filter)
    qed (use "11.prems" in \<open>auto simp: p\<close>)
  next
    case False
    then have "subtract idx acc ps = Some r \<and> (\<forall>g. F_Not g \<in> set (p # ps) \<longleftrightarrow> F_Not g \<in> set ps)"
      using "11.prems"(1) by (cases p) auto
    moreover have "id_list r \<and> set r = {i \<in> set acc. \<forall>g. F_Not g \<in> set ps \<longrightarrow> i \<notin> hits flds g}" if "subtract idx acc ps = Some r"
      using False "11.IH"(1-6) [OF _ that "11.prems"(2,3)] by (cases p) blast+
    ultimately show ?thesis
      by simp
  qed
next
  case (6 idx parts)
  then obtain u where "union idx parts = Some u" "ids = sort_dedup u"
    by auto
  then show ?case
    using "6.IH" "6.prems"(2) by (auto simp: hits_def)
next
  case (9 idx p ps)
  show ?case
  proof (cases "is_not p")
    case False
    then obtain s sets' where "evaluate idx p = Some s" "positives idx ps = Some sets'" "sets = s # sets'"
      using "9.prems"(1) by (auto split: option.splits)
    then show ?thesis
      using "9.IH"(2,3) "9.prems"(2) False by simp
  qed (use 9 in simp)
next
  case (13 idx p ps)
  then obtain s u' where "evaluate idx p = Some s" "union idx ps = Some u'" "u = s @ u'"
    by (auto split: option.splits)
  then show ?case
    using "13.IH" "13.prems"(2) by simp
qed (simp_all only: eval_preds, simp_all)

fun ranges_ok :: "pfilter \<Rightarrow> bool" where
  "ranges_ok (F_Range f lo hi) \<longleftrightarrow> \<not> range_panics lo hi"
| "ranges_ok (F_And ps) \<longleftrightarrow> (\<forall>p\<in>set ps. ranges_ok p)"
| "ranges_ok (F_Or ps) \<longleftrightarrow> (\<forall>p\<in>set ps. ranges_ok p)"
| "ranges_ok (F_Not p) \<longleftrightarrow> ranges_ok p"
| "ranges_ok _ \<longleftrightarrow> True"

lemma evaluate_returns:
  "ranges_ok f \<Longrightarrow> \<exists>ids. evaluate idx f = Some ids"
  "\<forall>p\<in>set ps. ranges_ok p \<Longrightarrow> \<exists>sets. positives idx ps = Some sets"
  "\<forall>p\<in>set ps. ranges_ok p \<Longrightarrow> \<exists>r. subtract idx acc ps = Some r"
  "\<forall>p\<in>set ps. ranges_ok p \<Longrightarrow> \<exists>u. union idx ps = Some u"
proof (induction idx f and idx ps and idx acc ps and idx ps rule: evaluate_positives_subtract_union.induct)
  case (11 idx acc p ps)
  then show ?case
    by (cases p) (auto split: option.splits, blast?)
next
  case (9 idx p ps)
  then show ?case
    by (cases "is_not p") (auto split: option.splits)
qed (auto simp: range_ids_def split: option.splits)

subsection \<open>Histories\<close>

text \<open>What the shard does to a vector's payload: a write with a blob, or a deletion.\<close>

datatype payload_op = P_write u64 bytes | P_delete u64

fun payload_step :: "payload_op \<Rightarrow> payload_index \<Rightarrow> payload_index" where
  "payload_step (P_write i blob) idx = payload_upsert i (parse_fields blob) idx"
| "payload_step (P_delete i) idx = payload_remove i idx"

fun fields_step :: "payload_op \<Rightarrow> (u64 \<Rightarrow> (bytes \<times> pvalue) list) \<Rightarrow> u64 \<Rightarrow> (bytes \<times> pvalue) list" where
  "fields_step (P_write i blob) flds = flds(i := parse_fields blob)"
| "fields_step (P_delete i) flds = flds(i := [])"

lemma payload_run_ok: "payload_ok idx flds \<Longrightarrow> payload_ok (fold payload_step ops idx) (fold fields_step ops flds)"
proof (induction ops arbitrary: idx flds)
  case (Cons op ops)
  then show ?case
    by (cases op) (auto intro!: Cons.IH payload_upsert_ok payload_remove_ok)
qed simp

lemma payload_empty_ok: "payload_ok payload_empty (\<lambda>_. [])"
  by (simp add: payload_ok_def payload_empty_def bt_ok_def bf_ok_def ids_of_def lookup_or_def)

text \<open>
  C5: After any history of payload writes and deletions, evaluating a filter whose ranges are not
  inverted returns, in increasing order and without repetition, exactly the ids whose last payload has
  at least one field and satisfies the filter; the index, the smallest-first intersections and the
  subtraction of negated parts never change that answer.
\<close>

theorem filter_finds:
  assumes "ranges_ok f"
  shows "\<exists>ids. evaluate (fold payload_step ops payload_empty) f = Some ids \<and> sorted ids \<and> distinct ids \<and>
    (\<forall>i. i \<in> set ids \<longleftrightarrow> fold fields_step ops (\<lambda>_. []) i \<noteq> [] \<and> matches (fold fields_step ops (\<lambda>_. []) i) f)"
proof -
  obtain ids where ids: "evaluate (fold payload_step ops payload_empty) f = Some ids"
    using evaluate_returns(1) [OF assms] by blast
  from evaluate_ok(1) [OF payload_run_ok [OF payload_empty_ok] ids] show ?thesis
    using ids by (auto simp: hits_def id_list_def)
qed

definition demo_payloads :: "payload_op list" where
  "demo_payloads = [P_write 1 (lit ''a=5 b=x''), P_write 2 (lit ''a=9''), P_delete 2, P_write 3 (lit ''a=7'')]"

definition demo_filter :: pfilter where
  "demo_filter = F_And [F_Range (lit ''a'') (Included (PInt 5)) (Excluded (PInt 9)), F_Not (F_Exists (lit ''b''))]"

theorem filter_finds_witness:
  "evaluate (fold payload_step demo_payloads payload_empty) demo_filter = Some [3] \<and>
   matches (fold fields_step demo_payloads (\<lambda>_. []) 3) demo_filter"
proof -
  have e: "evaluate (fold payload_step demo_payloads payload_empty) demo_filter = Some [3]"
    by code_simp
  have "ranges_ok demo_filter"
    by (simp add: demo_filter_def less_pvalue_def)
  then have "\<exists>ids. evaluate (fold payload_step demo_payloads payload_empty) demo_filter = Some ids \<and>
    (\<forall>i. i \<in> set ids \<longleftrightarrow> fold fields_step demo_payloads (\<lambda>_. []) i \<noteq> [] \<and> matches (fold fields_step demo_payloads (\<lambda>_. []) i) demo_filter)"
    using filter_finds [of demo_filter demo_payloads] by blast
  then have "3 \<in> set [3 :: u64] \<longleftrightarrow> fold fields_step demo_payloads (\<lambda>_. []) 3 \<noteq> [] \<and> matches (fold fields_step demo_payloads (\<lambda>_. []) 3) demo_filter"
    unfolding e by (metis option.inject)
  then show ?thesis
    using e by simp
qed

text \<open>
  C39: A BETWEEN whose lower bound exceeds its upper bound panics as soon as some indexed vector has
  the field.
\<close>

theorem inverted_between_panics:
  assumes "hi < lo" and "(f, v) \<in> set (fold fields_step ops (\<lambda>_. []) i)"
  shows "evaluate (fold payload_step ops payload_empty) (F_Range f (Included lo) (Included hi)) = None"
proof -
  let ?idx = "fold payload_step ops payload_empty"
  have "i \<in> ids_of (by_field ?idx) f v"
    using payload_run_ok [OF payload_empty_ok, of ops] assms(2) by (simp add: payload_ok_def)
  then have "map_of (by_field ?idx) f \<noteq> None"
    by (auto simp: ids_of_def lookup_or_def split: option.splits)
  then show ?thesis
    using assms(1) by (auto simp: range_ids_def)
qed

theorem inverted_between_panics_witness:
  "evaluate (fold payload_step demo_payloads payload_empty) (F_Range (lit ''a'') (Included (PInt 9)) (Included (PInt 5))) = None"
proof (rule inverted_between_panics [where i = 3 and v = "PInt 7"])
  show "PInt 5 < PInt 9"
    by (simp add: less_pvalue_def)
  show "(lit ''a'', PInt 7) \<in> set (fold fields_step demo_payloads (\<lambda>_. []) 3)"
    by code_simp
qed

subsection \<open>Tokens\<close>

definition is_keyword :: "bytes \<Rightarrow> string \<Rightarrow> bool" where
  "is_keyword t kw \<longleftrightarrow> to_ascii_uppercase t = lit kw"

definition punctuation :: "bytes list" where
  "punctuation = [lit ''='', lit ''>'', lit ''<'', lit ''>='', lit ''<='', lit ''('', lit '')'', lit '','']"

definition is_reserved :: "bytes \<Rightarrow> bool" where
  "is_reserved t \<longleftrightarrow> t \<in> set punctuation \<or>
    list_ex (is_keyword t) [''AND'', ''OR'', ''NOT'', ''IN'', ''BETWEEN'', ''EXISTS'']"

definition flush_tok :: "bytes \<Rightarrow> bytes list" where
  "flush_tok cur = (if cur = [] then [] else [cur])"

text \<open>A character outside the ASCII range enters a token byte by byte.\<close>

function tokenize_acc :: "bytes \<Rightarrow> bytes \<Rightarrow> bytes list" where
  "tokenize_acc cur [] = flush_tok cur"
| "tokenize_acc cur (c # cs) =
    (if c \<in> {40, 41, 44, 61} then flush_tok cur @ [c] # tokenize_acc [] cs
     else if c \<in> {60, 62} then
       (if cs \<noteq> [] \<and> hd cs = 61 then flush_tok cur @ [c, 61] # tokenize_acc [] (tl cs)
        else flush_tok cur @ [c] # tokenize_acc [] cs)
     else let n = ws_len (c # cs) in
       if n = 0 then tokenize_acc (cur @ [c]) cs
       else flush_tok cur @ tokenize_acc [] (drop (n - 1) cs))"
  by pat_completeness auto
termination
  by (relation "measure (\<lambda>(cur, cs). length cs)") auto

definition tokenize :: "bytes \<Rightarrow> bytes list" where
  "tokenize s = tokenize_acc [] s"

subsection \<open>Parser\<close>

text \<open>
  The position in the token list is the list of tokens left. The four levels call one another with
  less fuel, and each loop iteration costs one unit; a result of \<open>None\<close> means the fuel ran out.
\<close>

type_synonym 'a parse = "bytes + ('a \<times> bytes list)"

definition quoted :: "bytes \<Rightarrow> bytes" where
  "quoted t = [39] @ t @ [39]"

fun take_value :: "string \<Rightarrow> bytes list \<Rightarrow> pvalue parse" where
  "take_value what [] = Inl (lit ''expected '' @ lit what)"
| "take_value what (t # ts) =
    (if is_reserved t then Inl (lit ''expected '' @ lit what @ lit '', got '' @ quoted t)
     else Inr (value_parse t, ts))"

fun parse_in_values :: "pvalue list \<Rightarrow> bytes list \<Rightarrow> (pvalue list) parse" where
  "parse_in_values vals [] = Inl (lit ''expected '' @ lit ''a value in the IN list'')"
| "parse_in_values vals (t # ts) =
    and_then (take_value ''a value in the IN list'' (t # ts)) (\<lambda>(v, _).
      case ts of
        sep # rest \<Rightarrow>
          if sep = lit '','' then parse_in_values (vals @ [v]) rest
          else if sep = lit '')'' then Inr (vals @ [v], rest)
          else Inl (lit ''expected '' @ quoted (lit '','') @ lit '' or '' @ quoted (lit '')'') @ lit '' in the IN list'')
      | [] \<Rightarrow> Inl (lit ''expected '' @ quoted (lit '','') @ lit '' or '' @ quoted (lit '')'') @ lit '' in the IN list''))"

definition parse_in :: "bytes \<Rightarrow> bytes list \<Rightarrow> pfilter parse" where
  "parse_in field toks =
    (case toks of
       t # ts \<Rightarrow>
         if t = lit ''('' then and_then (parse_in_values [] ts) (\<lambda>(vals, rest). Inr (F_In field vals, rest))
         else Inl (lit ''expected '' @ quoted (lit ''('') @ lit '' after IN'')
     | [] \<Rightarrow> Inl (lit ''expected '' @ quoted (lit ''('') @ lit '' after IN''))"

definition parse_between :: "bytes \<Rightarrow> bytes list \<Rightarrow> pfilter parse" where
  "parse_between field toks =
    and_then (take_value ''the BETWEEN lower bound'' toks) (\<lambda>(lo, ts).
      case ts of
        t # ts \<Rightarrow>
          if is_keyword t ''AND'' then
            and_then (take_value ''the BETWEEN upper bound'' ts) (\<lambda>(hi, rest).
              Inr (F_Range field (Included lo) (Included hi), rest))
          else Inl (lit ''expected AND in BETWEEN'')
      | [] \<Rightarrow> Inl (lit ''expected AND in BETWEEN''))"

fun parse_predicate :: "bytes list \<Rightarrow> pfilter parse" where
  "parse_predicate [] = Inl (lit ''expected a field name'')"
| "parse_predicate (field # toks) =
    (if is_reserved field then Inl (lit ''expected a field name, got '' @ quoted field)
     else case toks of
       [] \<Rightarrow> Inl (lit ''expected an operator after the field'')
     | op # ts \<Rightarrow>
         let val = take_value ''a value'' ts in
         if op = lit ''='' then and_then val (\<lambda>(v, rest). Inr (F_Eq field v, rest))
         else if op = lit ''>='' then and_then val (\<lambda>(v, rest). Inr (F_Range field (Included v) Unbounded, rest))
         else if op = lit ''>'' then and_then val (\<lambda>(v, rest). Inr (F_Range field (Excluded v) Unbounded, rest))
         else if op = lit ''<='' then and_then val (\<lambda>(v, rest). Inr (F_Range field Unbounded (Included v), rest))
         else if op = lit ''<'' then and_then val (\<lambda>(v, rest). Inr (F_Range field Unbounded (Excluded v), rest))
         else if is_keyword op ''EXISTS'' then Inr (F_Exists field, ts)
         else if is_keyword op ''IN'' then parse_in field ts
         else if is_keyword op ''BETWEEN'' then parse_between field ts
         else Inl (lit ''expected an operator, got '' @ quoted op))"

fun next_is :: "string \<Rightarrow> bytes list \<Rightarrow> bool" where
  "next_is kw [] \<longleftrightarrow> False"
| "next_is kw (t # ts) \<longleftrightarrow> is_keyword t kw"

definition one_or :: "(pfilter list \<Rightarrow> pfilter) \<Rightarrow> pfilter list \<Rightarrow> pfilter" where
  "one_or c parts = (if length parts = 1 then hd parts else c parts)"

function parse_or :: "nat \<Rightarrow> bytes list \<Rightarrow> pfilter parse option"
  and or_loop :: "nat \<Rightarrow> pfilter list \<Rightarrow> bytes list \<Rightarrow> pfilter parse option"
  and parse_and :: "nat \<Rightarrow> bytes list \<Rightarrow> pfilter parse option"
  and and_loop :: "nat \<Rightarrow> pfilter list \<Rightarrow> bytes list \<Rightarrow> pfilter parse option"
  and parse_not :: "nat \<Rightarrow> bytes list \<Rightarrow> pfilter parse option"
  and parse_atom :: "nat \<Rightarrow> bytes list \<Rightarrow> pfilter parse option" where
  "parse_or 0 toks = None"
| "parse_or (Suc n) toks =
    (case parse_and n toks of
       None \<Rightarrow> None
     | Some (Inl e) \<Rightarrow> Some (Inl e)
     | Some (Inr (f, rest)) \<Rightarrow> or_loop n [f] rest)"
| "or_loop 0 parts toks = None"
| "or_loop (Suc n) parts toks =
    (if next_is ''OR'' toks then
       (case parse_and n (tl toks) of
          None \<Rightarrow> None
        | Some (Inl e) \<Rightarrow> Some (Inl e)
        | Some (Inr (f, rest)) \<Rightarrow> or_loop n (parts @ [f]) rest)
     else Some (Inr (one_or F_Or parts, toks)))"
| "parse_and 0 toks = None"
| "parse_and (Suc n) toks =
    (case parse_not n toks of
       None \<Rightarrow> None
     | Some (Inl e) \<Rightarrow> Some (Inl e)
     | Some (Inr (f, rest)) \<Rightarrow> and_loop n [f] rest)"
| "and_loop 0 parts toks = None"
| "and_loop (Suc n) parts toks =
    (if next_is ''AND'' toks then
       (case parse_not n (tl toks) of
          None \<Rightarrow> None
        | Some (Inl e) \<Rightarrow> Some (Inl e)
        | Some (Inr (f, rest)) \<Rightarrow> and_loop n (parts @ [f]) rest)
     else Some (Inr (one_or F_And parts, toks)))"
| "parse_not 0 toks = None"
| "parse_not (Suc n) toks =
    (if next_is ''NOT'' toks then
       (case parse_not n (tl toks) of
          None \<Rightarrow> None
        | Some (Inl e) \<Rightarrow> Some (Inl e)
        | Some (Inr (f, rest)) \<Rightarrow> Some (Inr (F_Not f, rest)))
     else parse_atom n toks)"
| "parse_atom 0 toks = None"
| "parse_atom (Suc n) toks =
    (if toks \<noteq> [] \<and> hd toks = lit ''('' then
       (case parse_or n (tl toks) of
          None \<Rightarrow> None
        | Some (Inl e) \<Rightarrow> Some (Inl e)
        | Some (Inr (f, rest)) \<Rightarrow>
            if rest \<noteq> [] \<and> hd rest = lit '')'' then Some (Inr (f, tl rest))
            else Some (Inl (lit ''expected '' @ quoted (lit '')''))))
     else Some (parse_predicate toks))"
  by pat_completeness simp_all
termination
  by (relation "measure (case_sum (case_sum fst (case_sum fst fst)) (case_sum fst (case_sum fst fst)))") simp_all

definition parse_fuel :: "bytes list \<Rightarrow> nat" where
  "parse_fuel toks = 6 * length toks + 6"

definition parse_filter :: "bytes \<Rightarrow> (bytes + pfilter) option" where
  "parse_filter s =
    (let toks = tokenize s in
     if toks = [] then Some (Inl (lit ''empty filter''))
     else map_option (\<lambda>r. and_then r (\<lambda>(f, rest).
       case rest of [] \<Rightarrow> Inr f | t # _ \<Rightarrow> Inl (lit ''unexpected trailing token '' @ quoted t))) (parse_or (parse_fuel toks) toks))"

lemma take_value_shorter: "take_value what toks = Inr (v, rest) \<Longrightarrow> length rest < length toks"
  by (cases toks) (auto split: if_splits)

lemma parse_in_values_shorter: "parse_in_values vals toks = Inr (vs, rest) \<Longrightarrow> length rest < length toks"
proof (induction toks arbitrary: vals rule: length_induct)
  case (1 toks)
  then obtain t ts where toks: "toks = t # ts"
    by (cases toks) auto
  with "1.prems" obtain v where v: "take_value ''a value in the IN list'' (t # ts) = Inr (v, ts)"
    by (auto simp: and_then_eq_Inr simp del: lit_simps split: if_splits)
  show ?case
  proof (cases ts)
    case (Cons sep r)
    with "1.prems" v have "parse_in_values (vals @ [v]) r = Inr (vs, rest) \<or> rest = r"
      by (simp add: toks del: lit_simps take_value.simps split: if_splits)
    then show ?thesis
      using "1.IH" [rule_format, of r "vals @ [v]"] Cons by (auto simp: toks)
  qed (use "1.prems" v in \<open>simp add: toks del: lit_simps take_value.simps\<close>)
qed

lemma parse_in_shorter: "parse_in field toks = Inr (f, rest) \<Longrightarrow> length rest < length toks"
  by (auto simp: parse_in_def and_then_eq_Inr simp del: lit_simps dest!: parse_in_values_shorter split: list.splits if_splits)

lemma parse_between_shorter:
  assumes "parse_between field toks = Inr (f, rest)"
  shows "length rest < length toks"
proof -
  obtain lo ts where v: "take_value ''the BETWEEN lower bound'' toks = Inr (lo, ts)"
    using assms by (auto simp: parse_between_def and_then_eq_Inr)
  with assms obtain t us hi where "ts = t # us" "take_value ''the BETWEEN upper bound'' us = Inr (hi, rest)"
    by (cases ts) (auto simp: parse_between_def and_then_eq_Inr simp del: lit_simps split: if_splits)
  then show ?thesis
    using take_value_shorter [OF v] by (auto dest!: take_value_shorter)
qed

lemma parse_predicate_shorter: "parse_predicate toks = Inr (f, rest) \<Longrightarrow> length rest < length toks"
proof (induction toks rule: parse_predicate.induct)
  case (2 field toks)
  then obtain op ts where ts: "toks = op # ts"
    by (cases toks) (auto split: if_splits)
  have "length rest \<le> length ts"
    using "2.prems"
    by (auto simp: ts Let_def and_then_eq_Inr simp del: lit_simps take_value.simps
        dest!: take_value_shorter parse_in_shorter parse_between_shorter split: if_splits)
  then show ?case
    by (simp add: ts)
qed simp

lemma parse_shorter:
  "parse_or n toks = Some (Inr (f, rest)) \<Longrightarrow> length rest < length toks"
  "or_loop n parts toks = Some (Inr (f, rest)) \<Longrightarrow> length rest \<le> length toks"
  "parse_and n toks = Some (Inr (f, rest)) \<Longrightarrow> length rest < length toks"
  "and_loop n parts toks = Some (Inr (f, rest)) \<Longrightarrow> length rest \<le> length toks"
  "parse_not n toks = Some (Inr (f, rest)) \<Longrightarrow> length rest < length toks"
  "parse_atom n toks = Some (Inr (f, rest)) \<Longrightarrow> length rest < length toks"
proof (induction n toks and n parts toks and n toks and n parts toks and n toks and n toks arbitrary: f rest and f rest and f rest and f rest and f rest and f rest
    rule: parse_or_or_loop_parse_and_and_loop_parse_not_parse_atom.induct)
  case (2 n toks)
  then show ?case
    by (fastforce split: option.splits sum.splits prod.splits)
next
  case (4 n parts toks)
  then show ?case
    by (fastforce split: option.splits sum.splits prod.splits if_splits)
next
  case (6 n toks)
  then show ?case
    by (fastforce split: option.splits sum.splits prod.splits)
next
  case (8 n parts toks)
  then show ?case
    by (fastforce split: option.splits sum.splits prod.splits if_splits)
next
  case (10 n toks)
  then show ?case
    by (fastforce split: option.splits sum.splits prod.splits if_splits)
next
  case (12 n toks)
  then show ?case
    by (fastforce dest: parse_predicate_shorter split: option.splits sum.splits prod.splits if_splits)
qed auto

lemma parse_fuel_enough:
  "6 * length toks + 4 \<le> n \<Longrightarrow> parse_or n toks \<noteq> None"
  "6 * length toks + 1 \<le> n \<Longrightarrow> or_loop n parts toks \<noteq> None"
  "6 * length toks + 3 \<le> n \<Longrightarrow> parse_and n toks \<noteq> None"
  "6 * length toks + 1 \<le> n \<Longrightarrow> and_loop n parts toks \<noteq> None"
  "6 * length toks + 2 \<le> n \<Longrightarrow> parse_not n toks \<noteq> None"
  "6 * length toks + 1 \<le> n \<Longrightarrow> parse_atom n toks \<noteq> None"
proof (induction n toks and n parts toks and n toks and n parts toks and n toks and n toks
    rule: parse_or_or_loop_parse_and_and_loop_parse_not_parse_atom.induct)
  case (2 n toks)
  then obtain y where y: "parse_and n toks = Some y"
    by auto
  show ?case
  proof (cases y)
    case (Inr p)
    then show ?thesis
      using y 2 parse_shorter(3) [of n toks "fst p" "snd p"] by (cases p) auto
  qed (simp add: y)
next
  case (4 n parts toks)
  show ?case
  proof (cases "next_is ''OR'' toks")
    case True
    then have t: "length (tl toks) + 1 = length toks"
      by (cases toks) auto
    then obtain y where y: "parse_and n (tl toks) = Some y"
      using 4 True by auto
    show ?thesis
    proof (cases y)
      case (Inr p)
      then show ?thesis
        using y 4 t True parse_shorter(3) [of n "tl toks" "fst p" "snd p"] by (cases p) auto
    qed (simp add: y True)
  qed simp
next
  case (6 n toks)
  then obtain y where y: "parse_not n toks = Some y"
    by auto
  show ?case
  proof (cases y)
    case (Inr p)
    then show ?thesis
      using y 6 parse_shorter(5) [of n toks "fst p" "snd p"] by (cases p) auto
  qed (simp add: y)
next
  case (8 n parts toks)
  show ?case
  proof (cases "next_is ''AND'' toks")
    case True
    then have t: "length (tl toks) + 1 = length toks"
      by (cases toks) auto
    then obtain y where y: "parse_not n (tl toks) = Some y"
      using 8 True by auto
    show ?thesis
    proof (cases y)
      case (Inr p)
      then show ?thesis
        using y 8 t True parse_shorter(5) [of n "tl toks" "fst p" "snd p"] by (cases p) auto
    qed (simp add: y True)
  qed simp
next
  case (10 n toks)
  then show ?case
    by (cases toks) (auto split: option.splits sum.splits prod.splits)
next
  case (12 n toks)
  then show ?case
    by (cases toks) (auto split: option.splits sum.splits prod.splits)
qed auto

subsection \<open>Printing filters\<close>

fun value_tok :: "pvalue \<Rightarrow> bytes" where
  "value_tok (Keyword k) = k"
| "value_tok (PInt i) = int_text i"

fun range_toks :: "bound \<Rightarrow> bound \<Rightarrow> bytes list" where
  "range_toks (Included a) Unbounded = [lit ''>='', value_tok a]"
| "range_toks (Excluded a) Unbounded = [lit ''>'', value_tok a]"
| "range_toks Unbounded (Included b) = [lit ''<='', value_tok b]"
| "range_toks Unbounded (Excluded b) = [lit ''<'', value_tok b]"
| "range_toks (Included a) (Included b) = [lit ''BETWEEN'', value_tok a, lit ''AND'', value_tok b]"
| "range_toks _ _ = []"

definition separated :: "string \<Rightarrow> bytes list list \<Rightarrow> bytes list" where
  "separated kw tss = tl (concat (map (\<lambda>ts. lit kw # ts) tss))"

definition paren :: "bool \<Rightarrow> bytes list \<Rightarrow> bytes list" where
  "paren b ts = (if b then lit ''('' # ts @ [lit '')''] else ts)"

text \<open>The tokens of a filter at the level of an OR (0), an AND (1) or a NOT (2).\<close>

fun filter_toks :: "nat \<Rightarrow> pfilter \<Rightarrow> bytes list" where
  "filter_toks l (F_Eq f v) = [f, lit ''='', value_tok v]"
| "filter_toks l (F_In f vs) = [f, lit ''IN'', lit ''(''] @ separated '','' (map (\<lambda>v. [value_tok v]) vs) @ [lit '')'']"
| "filter_toks l (F_Range f lo hi) = f # range_toks lo hi"
| "filter_toks l (F_Exists f) = [f, lit ''EXISTS'']"
| "filter_toks l (F_And ps) = paren (1 < l) (separated ''AND'' (map (filter_toks 2) ps))"
| "filter_toks l (F_Or ps) = paren (0 < l) (separated ''OR'' (map (filter_toks 1) ps))"
| "filter_toks l (F_Not p) = lit ''NOT'' # filter_toks 2 p"

definition filter_text :: "pfilter \<Rightarrow> bytes" where
  "filter_text f = concat (map (\<lambda>t. t @ [32]) (filter_toks 0 f))"

definition word_tok :: "bytes \<Rightarrow> bool" where
  "word_tok t \<longleftrightarrow> t \<noteq> [] \<and> list_all (\<lambda>b. 32 < b \<and> b < 128 \<and> b \<notin> {40, 41, 44, 60, 61, 62}) t"

definition name_ok :: "bytes \<Rightarrow> bool" where
  "name_ok t \<longleftrightarrow> word_tok t \<and> \<not> is_reserved t"

fun value_ok :: "pvalue \<Rightarrow> bool" where
  "value_ok (Keyword k) \<longleftrightarrow> name_ok k \<and> parse_i64 k = None"
| "value_ok (PInt i) \<longleftrightarrow> is_i64 i"

fun range_ok :: "bound \<Rightarrow> bound \<Rightarrow> bool" where
  "range_ok (Included a) Unbounded \<longleftrightarrow> value_ok a"
| "range_ok (Excluded a) Unbounded \<longleftrightarrow> value_ok a"
| "range_ok Unbounded (Included b) \<longleftrightarrow> value_ok b"
| "range_ok Unbounded (Excluded b) \<longleftrightarrow> value_ok b"
| "range_ok (Included a) (Included b) \<longleftrightarrow> value_ok a \<and> value_ok b"
| "range_ok _ _ \<longleftrightarrow> False"

fun filter_ok :: "pfilter \<Rightarrow> bool" where
  "filter_ok (F_Eq f v) \<longleftrightarrow> name_ok f \<and> value_ok v"
| "filter_ok (F_In f vs) \<longleftrightarrow> name_ok f \<and> vs \<noteq> [] \<and> list_all value_ok vs"
| "filter_ok (F_Range f lo hi) \<longleftrightarrow> name_ok f \<and> range_ok lo hi"
| "filter_ok (F_Exists f) \<longleftrightarrow> name_ok f"
| "filter_ok (F_And ps) \<longleftrightarrow> 2 \<le> length ps \<and> (\<forall>p\<in>set ps. filter_ok p)"
| "filter_ok (F_Or ps) \<longleftrightarrow> 2 \<le> length ps \<and> (\<forall>p\<in>set ps. filter_ok p)"
| "filter_ok (F_Not p) \<longleftrightarrow> filter_ok p"

lemma ascii_digit_cases: "is_ascii_digit b \<Longrightarrow> b \<in> {48, 49, 50, 51, 52, 53, 54, 55, 56, 57}"
proof -
  assume "is_ascii_digit b"
  then have "48 \<le> unat b \<and> unat b \<le> 57"
    by (simp add: is_ascii_digit_def word_le_nat_alt)
  then have "unat b = 48 \<or> unat b = 49 \<or> unat b = 50 \<or> unat b = 51 \<or> unat b = 52 \<or> unat b = 53 \<or> unat b = 54 \<or>
      unat b = 55 \<or> unat b = 56 \<or> unat b = 57"
    by presburger
  then show ?thesis
    by (simp add: word_unat_eq_iff)
qed

lemma int_text_bytes: "b \<in> set (int_text i) \<Longrightarrow> b = 45 \<or> b \<in> {48, 49, 50, 51, 52, 53, 54, 55, 56, 57}"
  using dec_text_digits ascii_digit_cases by (auto simp: int_text_def list_all_iff split: if_splits)

lemma int_text_not_Nil: "int_text i \<noteq> []"
  using dec_text_Cons by (auto simp: int_text_def) (metis list.distinct(1))

lemma int_text_name [simp]: "name_ok (int_text i)"
proof -
  obtain b bs where t: "int_text i = b # bs"
    using int_text_not_Nil by (cases "int_text i") auto
  then have "b = 45 \<or> b \<in> {48, 49, 50, 51, 52, 53, 54, 55, 56, 57}"
    using int_text_bytes [of b i] by simp
  then have "\<not> is_reserved (int_text i)"
    by (auto simp: t is_reserved_def punctuation_def is_keyword_def to_ascii_uppercase_def)
  moreover have "32 < b \<and> b < 128 \<and> b \<notin> {40, 41, 44, 60, 61, 62}" if "b \<in> set (int_text i)" for b
    using int_text_bytes [OF that] by auto
  ultimately show ?thesis
    using int_text_not_Nil [of i] by (simp add: name_ok_def word_tok_def list_all_iff)
qed

lemma value_tok_ok: "value_ok v \<Longrightarrow> name_ok (value_tok v) \<and> value_parse (value_tok v) = v"
  by (cases v) (auto simp: value_parse_def parse_i64_text)

lemma take_value_tok: "value_ok v \<Longrightarrow> take_value what (value_tok v # rest) = Inr (v, rest)"
  using value_tok_ok [of v] by (simp add: name_ok_def)
subsection \<open>Printed filters parse back\<close>

definition reads :: "(nat \<Rightarrow> bytes list \<Rightarrow> pfilter parse option) \<Rightarrow> (bytes list \<Rightarrow> bool) \<Rightarrow> bytes list \<Rightarrow> pfilter \<Rightarrow> bool" where
  "reads p stop toks f \<longleftrightarrow> (\<forall>n rest. stop rest \<longrightarrow> p n (toks @ rest) = None \<or> p n (toks @ rest) = Some (Inr (f, rest)))"

abbreviation and_stop :: "bytes list \<Rightarrow> bool" where
  "and_stop rest \<equiv> \<not> next_is ''AND'' rest"

abbreviation or_stop :: "bytes list \<Rightarrow> bool" where
  "or_stop rest \<equiv> \<not> next_is ''AND'' rest \<and> \<not> next_is ''OR'' rest"

lemma readsI:
  assumes "\<And>toks. p 0 toks = None"
    and "\<And>n rest. stop rest \<Longrightarrow> p (Suc n) (toks @ rest) = None \<or> p (Suc n) (toks @ rest) = Some (Inr (f, rest))"
  shows "reads p stop toks f"
  unfolding reads_def using assms by (metis not0_implies_Suc)

lemma readsD: "reads p stop toks f \<Longrightarrow> stop rest \<Longrightarrow> p n (toks @ rest) = None \<or> p n (toks @ rest) = Some (Inr (f, rest))"
  by (simp add: reads_def)

lemma and_loop_stop: "and_stop rest \<Longrightarrow> and_loop n parts rest = None \<or> and_loop n parts rest = Some (Inr (one_or F_And parts, rest))"
  by (cases n) auto

lemma or_loop_stop: "or_stop rest \<Longrightarrow> or_loop n parts rest = None \<or> or_loop n parts rest = Some (Inr (one_or F_Or parts, rest))"
  by (cases n) auto

lemma keyword_lit: "is_keyword (lit ''AND'') ''AND''" "is_keyword (lit ''OR'') ''OR''" "is_keyword (lit ''NOT'') ''NOT''"
  "\<not> is_keyword (lit ''OR'') ''AND''" "\<not> is_keyword (lit ''('') ''NOT''" "\<not> is_keyword (lit '')'') ''AND''" "\<not> is_keyword (lit '')'') ''OR''"
  by (simp_all add: is_keyword_def to_ascii_uppercase_def)

lemma reads_and_single:
  assumes "reads parse_not (\<lambda>_. True) toks f"
  shows "reads parse_and and_stop toks f"
proof (rule readsI)
  fix n rest assume "and_stop rest"
  then show "parse_and (Suc n) (toks @ rest) = None \<or> parse_and (Suc n) (toks @ rest) = Some (Inr (f, rest))"
    using readsD [OF assms, where rest = rest and n = n] and_loop_stop [of rest n "[f]"] by (auto simp: one_or_def)
qed simp

lemma reads_or_single:
  assumes "reads parse_and and_stop toks f"
  shows "reads parse_or or_stop toks f"
proof (rule readsI)
  fix n rest assume "or_stop rest"
  then show "parse_or (Suc n) (toks @ rest) = None \<or> parse_or (Suc n) (toks @ rest) = Some (Inr (f, rest))"
    using readsD [OF assms, where rest = rest and n = n] or_loop_stop [of rest n "[f]"] by (auto simp: one_or_def)
qed simp

lemma reads_not:
  assumes "reads parse_not (\<lambda>_. True) toks f"
  shows "reads parse_not (\<lambda>_. True) (lit ''NOT'' # toks) (F_Not f)"
proof (rule readsI)
  fix n rest
  show "parse_not (Suc n) ((lit ''NOT'' # toks) @ rest) = None \<or> parse_not (Suc n) ((lit ''NOT'' # toks) @ rest) = Some (Inr (F_Not f, rest))"
    using readsD [OF assms, where rest = rest and n = n] keyword_lit by (auto simp del: lit_simps)
qed simp

lemma reads_paren:
  assumes "reads parse_or or_stop toks f"
  shows "reads parse_not (\<lambda>_. True) (paren True toks) f"
proof (rule readsI)
  fix n rest
  show "parse_not (Suc n) (paren True toks @ rest) = None \<or> parse_not (Suc n) (paren True toks @ rest) = Some (Inr (f, rest))"
  proof (cases n)
    case (Suc m)
    then show ?thesis
      using readsD [OF assms, where rest = "lit '')'' # rest" and n = m] keyword_lit by (auto simp: paren_def simp del: lit_simps)
  qed (simp add: paren_def keyword_lit del: lit_simps)
qed simp

lemma and_loop_reads:
  assumes "\<forall>p\<in>set ps. reads parse_not (\<lambda>_. True) (g p) p" and "and_stop rest"
  shows "and_loop n acc (concat (map (\<lambda>p. lit ''AND'' # g p) ps) @ rest) = None \<or>
    and_loop n acc (concat (map (\<lambda>p. lit ''AND'' # g p) ps) @ rest) = Some (Inr (one_or F_And (acc @ ps), rest))"
  using assms(1)
proof (induction ps arbitrary: acc n)
  case Nil
  then show ?case
    using and_loop_stop [OF assms(2)] by simp
next
  case (Cons p ps)
  show ?case
  proof (cases n)
    case (Suc m)
    let ?more = "concat (map (\<lambda>p. lit ''AND'' # g p) ps) @ rest"
    from Cons.prems have "parse_not m (g p @ ?more) = None \<or> parse_not m (g p @ ?more) = Some (Inr (p, ?more))"
      by (intro readsD) simp_all
    then show ?thesis
      using Cons.IH [of m "acc @ [p]"] Cons.prems by (auto simp: Suc keyword_lit simp del: lit_simps)
  qed simp
qed

lemma or_loop_reads:
  assumes "\<forall>p\<in>set ps. reads parse_and and_stop (g p) p" and "or_stop rest"
  shows "or_loop n acc (concat (map (\<lambda>p. lit ''OR'' # g p) ps) @ rest) = None \<or>
    or_loop n acc (concat (map (\<lambda>p. lit ''OR'' # g p) ps) @ rest) = Some (Inr (one_or F_Or (acc @ ps), rest))"
  using assms(1)
proof (induction ps arbitrary: acc n)
  case Nil
  then show ?case
    using or_loop_stop [OF assms(2)] by simp
next
  case (Cons p ps)
  show ?case
  proof (cases n)
    case (Suc m)
    let ?more = "concat (map (\<lambda>p. lit ''OR'' # g p) ps) @ rest"
    have "and_stop ?more"
      using assms(2) by (cases ps) (simp_all add: keyword_lit del: lit_simps)
    with Cons.prems have "parse_and m (g p @ ?more) = None \<or> parse_and m (g p @ ?more) = Some (Inr (p, ?more))"
      by (intro readsD [where stop = and_stop]) simp_all
    then show ?thesis
      using Cons.IH [of m "acc @ [p]"] Cons.prems by (auto simp: Suc keyword_lit simp del: lit_simps)
  qed simp
qed

lemma separated_Cons: "separated kw (ts # tss) = ts @ concat (map (\<lambda>ts. lit kw # ts) tss)"
  by (simp add: separated_def)

lemma reads_and_list:
  assumes "\<forall>p\<in>set ps. reads parse_not (\<lambda>_. True) (g p) p" and "2 \<le> length ps"
  shows "reads parse_and and_stop (separated ''AND'' (map g ps)) (F_And ps)"
proof (rule readsI)
  fix n rest assume rest: "and_stop rest"
  obtain p qs where ps: "ps = p # qs" "qs \<noteq> []"
    using assms(2) by (cases ps; cases "tl ps") auto
  let ?more = "concat (map (\<lambda>p. lit ''AND'' # g p) qs) @ rest"
  have "parse_not n (g p @ ?more) = None \<or> parse_not n (g p @ ?more) = Some (Inr (p, ?more))"
    using assms(1) by (intro readsD) (simp_all add: ps)
  then show "parse_and (Suc n) (separated ''AND'' (map g ps) @ rest) = None \<or>
      parse_and (Suc n) (separated ''AND'' (map g ps) @ rest) = Some (Inr (F_And ps, rest))"
    using and_loop_reads [of qs g rest n "[p]"] assms(1) ps rest
    by (auto simp: separated_Cons one_or_def comp_def simp del: lit_simps)
qed simp

lemma reads_or_list:
  assumes "\<forall>p\<in>set ps. reads parse_and and_stop (g p) p" and "2 \<le> length ps"
  shows "reads parse_or or_stop (separated ''OR'' (map g ps)) (F_Or ps)"
proof (rule readsI)
  fix n rest assume rest: "or_stop rest"
  obtain p qs where ps: "ps = p # qs" "qs \<noteq> []"
    using assms(2) by (cases ps; cases "tl ps") auto
  let ?more = "concat (map (\<lambda>p. lit ''OR'' # g p) qs) @ rest"
  have "and_stop ?more"
    using rest by (cases qs) (simp_all add: keyword_lit del: lit_simps)
  then have "parse_and n (g p @ ?more) = None \<or> parse_and n (g p @ ?more) = Some (Inr (p, ?more))"
    using assms(1) by (intro readsD [where stop = and_stop]) (simp_all add: ps)
  then show "parse_or (Suc n) (separated ''OR'' (map g ps) @ rest) = None \<or>
      parse_or (Suc n) (separated ''OR'' (map g ps) @ rest) = Some (Inr (F_Or ps, rest))"
    using or_loop_reads [of qs g rest n "[p]"] assms(1) ps rest
    by (auto simp: separated_Cons one_or_def comp_def simp del: lit_simps)
qed simp

lemma name_not_special: "name_ok t \<Longrightarrow> \<not> is_keyword t ''NOT'' \<and> t \<noteq> lit ''('' \<and> \<not> is_reserved t"
  by (auto simp: name_ok_def is_reserved_def punctuation_def)

lemma reads_predicate:
  assumes "name_ok t" and "\<And>rest. parse_predicate (t # ts @ rest) = Inr (f, rest)"
  shows "reads parse_not (\<lambda>_. True) (t # ts) f"
proof (rule readsI)
  fix n rest
  show "parse_not (Suc n) ((t # ts) @ rest) = None \<or> parse_not (Suc n) ((t # ts) @ rest) = Some (Inr (f, rest))"
    using name_not_special [OF assms(1)] assms(2) [of rest] by (cases n) (auto simp del: lit_simps parse_predicate.simps)
qed simp
lemma parse_in_values_toks:
  assumes "value_ok v" and "list_all value_ok vs"
  shows "parse_in_values acc (value_tok v # concat (map (\<lambda>v. [lit '','', value_tok v]) vs) @ lit '')'' # rest) = Inr (acc @ v # vs, rest)"
  using assms
proof (induction vs arbitrary: acc v)
  case Nil
  then show ?case
    by (simp add: take_value_tok del: take_value.simps)
next
  case (Cons w vs)
  then show ?case
    using Cons.IH [of w "acc @ [v]"] by (simp add: take_value_tok del: take_value.simps)
qed

lemma reads_In:
  assumes "name_ok f" and "vs \<noteq> []" and "list_all value_ok vs"
  shows "reads parse_not (\<lambda>_. True) (filter_toks l (F_In f vs)) (F_In f vs)"
proof -
  obtain v ws where vs: "vs = v # ws"
    using assms(2) by (cases vs) auto
  have "parse_predicate (f # ([lit ''IN'', lit ''(''] @ separated '','' (map (\<lambda>v. [value_tok v]) vs) @ [lit '')'']) @ rest) = Inr (F_In f vs, rest)" for rest
    using assms parse_in_values_toks [of v ws "[]" rest] name_not_special [OF assms(1)]
    by (simp add: vs separated_Cons comp_def parse_in_def is_keyword_def to_ascii_uppercase_def del: parse_in_values.simps)
  from reads_predicate [OF assms(1) this] show ?thesis
    by simp
qed

lemma reads_Range:
  assumes "name_ok f" and "range_ok lo hi"
  shows "reads parse_not (\<lambda>_. True) (filter_toks l (F_Range f lo hi)) (F_Range f lo hi)"
proof -
  have "parse_predicate (f # range_toks lo hi @ rest) = Inr (F_Range f lo hi, rest)" for rest
    using assms(2) name_not_special [OF assms(1)]
    by (induction lo hi rule: range_ok.induct)
      (simp_all add: take_value_tok parse_between_def is_keyword_def to_ascii_uppercase_def del: take_value.simps)
  from reads_predicate [OF assms(1) this] show ?thesis
    by simp
qed

lemma reads_pred:
  "name_ok f \<Longrightarrow> value_ok v \<Longrightarrow> reads parse_not (\<lambda>_. True) (filter_toks l (F_Eq f v)) (F_Eq f v)"
  "name_ok f \<Longrightarrow> reads parse_not (\<lambda>_. True) (filter_toks l (F_Exists f)) (F_Exists f)"
  by (auto intro!: reads_predicate dest: name_not_special
      simp: take_value_tok is_keyword_def to_ascii_uppercase_def simp del: take_value.simps)

lemma filter_reads:
  "filter_ok f \<Longrightarrow> reads parse_not (\<lambda>_. True) (filter_toks 2 f) f \<and> reads parse_and and_stop (filter_toks 1 f) f \<and>
    reads parse_or or_stop (filter_toks 0 f) f"
proof (induction f)
  case (F_And ps)
  then have "reads parse_and and_stop (separated ''AND'' (map (filter_toks 2) ps)) (F_And ps)"
    by (intro reads_and_list) auto
  then show ?case
    using reads_or_single reads_paren by (auto simp: paren_def [of False])
next
  case (F_Or ps)
  then have "reads parse_or or_stop (separated ''OR'' (map (filter_toks 1) ps)) (F_Or ps)"
    by (intro reads_or_list) auto
  then show ?case
    using reads_and_single reads_paren by (auto simp: paren_def [of False])
next
  case (F_Not f)
  then show ?case
    using reads_not [of "filter_toks 2 f" f] by (auto intro!: reads_and_single reads_or_single simp del: lit_simps)
qed (use reads_In reads_Range reads_pred in \<open>auto intro!: reads_and_single reads_or_single simp del: filter_toks.simps\<close>)

definition tok_ok :: "bytes \<Rightarrow> bool" where
  "tok_ok t \<longleftrightarrow> word_tok t \<or> t \<in> set punctuation"

lemma tokenize_word:
  "list_all (\<lambda>b. 32 < b \<and> b < 128 \<and> b \<notin> {40, 41, 44, 60, 61, 62}) w \<Longrightarrow> tokenize_acc cur (w @ rest) = tokenize_acc (cur @ w) rest"
  by (induction w arbitrary: cur) (auto simp: ws_len_plain)

lemma tokenize_tok: "tok_ok t \<Longrightarrow> tokenize_acc [] (t @ 32 # rest) = t # tokenize_acc [] rest"
proof -
  assume "tok_ok t"
  moreover have "tokenize_acc [] (t @ 32 # rest) = t # tokenize_acc [] rest" if "word_tok t"
    using that tokenize_word [of t "[]" "32 # rest"] by (auto simp: word_tok_def ws_len_blank flush_tok_def)
  moreover have "tokenize_acc [] (t @ 32 # rest) = t # tokenize_acc [] rest" if "t \<in> set punctuation"
    using that by (auto simp: punctuation_def ws_len_blank flush_tok_def)
  ultimately show ?thesis
    by (auto simp: tok_ok_def)
qed

lemma tokenize_toks: "list_all tok_ok ts \<Longrightarrow> tokenize (concat (map (\<lambda>t. t @ [32]) ts)) = ts"
  unfolding tokenize_def by (induction ts) (simp_all add: tokenize_tok flush_tok_def)

lemma tok_ok_lits: "tok_ok (lit ''AND'')" "tok_ok (lit ''OR'')" "tok_ok (lit ''NOT'')" "tok_ok (lit ''IN'')" "tok_ok (lit ''BETWEEN'')"
  "tok_ok (lit ''EXISTS'')" "tok_ok (lit ''('')" "tok_ok (lit '')'')" "tok_ok (lit '','')" "tok_ok (lit ''='')" "tok_ok (lit ''<'')"
  "tok_ok (lit ''>'')" "tok_ok (lit ''<='')" "tok_ok (lit ''>='')"
  by (simp_all add: tok_ok_def word_tok_def punctuation_def)

lemma tok_ok_names: "name_ok t \<Longrightarrow> tok_ok t" "value_ok v \<Longrightarrow> tok_ok (value_tok v)"
  using value_tok_ok [of v] by (auto simp: name_ok_def tok_ok_def)

lemma separated_ok: "tok_ok (lit kw) \<Longrightarrow> \<forall>ts\<in>set tss. list_all tok_ok ts \<Longrightarrow> list_all tok_ok (separated kw tss)"
  by (cases tss) (auto simp: separated_def list_all_iff)

lemma filter_toks_ok: "filter_ok f \<Longrightarrow> list_all tok_ok (filter_toks l f)"
proof (induction f arbitrary: l)
  case (F_Range f lo hi)
  then show ?case
    by (induction lo hi rule: range_ok.induct) (auto simp: tok_ok_lits tok_ok_names simp del: lit_simps)
qed (auto simp: tok_ok_lits tok_ok_names paren_def list_all_iff [of value_ok] simp del: lit_simps intro!: separated_ok)

lemma filter_toks_not_Nil: "filter_ok f \<Longrightarrow> filter_toks l f \<noteq> []"
proof (induction f arbitrary: l)
  case (F_And ps)
  then show ?case
    by (cases ps) (auto simp: paren_def separated_Cons)
next
  case (F_Or ps)
  then show ?case
    by (cases ps) (auto simp: paren_def separated_Cons)
qed auto

text \<open>
  C6: The filter parser inverts printing: any filter with plain names and values, nested with the
  parentheses that the precedence of OR, AND and NOT requires, is parsed from its text as that very
  filter, with the fuel the parser is given.
\<close>

theorem parse_filter_roundtrip:
  assumes "filter_ok f"
  shows "parse_filter (filter_text f) = Some (Inr f)"
proof -
  let ?ts = "filter_toks 0 f"
  have t: "tokenize (filter_text f) = ?ts" "?ts \<noteq> []"
    using tokenize_toks [OF filter_toks_ok [OF assms]] filter_toks_not_Nil [OF assms] by (simp_all add: filter_text_def)
  have "parse_or (parse_fuel ?ts) ?ts \<noteq> None"
    by (rule parse_fuel_enough) (simp add: parse_fuel_def)
  moreover have "reads parse_or or_stop ?ts f"
    using filter_reads [OF assms] by simp
  ultimately have "parse_or (parse_fuel ?ts) ?ts = Some (Inr (f, []))"
    using readsD [where p = parse_or and stop = or_stop and toks = ?ts and f = f and rest = "[]" and n = "parse_fuel ?ts"] by auto
  then show ?thesis
    using t by (simp add: parse_filter_def)
qed

theorem parse_filter_roundtrip_witness:
  "parse_filter (lit ''a BETWEEN 5 AND 9 AND NOT ( b = x OR c EXISTS ) '') =
    Some (Inr (F_And [F_Range (lit ''a'') (Included (PInt 5)) (Included (PInt 9)), F_Not (F_Or [F_Eq (lit ''b'') (Keyword (lit ''x'')), F_Exists (lit ''c'')])]))"
proof -
  let ?f = "F_And [F_Range (lit ''a'') (Included (PInt 5)) (Included (PInt 9)), F_Not (F_Or [F_Eq (lit ''b'') (Keyword (lit ''x'')), F_Exists (lit ''c'')])]"
  have "filter_ok ?f" "filter_text ?f = lit ''a BETWEEN 5 AND 9 AND NOT ( b = x OR c EXISTS ) ''"
    by code_simp+
  with parse_filter_roundtrip [of ?f] show ?thesis
    by simp
qed

end
