(* ===== verification/Server_Vector.thy ===== *)
theory Server_Vector
  imports Resp_Handler Server_Payload Proto_Vector
begin

text \<open>
  The part of the vector commands above the indexes: quantizer kinds and their wire bytes
  (\<open>quant.rs\<close>), the registry of a shard's indexes, the names of indexes and payload blobs
  (\<open>shard.rs\<close>), and the RESP3 handlers of the vector commands (\<open>resp3_handler.rs\<close>) up to the call
  they make on the shards. An \<open>f32\<close> is its 32 bits.
\<close>

subsection \<open>Quantizer kinds\<close>

datatype quant_kind = Q_F32 | Q_Int8 | Q_Binary | Q_Pq nat nat | Q_TurboQuant u8

definition WIRE_KINDS :: "(u8 \<times> quant_kind) list" where
  "WIRE_KINDS = [(0, Q_F32), (1, Q_Int8), (2, Q_Binary), (3, Q_TurboQuant 1), (4, Q_TurboQuant 2), (5, Q_TurboQuant 4)]"

definition from_wire :: "u8 \<Rightarrow> quant_kind option" where
  "from_wire byte = map_of WIRE_KINDS byte"

definition to_wire :: "quant_kind \<Rightarrow> u8 option" where
  "to_wire kind = map_of (map (\<lambda>(b, k). (k, b)) WIRE_KINDS) kind"

definition wire_name :: "quant_kind \<Rightarrow> bytes option" where
  "wire_name kind =
    Option.bind (to_wire kind) (map_of [(0, lit ''f32''), (1, lit ''int8''), (2, lit ''binary''), (3, lit ''tq1''), (4, lit ''tq2''), (5, lit ''tq4'')])"

fun validate_dim :: "quant_kind \<Rightarrow> nat \<Rightarrow> bytes + unit" where
  "validate_dim (Q_TurboQuant bits) dim =
    (let codes_per_byte = 8 div unat bits in
     if dim mod codes_per_byte \<noteq> 0 then
       Inl (lit ''tq'' @ dec_text (unat bits) @ lit '' requires a dimension divisible by '' @ dec_text codes_per_byte @ lit '' (got '' @ dec_text dim @ lit '')'')
     else Inr ())"
| "validate_dim (Q_Pq m k) dim =
    (if m = 0 \<or> dim mod m \<noteq> 0 then
       Inl (lit ''PQ requires the dimension ('' @ dec_text dim @ lit '') to be divisible by m ('' @ dec_text m @ lit '')'')
     else Inr ())"
| "validate_dim _ dim = Inr ()"

lemma from_to_wire: "from_wire b = Some k \<longleftrightarrow> to_wire k = Some b"
  by (auto simp: from_wire_def to_wire_def WIRE_KINDS_def split: if_splits)

subsection \<open>The registry of disk indexes\<close>

definition VINDEX_REGISTRY_V2_MAGIC :: bytes where
  "VINDEX_REGISTRY_V2_MAGIC = lit ''SVI2''"

record registry_entry =
  re_name :: bytes
  re_dim :: nat
  re_kind :: "u8 option"

definition write_registry_entry :: "bytes \<times> nat \<times> u8 \<Rightarrow> bytes" where
  "write_registry_entry e =
    (case e of (name, dim, kind) \<Rightarrow> u16_to_le (of_nat (length name)) @ name @ u32_to_le (of_nat dim) @ [kind])"

definition write_registry :: "(bytes \<times> nat \<times> u8) list \<Rightarrow> bytes" where
  "write_registry entries =
    VINDEX_REGISTRY_V2_MAGIC @ u32_to_le (of_nat (length entries)) @ concat (map write_registry_entry entries)"

fun read_registry_entries :: "bool \<Rightarrow> bytes \<Rightarrow> nat \<Rightarrow> nat \<Rightarrow> registry_entry list" where
  "read_registry_entries versioned bs pos 0 = []"
| "read_registry_entries versioned bs pos (Suc n) =
    (if pos + 2 > length bs then []
     else
       let nlen = unat (u16_from_le (bslice pos (pos + 2) bs));
           pos = pos + 2;
           tail = 4 + (if versioned then 1 else 0) in
       if pos + nlen + tail > length bs then []
       else
         let name = from_utf8_lossy (bslice pos (pos + nlen) bs);
             pos = pos + nlen;
             dim = unat (u32_from_le (bslice pos (pos + 4) bs));
             pos = pos + 4;
             kind = (if versioned \<and> from_wire (bs ! pos) \<noteq> None then Some (bs ! pos) else None);
             pos = (if versioned then pos + 1 else pos) in
         \<lparr>re_name = name, re_dim = dim, re_kind = kind\<rparr> # read_registry_entries versioned bs pos n)"

text \<open>The file may be missing.\<close>

definition read_registry :: "bytes option \<Rightarrow> registry_entry list" where
  "read_registry data =
    (case data of
       None \<Rightarrow> []
     | Some bs \<Rightarrow>
         let versioned = starts_with VINDEX_REGISTRY_V2_MAGIC bs;
             pos = (if versioned then 4 else 0) in
         if length bs < pos + 4 then []
         else read_registry_entries versioned bs (pos + 4) (unat (u32_from_le (bslice pos (pos + 4) bs))))"

subsection \<open>Names of indexes and payload blobs\<close>

definition PAYLOAD_MARKER :: bytes where
  "PAYLOAD_MARKER = 0 # lit ''vp''"

definition payload_key :: "u128 \<Rightarrow> bytes \<Rightarrow> u64 \<Rightarrow> bytes" where
  "payload_key tenant name vid = u128_to_le tenant @ PAYLOAD_MARKER @ name @ u64_to_le vid"

definition vindex_scope_key :: "u128 \<Rightarrow> bytes \<Rightarrow> bytes" where
  "vindex_scope_key tenant index =
    (if tenant = 0 then index else concat (map hex_byte (u128_to_le tenant)) @ lit ''::'' @ index)"

fun split_colons :: "bytes \<Rightarrow> (bytes \<times> bytes) option" where
  "split_colons (a # b # rest) =
    (if a = 58 \<and> b = 58 then Some ([], rest) else map_option (\<lambda>(x, y). (a # x, y)) (split_colons (b # rest)))"
| "split_colons _ = None"

definition hex_val :: "u8 \<Rightarrow> nat option" where
  "hex_val b =
    (if 48 \<le> b \<and> b \<le> 57 then Some (unat b - 48)
     else if 97 \<le> b \<and> b \<le> 102 then Some (unat b - 87)
     else if 65 \<le> b \<and> b \<le> 70 then Some (unat b - 55)
     else None)"

text \<open>\<open>u8::from_str_radix\<close> of two characters in base 16; a leading plus is accepted.\<close>

definition hex_pair :: "u8 \<Rightarrow> u8 \<Rightarrow> u8 option" where
  "hex_pair a b =
    (case hex_val b of
       None \<Rightarrow> None
     | Some lo \<Rightarrow> if a = 43 then Some (of_nat lo) else map_option (\<lambda>hi. of_nat (16 * hi + lo)) (hex_val a))"

fun hex_pairs :: "bytes \<Rightarrow> bytes option" where
  "hex_pairs (a # b # rest) = Option.bind (hex_pair a b) (\<lambda>x. map_option ((#) x) (hex_pairs rest))"
| "hex_pairs _ = Some []"

text \<open>Names are ASCII when they come from the handlers below, so every slice is on a character boundary.\<close>

definition unscope_key :: "bytes \<Rightarrow> u128 \<times> bytes" where
  "unscope_key key =
    (case split_colons key of
       Some (hex, index) \<Rightarrow>
         if length hex = 32 then
           (case hex_pairs hex of Some bs \<Rightarrow> (u128_from_le bs, index) | None \<Rightarrow> (0, key))
         else (0, key)
     | None \<Rightarrow> (0, key))"

subsection \<open>Arguments\<close>

definition parse_vector :: "bytes \<Rightarrow> bytes + f32_bits list" where
  "parse_vector b =
    (if length b mod 4 \<noteq> 0 then Inl (lit ''vector byte length must be a multiple of 4 (f32 LE)'')
     else Inr (bytes_to_f32_vec b))"

definition parse_utf8_arg :: "bytes \<Rightarrow> string \<Rightarrow> resp_frame + bytes" where
  "parse_utf8_arg b label =
    (case from_utf8 b of Some s \<Rightarrow> Inr s | None \<Rightarrow> Inl (Frame_Error (lit ''ERR '' @ lit label @ lit '' must be UTF-8'')))"

definition parse_u32_arg :: "bytes \<Rightarrow> string \<Rightarrow> resp_frame + nat" where
  "parse_u32_arg b label = and_then (parse_utf8_arg b label) (\<lambda>s.
    case parse_uint (2 ^ 32 - 1) s of
      Some n \<Rightarrow> Inr n
    | None \<Rightarrow> Inl (Frame_Error (lit ''ERR '' @ lit label @ lit '' must be a non-negative u32'')))"

definition parse_u64_arg :: "bytes \<Rightarrow> string \<Rightarrow> resp_frame + u64" where
  "parse_u64_arg b label = and_then (parse_utf8_arg b label) (\<lambda>s.
    case parse_uint (2 ^ 64 - 1) s of
      Some n \<Rightarrow> Inr (of_nat n)
    | None \<Rightarrow> Inl (Frame_Error (lit ''ERR '' @ lit label @ lit '' must be a non-negative u64'')))"

definition parse_usize_arg :: "bytes \<Rightarrow> string \<Rightarrow> resp_frame + nat" where
  "parse_usize_arg b label = and_then (parse_utf8_arg b label) (\<lambda>s.
    case parse_uint (2 ^ 64 - 1) s of
      Some n \<Rightarrow> Inr n
    | None \<Rightarrow> Inl (Frame_Error (lit ''ERR '' @ lit label @ lit '' must be a non-negative integer'')))"

definition to_ascii_lowercase :: "bytes \<Rightarrow> bytes" where
  "to_ascii_lowercase = map (\<lambda>b. if 65 \<le> b \<and> b \<le> 90 then b + 32 else b)"

definition parse_kind_arg :: "bytes \<Rightarrow> resp_frame + u8" where
  "parse_kind_arg b = and_then (parse_utf8_arg b ''kind'') (\<lambda>s.
    let s = to_ascii_lowercase s;
        unknown = Inl (Frame_Error (lit ''ERR unknown kind '' @ [39] @ s @ [39] @ lit ''; expected f32 | int8 | binary | tq1 | tq2 | tq4''));
        by_name = (case List.find (\<lambda>(_, kind). wire_name kind = Some s) WIRE_KINDS of Some (byte, _) \<Rightarrow> Inr byte | None \<Rightarrow> unknown) in
    case parse_uint 255 s of
      Some n \<Rightarrow> if from_wire (of_nat n) \<noteq> None then Inr (of_nat n) else by_name
    | None \<Rightarrow> by_name)"

definition parse_backend_arg :: "bytes \<Rightarrow> resp_frame + u8" where
  "parse_backend_arg b = and_then (parse_utf8_arg b ''backend'') (\<lambda>s.
    let s = to_ascii_lowercase s in
    if s = lit ''flat'' \<or> s = lit ''0'' then Inr 0
    else if s = lit ''disk'' \<or> s = lit ''1'' then Inr 1
    else Inl (Frame_Error (lit ''ERR unknown backend '' @ [39] @ s @ [39] @ lit ''; expected flat | disk'')))"

definition eq_ignore_ascii_case :: "bytes \<Rightarrow> string \<Rightarrow> bool" where
  "eq_ignore_ascii_case b s \<longleftrightarrow> to_ascii_uppercase b = lit s"

subsection \<open>Vector commands\<close>

text \<open>The calls the handlers make on the shard set, with the index's scoped name first.\<close>

datatype vec_call =
    Vindex_create bytes nat u8 u8
  | Vindex_drop bytes u128
  | Vindex_consolidate bytes
  | Vset bytes u64 "f32_bits list" u128 "u64 option" "bytes option"
  | Vmset bytes "(u64 \<times> f32_bits list \<times> bytes option) list" u128 "u64 option"
  | Vdel bytes u64 u128
  | Vsearch bytes "f32_bits list" nat nat u128 bool "pfilter option"
  | Vindex_list

definition DEFAULT_KIND_TQ2 :: u8 where
  "DEFAULT_KIND_TQ2 = 4"

definition skeg_vindex_create :: "bytes list \<Rightarrow> tenant_id \<Rightarrow> resp_frame + vec_call" where
  "skeg_vindex_create args tenant =
    (let go = (\<lambda>name dim kind_arg backend_arg.
       and_then (parse_utf8_arg name ''name'') (\<lambda>raw_name.
       and_then (parse_u32_arg dim ''dim'') (\<lambda>dim.
       and_then (case kind_arg of Some b \<Rightarrow> parse_kind_arg b | None \<Rightarrow> Inr DEFAULT_KIND_TQ2) (\<lambda>kind.
       and_then (parse_backend_arg backend_arg) (\<lambda>backend.
       and_then (scope_vindex_or_reject tenant raw_name) (\<lambda>scoped.
         Inr (Vindex_create scoped dim kind backend))))))) in
     case args of
       [name, dim, kind, backend] \<Rightarrow> go name dim (Some kind) backend
     | [name, dim, backend] \<Rightarrow> go name dim None backend
     | _ \<Rightarrow> Inl (Frame_Error (lit ''ERR wrong number of arguments for '' @ [39] @ lit ''SKEG.VINDEX.CREATE'' @ [39] @ lit ''; want name dim [kind] backend'')))"

definition named_call :: "string \<Rightarrow> (bytes \<Rightarrow> vec_call) \<Rightarrow> bytes list \<Rightarrow> tenant_id \<Rightarrow> resp_frame + vec_call" where
  "named_call cmd mk args tenant =
    (case args of
       [name] \<Rightarrow>
         and_then (parse_utf8_arg name ''name'') (\<lambda>raw_name.
         and_then (scope_vindex_or_reject tenant raw_name) (\<lambda>scoped. Inr (mk scoped)))
     | _ \<Rightarrow> Inl (wrong_arity cmd))"

definition skeg_vindex_drop :: "bytes list \<Rightarrow> tenant_id \<Rightarrow> resp_frame + vec_call" where
  "skeg_vindex_drop args tenant = named_call ''SKEG.VINDEX.DROP'' (\<lambda>scoped. Vindex_drop scoped (tenant_u128 tenant)) args tenant"

definition skeg_vindex_consolidate :: "bytes list \<Rightarrow> tenant_id \<Rightarrow> resp_frame + vec_call" where
  "skeg_vindex_consolidate args tenant = named_call ''SKEG.VINDEX.CONSOLIDATE'' Vindex_consolidate args tenant"

definition vector_limit :: "auth_backend option \<Rightarrow> tenant_id \<Rightarrow> u64 option" where
  "vector_limit ctx tenant = (case ctx of None \<Rightarrow> None | Some b \<Rightarrow> max_vectors (be_limits b tenant))"

definition err_text :: "bytes + 'a \<Rightarrow> resp_frame + 'a" where
  "err_text r = (case r of Inr a \<Rightarrow> Inr a | Inl e \<Rightarrow> Inl (Frame_Error (lit ''ERR '' @ e)))"

definition skeg_vset :: "bytes list \<Rightarrow> tenant_id \<Rightarrow> auth_backend option \<Rightarrow> resp_frame + vec_call" where
  "skeg_vset args tenant ctx =
    (if length args \<noteq> 3 \<and> length args \<noteq> 5 then
       Inl (Frame_Error (lit ''ERR wrong number of arguments for '' @ [39] @ lit ''SKEG.VSET'' @ [39] @ lit ''; want name id vector [PAYLOAD blob]''))
     else
       and_then (parse_utf8_arg (args ! 0) ''name'') (\<lambda>raw_name.
       and_then (parse_u64_arg (args ! 1) ''id'') (\<lambda>vid.
       and_then (err_text (parse_vector (args ! 2))) (\<lambda>vector.
       and_then
         (if length args = 5 then
            (if \<not> eq_ignore_ascii_case (args ! 3) ''PAYLOAD'' then
               Inl (Frame_Error (lit ''ERR SKEG.VSET expected PAYLOAD before the blob''))
             else Inr (Some (args ! 4)))
          else Inr None) (\<lambda>payload.
       and_then (scope_vindex_or_reject tenant raw_name) (\<lambda>scoped.
         Inr (Vset scoped vid vector (tenant_u128 tenant) (vector_limit ctx tenant) payload)))))))"

fun vmset_items :: "bytes list \<Rightarrow> resp_frame + (u64 \<times> f32_bits list \<times> bytes option) list" where
  "vmset_items (i # v # p # rest) =
    and_then (parse_u64_arg i ''id'') (\<lambda>vid.
    and_then (err_text (parse_vector v)) (\<lambda>vector.
    and_then (vmset_items rest) (\<lambda>items. Inr ((vid, vector, if p = [] then None else Some p) # items))))"
| "vmset_items _ = Inr []"

definition skeg_vmset :: "bytes list \<Rightarrow> tenant_id \<Rightarrow> auth_backend option \<Rightarrow> resp_frame + vec_call" where
  "skeg_vmset args tenant ctx =
    (if length args < 4 \<or> (length args - 1) mod 3 \<noteq> 0 then
       Inl (Frame_Error (lit ''ERR wrong number of arguments for '' @ [39] @ lit ''SKEG.VMSET'' @ [39] @ lit ''; want name (id vector payload)+''))
     else
       and_then (parse_utf8_arg (hd args) ''name'') (\<lambda>raw_name.
       and_then (vmset_items (tl args)) (\<lambda>items.
       and_then (scope_vindex_or_reject tenant raw_name) (\<lambda>scoped.
         Inr (Vmset scoped items (tenant_u128 tenant) (vector_limit ctx tenant))))))"

definition skeg_vdel :: "bytes list \<Rightarrow> tenant_id \<Rightarrow> resp_frame + vec_call" where
  "skeg_vdel args tenant =
    (case args of
       [name, i] \<Rightarrow>
         and_then (parse_utf8_arg name ''name'') (\<lambda>raw_name.
         and_then (parse_u64_arg i ''id'') (\<lambda>vid.
         and_then (scope_vindex_or_reject tenant raw_name) (\<lambda>scoped. Inr (Vdel scoped vid (tenant_u128 tenant)))))
     | _ \<Rightarrow> Inl (Frame_Error (lit ''ERR wrong number of arguments for '' @ [39] @ lit ''SKEG.VDEL'' @ [39] @ lit ''; want name id'')))"

text \<open>The optional tail of a search; \<open>None\<close> stands for the parser running out of fuel, which it never does.\<close>

fun vsearch_tail :: "bool \<Rightarrow> pfilter option \<Rightarrow> bytes list \<Rightarrow> resp_frame + bool \<times> pfilter option" where
  "vsearch_tail want filt [] = Inr (want, filt)"
| "vsearch_tail want filt (a # rest) =
    (if eq_ignore_ascii_case a ''WITHPAYLOAD'' then vsearch_tail True filt rest
     else if eq_ignore_ascii_case a ''FILTER'' then
       (case rest of
          [] \<Rightarrow> Inl (Frame_Error (lit ''ERR SKEG.VSEARCH FILTER needs an expression''))
        | expr # rest \<Rightarrow>
            and_then (parse_utf8_arg expr ''filter'') (\<lambda>expr.
              case parse_filter expr of
                Some (Inr f) \<Rightarrow> vsearch_tail want (Some f) rest
              | Some (Inl e) \<Rightarrow> Inl (Frame_Error (lit ''ERR bad FILTER: '' @ e))
              | None \<Rightarrow> Inl Frame_Null))
     else Inl (Frame_Error (lit ''ERR unexpected SKEG.VSEARCH argument; want WITHPAYLOAD or FILTER, got '' @ [39] @ from_utf8_lossy a @ [39])))"

definition skeg_vsearch :: "bytes list \<Rightarrow> tenant_id \<Rightarrow> resp_frame + vec_call" where
  "skeg_vsearch args tenant =
    (case args of
       name # k # l # vec # tl_args \<Rightarrow>
         if length tl_args > 3 then
           Inl (Frame_Error (lit ''ERR wrong number of arguments for '' @ [39] @ lit ''SKEG.VSEARCH'' @ [39] @ lit ''; want name k l_search vector [WITHPAYLOAD] [FILTER expr]''))
         else
           and_then (parse_utf8_arg name ''name'') (\<lambda>raw_name.
           and_then (parse_usize_arg k ''k'') (\<lambda>k.
           and_then (parse_u32_arg l ''l_search'') (\<lambda>l_search.
           and_then (err_text (parse_vector vec)) (\<lambda>query.
           and_then (vsearch_tail False None tl_args) (\<lambda>(want_payload, filt).
           and_then (scope_vindex_or_reject tenant raw_name) (\<lambda>scoped.
             Inr (Vsearch scoped query k l_search (tenant_u128 tenant) want_payload filt)))))))
     | _ \<Rightarrow> Inl (Frame_Error (lit ''ERR wrong number of arguments for '' @ [39] @ lit ''SKEG.VSEARCH'' @ [39] @ lit ''; want name k l_search vector [WITHPAYLOAD] [FILTER expr]'')))"
text \<open>The listing a tenant sees, from the rows \<open>(name, dim, kind, backend, n_vectors)\<close> of all indexes.\<close>

definition strip_name :: "bytes \<Rightarrow> bytes \<Rightarrow> bytes option" where
  "strip_name pre name = (if starts_with pre name then Some (drop (length pre) name) else None)"

definition visible_name :: "tenant_id \<Rightarrow> bytes \<Rightarrow> bytes option" where
  "visible_name tenant name =
    (if tenant_is_zero tenant then (if contains (lit ''::'') name then None else Some name)
     else strip_name (tenant_display tenant @ lit ''::'') name)"

fun vindex_list_body :: "tenant_id \<Rightarrow> (bytes \<times> nat \<times> u8 \<times> u8 \<times> nat) list \<Rightarrow> resp_frame + bytes" where
  "vindex_list_body tenant [] = Inr []"
| "vindex_list_body tenant ((name, dim, kind, backend, n) # rows) =
    (case visible_name tenant name of
       None \<Rightarrow> vindex_list_body tenant rows
     | Some shown \<Rightarrow>
         (case Option.bind (from_wire kind) wire_name of
            None \<Rightarrow> Inl (Frame_Error (lit ''ERR unexpected kind byte '' @ dec_text (unat kind) @ lit '' from shard''))
          | Some kind_label \<Rightarrow>
              if backend \<noteq> 0 \<and> backend \<noteq> 1 then
                Inl (Frame_Error (lit ''ERR unexpected backend byte '' @ dec_text (unat backend) @ lit '' from shard''))
              else
                map_sum id ((@) (lit ''name='' @ shown @ lit '' dim='' @ dec_text dim @ lit '' kind='' @ kind_label @ lit '' backend='' @
                    (if backend = 0 then lit ''flat'' else lit ''disk'') @ lit '' n_vectors='' @ dec_text n @ [10]))
                  (vindex_list_body tenant rows)))"

definition skeg_vindex_list :: "tenant_id \<Rightarrow> shard_error + (bytes \<times> nat \<times> u8 \<times> u8 \<times> nat) list \<Rightarrow> resp_frame" where
  "skeg_vindex_list tenant listing =
    (case listing of
       Inl e \<Rightarrow> shard_error_frame e
     | Inr rows \<Rightarrow> (case vindex_list_body tenant rows of Inr body \<Rightarrow> Frame_Bulk body | Inl f \<Rightarrow> f))"

text \<open>The vector command of a request, and the index its call names.\<close>

fun vec_request :: "resp_command \<Rightarrow> tenant_id \<Rightarrow> auth_backend option \<Rightarrow> (resp_frame + vec_call) option" where
  "vec_request (Cmd_SkegVindexCreate args) t ctx = Some (skeg_vindex_create args t)"
| "vec_request (Cmd_SkegVindexDrop args) t ctx = Some (skeg_vindex_drop args t)"
| "vec_request (Cmd_SkegVindexConsolidate args) t ctx = Some (skeg_vindex_consolidate args t)"
| "vec_request (Cmd_SkegVset args) t ctx = Some (skeg_vset args t ctx)"
| "vec_request (Cmd_SkegVmset args) t ctx = Some (skeg_vmset args t ctx)"
| "vec_request (Cmd_SkegVdel args) t ctx = Some (skeg_vdel args t)"
| "vec_request (Cmd_SkegVsearch args) t ctx = Some (skeg_vsearch args t)"
| "vec_request Cmd_SkegVindexList t ctx = Some (Inr Vindex_list)"
| "vec_request _ t ctx = None"

fun call_index :: "vec_call \<Rightarrow> bytes option" where
  "call_index (Vindex_create n d k b) = Some n"
| "call_index (Vindex_drop n t) = Some n"
| "call_index (Vindex_consolidate n) = Some n"
| "call_index (Vset n i v t l p) = Some n"
| "call_index (Vmset n items t l) = Some n"
| "call_index (Vdel n i t) = Some n"
| "call_index (Vsearch n q k l t w f) = Some n"
| "call_index Vindex_list = None"

fun call_tenant :: "vec_call \<Rightarrow> u128 option" where
  "call_tenant (Vindex_drop n t) = Some t"
| "call_tenant (Vset n i v t l p) = Some t"
| "call_tenant (Vmset n items t l) = Some t"
| "call_tenant (Vdel n i t) = Some t"
| "call_tenant (Vsearch n q k l t w f) = Some t"
| "call_tenant _ = None"

subsection \<open>Scoping of index names\<close>

lemma hex_digits: "n < 16 \<Longrightarrow> hex_val (hex_digit n) = Some n \<and> hex_digit n \<notin> {43, 46, 47, 58, 0}"
proof -
  have "list_all (\<lambda>n. hex_val (hex_digit n) = Some n \<and> hex_digit n \<notin> {43, 46, 47, 58, 0}) [0..<16]"
    by code_simp
  then show "n < 16 \<Longrightarrow> ?thesis"
    by (simp add: list_all_iff del: upt_Suc)
qed

lemma nibbles: "unat b div 16 < 16" "unat b mod 16 < 16" "of_nat (16 * (unat b div 16) + unat b mod 16) = b" for b :: u8
proof -
  have "unat b < 256"
    using unsigned_less [of b] by simp
  then show "unat b div 16 < 16"
    by (simp add: less_mult_imp_div_less)
  show "unat b mod 16 < 16"
    by simp
  show "of_nat (16 * (unat b div 16) + unat b mod 16) = b"
    by (subst mult_div_mod_eq) simp
qed

lemma hex_pair_byte: "hex_pair (hex_digit (unat b div 16)) (hex_digit (unat b mod 16)) = Some b" for b :: u8
  using hex_digits [OF nibbles(1) [of b]] hex_digits [OF nibbles(2) [of b]] nibbles(3) [of b] by (simp add: hex_pair_def del: of_nat_add of_nat_mult)

lemma hex_pairs_bytes: "hex_pairs (concat (map hex_byte bs)) = Some bs"
  by (induction bs) (simp_all add: hex_byte_def hex_pair_byte)

lemma length_hex: "length (concat (map hex_byte bs)) = 2 * length bs"
  by (induction bs) (simp_all add: hex_byte_def)

lemma hex_bytes: "b \<in> set (concat (map hex_byte bs)) \<Longrightarrow> b \<notin> {43, 46, 47, 58, 0}"
proof -
  assume "b \<in> set (concat (map hex_byte bs))"
  then obtain x where "b \<in> set (hex_byte x)"
    by auto
  then show ?thesis
    using hex_digits [OF nibbles(1) [of x]] hex_digits [OF nibbles(2) [of x]] by (auto simp: hex_byte_def)
qed

lemma split_colons_prefix: "58 \<notin> set xs \<Longrightarrow> split_colons (xs @ 58 # 58 # rest) = Some (xs, rest)"
proof (induction xs)
  case (Cons x xs)
  then show ?case
    by (cases xs) auto
qed simp

lemma split_colons_contains: "\<not> contains (lit ''::'') s \<Longrightarrow> split_colons s = None"
  by (induction s rule: split_colons.induct) (auto simp: starts_with_def)

lemma contains_mid: "contains pat (xs @ pat @ ys)"
proof (induction xs)
  case Nil
  then show ?case
    by (cases pat; cases ys) (auto simp: starts_with_def)
qed simp

lemma tenant_u128_eq [simp]: "tenant_u128 t = t"
  by (simp add: tenant_u128_def tenant_as_bytes_def)

lemma scoped_name_matches: "scoped_vindex_name t name = vindex_scope_key (tenant_u128 t) name"
  by (simp add: scoped_vindex_name_def vindex_scope_key_def tenant_is_zero_def TENANT_ZERO_def tenant_display_def tenant_as_bytes_def)

lemma unscope_scoped:
  assumes "\<not> contains (lit ''::'') name"
  shows "unscope_key (vindex_scope_key t name) = (t, name)"
proof (cases "t = 0")
  case True
  then show ?thesis
    using split_colons_contains [OF assms] by (simp add: unscope_key_def vindex_scope_key_def)
next
  case False
  have "58 \<notin> set (concat (map hex_byte (u128_to_le t)))"
    using hex_bytes by fastforce
  then have "split_colons (vindex_scope_key t name) = Some (concat (map hex_byte (u128_to_le t)), name)"
    using split_colons_prefix [of "concat (map hex_byte (u128_to_le t))" name] False by (simp add: vindex_scope_key_def)
  then show ?thesis
    by (simp add: unscope_key_def hex_pairs_bytes length_hex del: length_concat)
qed

lemma hex_inj: "concat (map hex_byte a) = concat (map hex_byte b) \<longleftrightarrow> a = b"
  by (metis hex_pairs_bytes option.inject)

lemma tenant_display_inj: "tenant_display t = tenant_display u \<longleftrightarrow> t = u"
  by (simp add: tenant_display_def hex_inj tenant_as_bytes_inj)

lemma length_tenant_display: "length (tenant_display t) = 32"
  by (simp add: tenant_display_def length_hex del: length_concat)

lemma visible_scoped:
  assumes "\<not> contains (lit ''::'') raw"
  shows "visible_name u (scoped_vindex_name t raw) = (if u = t then Some raw else None)"
proof -
  have mid: "contains (lit ''::'') (tenant_display t @ lit ''::'' @ raw)"
    by (rule contains_mid)
  have sw: "starts_with (tenant_display u @ lit ''::'') (tenant_display t @ lit ''::'' @ raw) \<longleftrightarrow> u = t"
    using tenant_display_inj [of t u] length_tenant_display by (auto simp: starts_with_def)
  have raw: "\<not> starts_with (tenant_display u @ lit ''::'') raw"
  proof
    assume "starts_with (tenant_display u @ lit ''::'') raw"
    then have "raw = tenant_display u @ lit ''::'' @ drop 34 raw"
      using append_take_drop_id [of 34 raw] length_tenant_display by (simp add: starts_with_def)
    then show False
      using assms contains_mid by metis
  qed
  show ?thesis
    using assms mid sw raw length_tenant_display
    by (auto simp: visible_name_def scoped_vindex_name_def strip_name_def tenant_is_zero_def simp del: lit_simps)
qed

definition name_valid :: "bytes \<Rightarrow> bool" where
  "name_valid raw \<longleftrightarrow> raw \<noteq> [] \<and> length raw \<le> 255 \<and> \<not> contains (lit ''::'') raw \<and> \<not> contains (lit ''..'') raw \<and>
    raw \<noteq> lit ''.'' \<and> list_all vindex_name_char raw"

lemma scope_vindex_Inr: "scope_vindex_or_reject t raw = Inr name \<longleftrightarrow> name_valid raw \<and> name = scoped_vindex_name t raw"
  by (auto simp: scope_vindex_or_reject_def name_valid_def MAX_VINDEX_NAME_LEN_def starts_with_def)

lemma scoped_safe:
  assumes "name_valid raw"
  shows "47 \<notin> set (scoped_vindex_name t raw) \<and> 0 \<notin> set (scoped_vindex_name t raw) \<and> \<not> contains (lit ''..'') (scoped_vindex_name t raw)"
proof -
  have c: "b \<noteq> 47 \<and> b \<noteq> 0" if "b \<in> set raw" for b
    using assms that by (auto simp: name_valid_def list_all_iff vindex_name_char_def)
  have h: "b \<notin> {46, 47, 58, 0}" if "b \<in> set (tenant_display t)" for b
    using hex_bytes that unfolding tenant_display_def by blast
  have skip: "contains (lit ''..'') (xs @ ys) \<longleftrightarrow> contains (lit ''..'') ys" if "46 \<notin> set xs" for xs ys
    using that by (induction xs) (auto simp: starts_with_def)
  have "\<not> contains (lit ''..'') ((tenant_display t @ lit ''::'') @ raw)"
    using assms h by (subst skip) (auto simp: name_valid_def)
  then show ?thesis
    using assms c h by (auto simp: scoped_vindex_name_def name_valid_def)
qed

lemma vec_request_name:
  assumes "vec_request cmd t ctx = Some (Inr call)" and "call_index call = Some name"
  shows "\<exists>raw. scope_vindex_or_reject t raw = Inr name" and "call_tenant call \<in> {None, Some (tenant_u128 t)}"
  using assms
  by (cases cmd; auto simp: skeg_vindex_create_def named_call_def skeg_vindex_drop_def skeg_vindex_consolidate_def skeg_vset_def
      skeg_vmset_def skeg_vdel_def skeg_vsearch_def and_then_eq_Inr Let_def split: list.splits if_splits)+

text \<open>
  C7: Vector indexes are scoped per tenant. Whatever a tenant sends, the index a vector command acts on
  is the one that tenant's listing shows under the name it sent and no other tenant's listing shows; the
  shard recovers from the stored name the tenant and the name sent; the directory name has no path
  separator, parent reference or null byte; and the quota and payload blobs charged are the tenant's.
\<close>

theorem vindex_names_scoped:
  assumes "vec_request cmd t ctx = Some (Inr call)" and "call_index call = Some name"
  shows "\<exists>raw. (\<forall>u. visible_name u name = (if u = t then Some raw else None)) \<and> unscope_key name = (tenant_u128 t, raw) \<and>
    47 \<notin> set name \<and> 0 \<notin> set name \<and> \<not> contains (lit ''..'') name \<and> call_tenant call \<in> {None, Some (tenant_u128 t)}"
proof -
  obtain raw where "name_valid raw" "name = scoped_vindex_name t raw"
    using vec_request_name(1) [OF assms] by (auto simp: scope_vindex_Inr)
  moreover from this have "\<not> contains (lit ''::'') raw"
    by (simp add: name_valid_def)
  ultimately show ?thesis
    using vec_request_name(2) [OF assms] visible_scoped scoped_safe unscope_scoped
    by (intro exI [of _ raw]) (simp add: scoped_name_matches)
qed

theorem vindex_names_scoped_witness:
  "vec_request (Cmd_SkegVdel [lit ''docs'', lit ''7'']) 7 None = Some (Inr (Vdel (lit ''07000000000000000000000000000000::docs'') 7 7)) \<and>
   visible_name 9 (lit ''07000000000000000000000000000000::docs'') = None"
proof -
  have "vec_request (Cmd_SkegVdel [lit ''docs'', lit ''7'']) 7 None = Some (Inr (Vdel (lit ''07000000000000000000000000000000::docs'') 7 7))"
    by code_simp
  with vindex_names_scoped [OF this, of "lit ''07000000000000000000000000000000::docs''"] show ?thesis
    by (auto simp del: lit_simps)
qed

subsection \<open>Registry and payload keys\<close>

definition entry_ok :: "bytes \<times> nat \<times> u8 \<Rightarrow> bool" where
  "entry_ok e \<longleftrightarrow> (case e of (name, dim, kind) \<Rightarrow>
    from_utf8 name = Some name \<and> length name < 2 ^ 16 \<and> dim < 2 ^ 32 \<and> from_wire kind \<noteq> None)"

definition entry_of :: "bytes \<times> nat \<times> u8 \<Rightarrow> registry_entry" where
  "entry_of e = (case e of (name, dim, kind) \<Rightarrow> \<lparr>re_name = name, re_dim = dim, re_kind = Some kind\<rparr>)"

lemma read_registry_written:
  assumes "list_all entry_ok es"
  shows "read_registry_entries True (pre @ concat (map write_registry_entry es)) (length pre) (length es) = map entry_of es"
  using assms
proof (induction es arbitrary: pre)
  case (Cons e es)
  obtain name dim kind where e: "e = (name, dim, kind)"
    by (cases e)
  have ok: "length name < 2 ^ 16" "dim < 2 ^ 32" "from_wire kind \<noteq> None" "from_utf8_lossy name = name"
    using Cons.prems by (auto simp: e entry_ok_def from_utf8_def from_utf8_lossy_valid split: if_splits)
  have n: "unat (of_nat (length name) :: u16) = length name" "unat (of_nat dim :: u32) = dim"
    using ok(1,2) by (simp_all add: unat_of_nat)
  have "read_registry_entries True ((pre @ write_registry_entry e) @ concat (map write_registry_entry es))
      (length (pre @ write_registry_entry e)) (length es) = map entry_of es"
    using Cons.IH [of "pre @ write_registry_entry e"] Cons.prems by simp
  then show ?case
    using ok n
    by (simp add: e write_registry_entry_def [of "(name, dim, kind)"] entry_of_def [of "(name, dim, kind)"] Let_def bslice_def nth_append ac_simps)
qed simp

lemma registry_roundtrip:
  assumes "list_all entry_ok es" and "length es < 2 ^ 32"
  shows "read_registry (Some (write_registry es)) = map entry_of es"
proof -
  have "unat (of_nat (length es) :: u32) = length es"
    using assms(2) by (simp add: unat_of_nat)
  then show ?thesis
    using read_registry_written [OF assms(1), of "VINDEX_REGISTRY_V2_MAGIC @ u32_to_le (of_nat (length es))"]
    by (simp add: read_registry_def write_registry_def starts_with_def VINDEX_REGISTRY_V2_MAGIC_def Let_def bslice_def)
qed

lemma payload_key_inj: "payload_key t n i = payload_key u m j \<longleftrightarrow> t = u \<and> n = m \<and> i = j"
proof
  assume e: "payload_key t n i = payload_key u m j"
  then have "u128_to_le t = u128_to_le u" "n @ u64_to_le i = m @ u64_to_le j"
    by (simp_all add: payload_key_def)
  then show "t = u \<and> n = m \<and> i = j"
    by (metis append_eq_append_conv length_u64_to_le u128_from_to_le u64_from_to_le)
qed simp

end
