(* ===== verification/Resp_Session.thy ===== *)
theory Resp_Session
  imports Server_Vector
begin

text \<open>
  A RESP3 session (\<open>resp3_handler.rs\<close>): the session state, the admission gate's view of a command,
  the administrative commands, and the whole dispatcher. Commands that end in a call on the vector
  indexes return that call; key-value commands run on the shards.
\<close>

subsection \<open>Admission\<close>

datatype cmd_class =
    KvRead | KvWrite | VectorRead | VectorWrite | VindexCreate | VindexDrop | VindexConsolidate | VindexList | Admin | Meta

definition cost_arg :: "bytes list \<Rightarrow> nat \<Rightarrow> nat" where
  "cost_arg args i =
    (if i < length args then
       (case Option.bind (from_utf8 (args ! i)) (parse_uint (2 ^ 32 - 1)) of Some n \<Rightarrow> n | None \<Rightarrow> 0)
     else 0)"

fun command_cost :: "resp_command \<Rightarrow> nat" where
  "command_cost (Cmd_SkegVsearch args) = max (min (2 ^ 32 - 1) (cost_arg args 1 + cost_arg args 2)) 1"
| "command_cost (Cmd_SkegSubjectErase args) = 100"
| "command_cost (Cmd_SkegTenantErase args) = 100"
| "command_cost (Cmd_SkegTenantDelete args) = 100"
| "command_cost Cmd_SkegReclaim = 1000"
| "command_cost _ = 1"

fun command_kind :: "resp_command \<Rightarrow> cmd_class" where
  "command_kind (Cmd_Get k) = KvRead"
| "command_kind (Cmd_Mget ks) = KvRead"
| "command_kind (Cmd_Exists ks) = KvRead"
| "command_kind (Cmd_Set k v) = KvWrite"
| "command_kind (Cmd_Append k v) = KvWrite"
| "command_kind (Cmd_Mset ps) = KvWrite"
| "command_kind (Cmd_Del ks) = KvWrite"
| "command_kind (Cmd_Incr k) = KvWrite"
| "command_kind (Cmd_Decr k) = KvWrite"
| "command_kind (Cmd_IncrBy k d) = KvWrite"
| "command_kind (Cmd_DecrBy k d) = KvWrite"
| "command_kind (Cmd_SkegVsearch args) = VectorRead"
| "command_kind (Cmd_SkegVset args) = VectorWrite"
| "command_kind (Cmd_SkegVmset args) = VectorWrite"
| "command_kind (Cmd_SkegVdel args) = VectorWrite"
| "command_kind (Cmd_SkegVindexCreate args) = VindexCreate"
| "command_kind (Cmd_SkegVindexDrop args) = VindexDrop"
| "command_kind (Cmd_SkegVindexConsolidate args) = VindexConsolidate"
| "command_kind Cmd_SkegVindexList = VindexList"
| "command_kind (Cmd_SkegSubjectErase args) = KvWrite"
| "command_kind (Cmd_SkegTenantErase args) = Admin"
| "command_kind (Cmd_SkegTenantDelete args) = Admin"
| "command_kind Cmd_SkegReclaim = Admin"
| "command_kind (Cmd_SkegQuotaSet args) = Admin"
| "command_kind (Cmd_SkegQuotaGet args) = Admin"
| "command_kind (Cmd_SkegQosSet args) = Admin"
| "command_kind (Cmd_SkegQosGet args) = Admin"
| "command_kind _ = Meta"

record admission =
  ad_tenant :: tenant_id
  ad_op :: cmd_class
  ad_cost :: nat

text \<open>The backend of the distribution keeps the default gate, which admits every command.\<close>

definition be_admit :: "auth_backend \<Rightarrow> admission \<Rightarrow> bytes + unit" where
  "be_admit b ad = Inr ()"

fun is_pipelineable :: "resp_command \<Rightarrow> bool" where
  "is_pipelineable (Cmd_SkegVset args) = True"
| "is_pipelineable (Cmd_SkegVmset args) = True"
| "is_pipelineable (Cmd_SkegVsearch args) = True"
| "is_pipelineable (Cmd_SkegVdel args) = True"
| "is_pipelineable (Cmd_Ping m) = True"
| "is_pipelineable (Cmd_Echo m) = True"
| "is_pipelineable _ = False"

subsection \<open>Administrative commands\<close>

definition parse_quota_limit :: "bytes \<Rightarrow> resp_frame + u64 option" where
  "parse_quota_limit b =
    (if b = lit ''*'' then Inr None
     else case Option.bind (from_utf8 b) (parse_uint (2 ^ 64 - 1)) of
       Some n \<Rightarrow> Inr (Some (of_nat n))
     | None \<Rightarrow> Inl (Frame_Error (lit ''ERR limit must be a non-negative integer or '' @ [39] @ lit ''*'' @ [39] @ lit '' for unlimited'')))"

definition parse_qos_limit :: "bytes \<Rightarrow> resp_frame + u32 option" where
  "parse_qos_limit b =
    (if b = lit ''*'' then Inr None
     else case Option.bind (from_utf8 b) (parse_uint (2 ^ 32 - 1)) of
       Some n \<Rightarrow> Inr (Some (of_nat n))
     | None \<Rightarrow> Inl (Frame_Error (lit ''ERR qos limit must be a non-negative integer or '' @ [39] @ lit ''*'' @ [39] @ lit '' for unlimited'')))"

definition admin_target :: "externals \<Rightarrow> bytes \<Rightarrow> tenant_id \<Rightarrow> auth_backend option \<Rightarrow> resp_frame + auth_backend \<times> tenant_id" where
  "admin_target x name_arg caller ctx =
    (case ctx of
       None \<Rightarrow> Inl (Frame_Error (lit ''ERR multi-tenant backend not configured''))
     | Some backend \<Rightarrow>
         if \<not> be_is_admin backend caller then Inl (Frame_Error (lit ''ERR admin privileges required''))
         else and_then (parse_utf8_arg name_arg ''tenant'') (\<lambda>name.
           case be_resolve_tenant (x_xxh3_128 x) backend name of
             Some target \<Rightarrow> Inr (backend, target)
           | None \<Rightarrow> Inl (Frame_Error (lit ''ERR unknown tenant''))))"

text \<open>The parser has checked the number of arguments; \<open>io_ok\<close> says whether the limits can be stored.\<close>

definition skeg_quota_set :: "externals \<Rightarrow> bool \<Rightarrow> bytes \<Rightarrow> bytes \<Rightarrow> bytes \<Rightarrow> tenant_id \<Rightarrow> auth_backend option \<Rightarrow> resp_frame \<times> auth_backend option" where
  "skeg_quota_set x io_ok name mv md caller ctx =
    (case and_then (admin_target x name caller ctx) (\<lambda>(backend, target).
       and_then (parse_quota_limit mv) (\<lambda>max_vectors.
       and_then (parse_quota_limit md) (\<lambda>max_disk.
         Inr (be_set_limits io_ok backend target \<lparr>max_vectors = max_vectors, max_disk_bytes = max_disk\<rparr>)))) of
       Inl f \<Rightarrow> (f, ctx)
     | Inr (Inr _, b) \<Rightarrow> (frame_ok_reply, Some b)
     | Inr (Inl Unsupported, b) \<Rightarrow> (Frame_Error (lit ''ERR backend does not support setting quotas''), Some b))"

definition quota_text :: "u64 option \<Rightarrow> bytes" where
  "quota_text v = (case v of None \<Rightarrow> lit ''*'' | Some n \<Rightarrow> dec_text (unat n))"

definition skeg_quota_get :: "externals \<Rightarrow> bytes \<Rightarrow> tenant_id \<Rightarrow> auth_backend option \<Rightarrow> resp_frame" where
  "skeg_quota_get x name caller ctx =
    (case admin_target x name caller ctx of
       Inl f \<Rightarrow> f
     | Inr (backend, target) \<Rightarrow>
         let limits = be_limits backend target in
         Frame_Array [Frame_Bulk (quota_text (max_vectors limits)), Frame_Bulk (quota_text (max_disk_bytes limits))])"

text \<open>The backend of the distribution stores no QoS limits: reading them gives none, setting them fails.\<close>

definition skeg_qos_set :: "externals \<Rightarrow> bytes \<Rightarrow> bytes \<Rightarrow> bytes \<Rightarrow> bytes \<Rightarrow> tenant_id \<Rightarrow> auth_backend option \<Rightarrow> resp_frame" where
  "skeg_qos_set x name rate burst conc caller ctx =
    (case and_then (admin_target x name caller ctx) (\<lambda>_.
       and_then (parse_qos_limit rate) (\<lambda>_.
       and_then (parse_qos_limit burst) (\<lambda>_.
       and_then (parse_qos_limit conc) (\<lambda>_. Inr ())))) of
       Inl f \<Rightarrow> f
     | Inr _ \<Rightarrow> Frame_Error (lit ''ERR backend does not support setting qos''))"

definition skeg_qos_get :: "externals \<Rightarrow> bytes \<Rightarrow> tenant_id \<Rightarrow> auth_backend option \<Rightarrow> resp_frame" where
  "skeg_qos_get x name caller ctx =
    (case admin_target x name caller ctx of
       Inl f \<Rightarrow> f
     | Inr _ \<Rightarrow> Frame_Array [Frame_Bulk (lit ''*''), Frame_Bulk (lit ''*''), Frame_Bulk (lit ''*'')])"

definition skeg_whoami :: "tenant_id \<Rightarrow> bool \<Rightarrow> resp_frame" where
  "skeg_whoami tenant tenancy_enabled =
    Frame_Bulk (lit ''tenant='' @ tenant_display tenant @ lit '' mode='' @ (if tenancy_enabled then lit ''tenant-aware'' else lit ''single-tenant''))"

definition skeg_auth :: "bytes list \<Rightarrow> resp_frame" where
  "skeg_auth args = Frame_Error (lit ''ERR SKEG.AUTH is reserved; use HELLO 3 AUTH user pass for now (v0.2)'')"

definition unknown_command :: "bytes \<Rightarrow> resp_frame" where
  "unknown_command name = Frame_Error (lit ''ERR unknown command '' @ [39] @ name @ [39])"

subsection \<open>Statistics\<close>

type_synonym shard_row = "nat \<times> u64 \<times> u64 \<times> nat \<times> u64"

fun stats_rows :: "(bytes \<Rightarrow> u32) \<Rightarrow> (bytes \<Rightarrow> u64) \<Rightarrow> shard_set \<Rightarrow> nat list \<Rightarrow> (shard_row list) sres" where
  "stats_rows crc xxh3 ss [] = Some (Inr [], ss)"
| "stats_rows crc xxh3 ss (shard # shards) =
    (case expect (\<lambda>r. case r of Resp_stats b ev n bg \<Rightarrow> Some (b, ev, n, bg) | _ \<Rightarrow> None) (shard_call crc xxh3 ss shard Req_stats) of
       None \<Rightarrow> None
     | Some (Inl e, ss) \<Rightarrow> Some (Inl e, ss)
     | Some (Inr (b, ev, n, bg), ss) \<Rightarrow>
         (case stats_rows crc xxh3 ss shards of
            None \<Rightarrow> None
          | Some (Inl e, ss) \<Rightarrow> Some (Inl e, ss)
          | Some (Inr rows, ss) \<Rightarrow> Some (Inr ((shard, b, ev, n, bg) # rows), ss)))"

definition stats_per_shard :: "(bytes \<Rightarrow> u32) \<Rightarrow> (bytes \<Rightarrow> u64) \<Rightarrow> shard_set \<Rightarrow> (shard_row list) sres" where
  "stats_per_shard crc xxh3 ss = stats_rows crc xxh3 ss [0..<n_shards ss]"

definition shard_line :: "shard_row \<Rightarrow> bytes" where
  "shard_line r = (case r of (shard, b, ev, n, bg) \<Rightarrow>
    lit ''shard='' @ dec_text shard @ lit '' cache_bytes='' @ dec_text (unat b) @ lit '' evictions='' @ dec_text (unat ev) @
    lit '' n_keys='' @ dec_text n @ lit '' budget='' @ dec_text (unat bg) @ [10])"

definition skeg_shards :: "externals \<Rightarrow> shard_set \<Rightarrow> resp_frame reply_of" where
  "skeg_shards x ss =
    (case stats_per_shard (x_crc x) (x_xxh3 x) ss of
       None \<Rightarrow> None
     | Some (Inr rows, ss) \<Rightarrow> Some (Frame_Bulk (concat (map shard_line rows)), ss)
     | Some (Inl e, ss) \<Rightarrow> Some (shard_error_frame e, ss))"

subsection \<open>The dispatcher\<close>

record session =
  se_conn :: connection_state
  se_tenant :: tenant_id

text \<open>A reply, or the call that produces it: on the vector indexes, an erasure of a tenant (with its identity), the telemetry dump.\<close>

datatype outcome = Out_frame resp_frame | Out_vec vec_call | Out_erase tenant_id bool | Out_stats

definition dispatch_hello :: "externals \<Rightarrow> hello_args \<Rightarrow> session \<Rightarrow> auth_backend option \<Rightarrow> resp_frame \<times> session" where
  "dispatch_hello x args se ctx =
    (let accept = (\<lambda>se. case apply_hello (se_conn se) args (x_version x) of (f, st) \<Rightarrow> (f, se\<lparr>se_conn := st\<rparr>)) in
     case ctx of
       None \<Rightarrow> accept se
     | Some b \<Rightarrow>
         (case hello_auth args of
            Some (user, pass) \<Rightarrow>
              (case be_verify_login (x_phc x) (x_argon x) b user pass of
                 Some tid \<Rightarrow> accept (se\<lparr>se_tenant := tid\<rparr>)
               | None \<Rightarrow> (Frame_Error (lit ''WRONGPASS invalid username-password pair''), se))
          | None \<Rightarrow>
              if be_anonymous_policy b = Strict then
                (Frame_Error (lit ''NOAUTH authentication required (server is in strict mode)''), se)
              else accept se))"

definition admitted :: "auth_backend option \<Rightarrow> resp_command \<Rightarrow> tenant_id \<Rightarrow> bytes + unit" where
  "admitted ctx cmd tenant =
    (case ctx of
       None \<Rightarrow> Inr ()
     | Some b \<Rightarrow>
         (case cmd of
            Cmd_Hello _ \<Rightarrow> Inr ()
          | Cmd_SkegAuth _ \<Rightarrow> Inr ()
          | _ \<Rightarrow> be_admit b \<lparr>ad_tenant = tenant, ad_op = command_kind cmd, ad_cost = command_cost cmd\<rparr>))"

type_synonym step_result = "(outcome \<times> session \<times> shard_set \<times> auth_backend option) option"

fun run_command :: "externals \<Rightarrow> bool \<Rightarrow> resp_command \<Rightarrow> session \<Rightarrow> shard_set \<Rightarrow> auth_backend option \<Rightarrow> step_result" where
  "run_command x io (Cmd_Hello args) se ss ctx =
    (case dispatch_hello x args se ctx of (f, se) \<Rightarrow> Some (Out_frame f, se, ss, ctx))"
| "run_command x io (Cmd_Ping msg) se ss ctx = Some (Out_frame (handle_ping msg), se, ss, ctx)"
| "run_command x io (Cmd_Echo msg) se ss ctx = Some (Out_frame (handle_echo msg), se, ss, ctx)"
| "run_command x io (Cmd_Select db) se ss ctx = Some (Out_frame (kv_select_db db), se, ss, ctx)"
| "run_command x io Cmd_SkegStats se ss ctx = Some (Out_stats, se, ss, ctx)"
| "run_command x io Cmd_SkegShards se ss ctx = map_option (\<lambda>(f, ss). (Out_frame f, se, ss, ctx)) (skeg_shards x ss)"
| "run_command x io Cmd_SkegWhoami se ss ctx = Some (Out_frame (skeg_whoami (se_tenant se) (ctx \<noteq> None)), se, ss, ctx)"
| "run_command x io (Cmd_SkegAuth args) se ss ctx = Some (Out_frame (skeg_auth args), se, ss, ctx)"
| "run_command x io (Cmd_SkegSubjectErase args) se ss ctx =
    map_option (\<lambda>(f, ss). (Out_frame f, se, ss, ctx)) (skeg_subject_erase x args ss (se_tenant se))"
| "run_command x io (Cmd_SkegTenantErase args) se ss ctx =
    (case args of
       [] \<Rightarrow> None
     | name # _ \<Rightarrow>
         (case admin_target x name (se_tenant se) ctx of
            Inl f \<Rightarrow> Some (Out_frame f, se, ss, ctx)
          | Inr (_, target) \<Rightarrow> Some (Out_erase target False, se, ss, ctx)))"
| "run_command x io (Cmd_SkegTenantDelete args) se ss ctx =
    (case args of
       [] \<Rightarrow> None
     | name # _ \<Rightarrow>
         (case admin_target x name (se_tenant se) ctx of
            Inl f \<Rightarrow> Some (Out_frame f, se, ss, ctx)
          | Inr (_, target) \<Rightarrow> Some (Out_erase target True, se, ss, ctx)))"
| "run_command x io Cmd_SkegReclaim se ss ctx =
    map_option (\<lambda>(f, ss). (Out_frame f, se, ss, ctx)) (skeg_reclaim x ss (se_tenant se) ctx)"
| "run_command x io (Cmd_SkegQuotaSet args) se ss ctx =
    (case args of
       name # mv # md # _ \<Rightarrow>
         (case skeg_quota_set x io name mv md (se_tenant se) ctx of (f, ctx) \<Rightarrow> Some (Out_frame f, se, ss, ctx))
     | _ \<Rightarrow> None)"
| "run_command x io (Cmd_SkegQuotaGet args) se ss ctx =
    (case args of
       [] \<Rightarrow> None
     | name # _ \<Rightarrow> Some (Out_frame (skeg_quota_get x name (se_tenant se) ctx), se, ss, ctx))"
| "run_command x io (Cmd_SkegQosSet args) se ss ctx =
    (case args of
       name # rate # burst # conc # _ \<Rightarrow> Some (Out_frame (skeg_qos_set x name rate burst conc (se_tenant se) ctx), se, ss, ctx)
     | _ \<Rightarrow> None)"
| "run_command x io (Cmd_SkegQosGet args) se ss ctx =
    (case args of
       [] \<Rightarrow> None
     | name # _ \<Rightarrow> Some (Out_frame (skeg_qos_get x name (se_tenant se) ctx), se, ss, ctx))"
| "run_command x io (Cmd_Unknown name args) se ss ctx =
    Some (Out_frame (unknown_command (to_ascii_uppercase name)), se, ss, ctx)"
| "run_command x io cmd se ss ctx =
    (case vec_request cmd (se_tenant se) ctx of
       Some (Inl f) \<Rightarrow> Some (Out_frame f, se, ss, ctx)
     | Some (Inr call) \<Rightarrow> Some (Out_vec call, se, ss, ctx)
     | None \<Rightarrow> map_option (\<lambda>(f, ss). (Out_frame f, se, ss, ctx)) (dispatch_kv x cmd ss (se_tenant se) ctx))"

definition dispatch_command :: "externals \<Rightarrow> bool \<Rightarrow> resp_command \<Rightarrow> session \<Rightarrow> shard_set \<Rightarrow> auth_backend option \<Rightarrow> step_result" where
  "dispatch_command x io cmd se ss ctx =
    (case admitted ctx cmd (se_tenant se) of
       Inl message \<Rightarrow> Some (Out_frame (Frame_Error message), se, ss, ctx)
     | Inr _ \<Rightarrow> run_command x io cmd se ss ctx)"

text \<open>
  What a tenant deletion answers once the erasure of its data is done: the identity goes only after
  the data.
\<close>

definition tenant_delete_finish :: "(bytes \<Rightarrow> u32) \<Rightarrow> save_outcome \<Rightarrow> bool \<Rightarrow> auth_backend \<Rightarrow> tenant_id \<Rightarrow> shard_error + nat \<times> nat \<Rightarrow> resp_frame \<times> auth_backend" where
  "tenant_delete_finish crc32c out io_ok b target erased =
    (case erased of
       Inl e \<Rightarrow> (shard_error_frame e, b)
     | Inr (vindexes, keys) \<Rightarrow>
         (case be_remove_tenant crc32c out io_ok b target of
            (Inr logins, b) \<Rightarrow>
              (Frame_Array [Frame_Integer (as_i64 vindexes), Frame_Integer (as_i64 keys), Frame_Integer (as_i64 logins)], b)
          | (Inl Unsupported, b) \<Rightarrow> (Frame_Error (lit ''ERR data erased but identity removal failed: Unsupported''), b)))"

subsection \<open>What a session can do\<close>

lemma admitted_always: "admitted ctx cmd t = Inr ()"
  by (auto simp: admitted_def be_admit_def split: option.splits resp_command.splits)

lemma dispatch_is_run: "dispatch_command x io cmd se ss ctx = run_command x io cmd se ss ctx"
  by (simp add: dispatch_command_def admitted_always)

lemma dispatch_hello_tenant:
  assumes "dispatch_hello x args se ctx = (f, se')"
  shows "se_tenant se' = se_tenant se \<or>
    (\<exists>b user pw. ctx = Some b \<and> hello_auth args = Some (user, pw) \<and> be_verify_login (x_phc x) (x_argon x) b user pw = Some (se_tenant se'))"
  using assms by (auto simp: dispatch_hello_def Let_def split: option.splits prod.splits if_splits)

lemma admin_target_Inr: "admin_target x name caller ctx = Inr (b, t) \<Longrightarrow> ctx = Some b \<and> be_is_admin b caller"
  by (auto simp: admin_target_def and_then_eq_Inr split: option.splits if_splits)

lemma quota_set_backend:
  assumes "skeg_quota_set x io name mv md caller ctx = (f, ctx')"
  shows "ctx' = ctx \<or> (\<exists>b b'. ctx = Some b \<and> ctx' = Some b' \<and> be_is_admin b caller \<and> ab_auth b' = ab_auth b \<and> ab_admin b' = ab_admin b)"
proof (cases "admin_target x name caller ctx")
  case (Inr p)
  then obtain b t where p: "admin_target x name caller ctx = Inr (b, t)"
    by (cases p) auto
  show ?thesis
  proof (cases "and_then (parse_quota_limit mv) (\<lambda>a. and_then (parse_quota_limit md) (\<lambda>c. Inr (a, c)))")
    case (Inl e)
    then show ?thesis
      using assms by (auto simp: skeg_quota_set_def p and_then_def split: sum.splits)
  next
    case (Inr q)
    then obtain a c where q: "parse_quota_limit mv = Inr a" "parse_quota_limit md = Inr c"
      by (auto simp: and_then_def split: sum.splits)
    obtain r b' where r: "be_set_limits io b t \<lparr>max_vectors = a, max_disk_bytes = c\<rparr> = (r, b')"
      by force
    then have "ab_auth b' = ab_auth b" "ab_admin b' = ab_admin b"
      by (auto simp: be_set_limits_def Let_def split: prod.splits)
    moreover have "ctx' = Some b'"
      using assms r by (cases r) (auto simp: skeg_quota_set_def p q and_then_def split: quota_admin_error.splits)
    ultimately show ?thesis
      using admin_target_Inr [OF p] by simp
  qed
qed (use assms in \<open>simp add: skeg_quota_set_def\<close>)

fun privileged :: "resp_command \<Rightarrow> bool" where
  "privileged (Cmd_Hello args) \<longleftrightarrow> True"
| "privileged (Cmd_SkegQuotaSet args) \<longleftrightarrow> True"
| "privileged (Cmd_SkegTenantErase args) \<longleftrightarrow> True"
| "privileged (Cmd_SkegTenantDelete args) \<longleftrightarrow> True"
| "privileged _ \<longleftrightarrow> False"

lemma run_command_plain:
  assumes "run_command x io cmd se ss ctx = Some (out, se', ss', ctx')" and "\<not> privileged cmd"
  shows "se' = se \<and> ctx' = ctx \<and> (\<forall>t d. out \<noteq> Out_erase t d)"
  using assms by (cases cmd; simp; auto split: list.splits option.splits sum.splits)

lemma erase_outcome:
  assumes "(case args of [] \<Rightarrow> None | name # _ \<Rightarrow> (case admin_target x name t ctx of
      Inl f \<Rightarrow> Some (Out_frame f, se, ss, ctx) | Inr (_, target) \<Rightarrow> Some (Out_erase target d, se, ss, ctx))) = Some (out, se', ss', ctx')"
  shows "se' = se \<and> ctx' = ctx \<and> ((\<exists>t d. out = Out_erase t d) \<longrightarrow> (\<exists>b. ctx = Some b \<and> be_is_admin b t))"
proof (cases args)
  case (Cons name rest)
  show ?thesis
  proof (cases "admin_target x name t ctx")
    case (Inr p)
    then have "ctx = Some (fst p) \<and> be_is_admin (fst p) t"
      using admin_target_Inr [of x name t ctx "fst p" "snd p"] by simp
    then show ?thesis
      using assms Cons Inr by (auto simp: case_prod_unfold)
  qed (use assms Cons in auto)
qed (use assms in simp)

definition step_authority :: "externals \<Rightarrow> resp_command \<Rightarrow> session \<Rightarrow> auth_backend option \<Rightarrow> outcome \<Rightarrow> session \<Rightarrow> auth_backend option \<Rightarrow> bool" where
  "step_authority x cmd se ctx out se' ctx' \<longleftrightarrow>
    (se_tenant se' = se_tenant se \<or> (\<exists>args b user pw. cmd = Cmd_Hello args \<and> ctx = Some b \<and> hello_auth args = Some (user, pw) \<and>
      be_verify_login (x_phc x) (x_argon x) b user pw = Some (se_tenant se'))) \<and>
    (ctx' = ctx \<or> (\<exists>b b'. ctx = Some b \<and> ctx' = Some b' \<and> be_is_admin b (se_tenant se) \<and> ab_auth b' = ab_auth b \<and> ab_admin b' = ab_admin b)) \<and>
    ((\<exists>t d. out = Out_erase t d) \<longrightarrow> (\<exists>b. ctx = Some b \<and> be_is_admin b (se_tenant se)))"

lemma hello_authority:
  assumes "run_command x io (Cmd_Hello args) se ss ctx = Some (out, se', ss', ctx')"
  shows "step_authority x (Cmd_Hello args) se ctx out se' ctx'"
proof -
  obtain f s where f: "dispatch_hello x args se ctx = (f, s)"
    by force
  with assms have "s = se'" "ctx' = ctx" "out = Out_frame f"
    by simp_all
  then show ?thesis
    using dispatch_hello_tenant [OF f] by (auto simp: step_authority_def)
qed

lemma quota_authority:
  assumes "run_command x io (Cmd_SkegQuotaSet args) se ss ctx = Some (out, se', ss', ctx')"
  shows "step_authority x (Cmd_SkegQuotaSet args) se ctx out se' ctx'"
proof -
  obtain name mv md rest where args: "args = name # mv # md # rest"
    using assms by (auto split: list.splits)
  obtain f c where f: "skeg_quota_set x io name mv md (se_tenant se) ctx = (f, c)"
    by force
  with assms have "c = ctx'" "se' = se" "out = Out_frame f"
    by (simp_all add: args)
  then show ?thesis
    using quota_set_backend [OF f] by (auto simp: step_authority_def)
qed

lemma run_command_authority:
  assumes "run_command x io cmd se ss ctx = Some (out, se', ss', ctx')"
  shows "step_authority x cmd se ctx out se' ctx'"
proof (cases "privileged cmd")
  case False
  then show ?thesis
    using run_command_plain [OF assms] by (simp add: step_authority_def)
next
  case True
  have e: "step_authority x cmd se ctx out se' ctx'" if "se' = se \<and> ctx' = ctx \<and> ((\<exists>t d. out = Out_erase t d) \<longrightarrow> (\<exists>b. ctx = Some b \<and> be_is_admin b (se_tenant se)))"
    using that by (simp add: step_authority_def)
  from True show ?thesis
  proof (cases cmd rule: privileged.elims(2))
    case (1 args)
    then show ?thesis
      using hello_authority assms by blast
  next
    case (2 args)
    then show ?thesis
      using quota_authority assms by blast
  next
    case (3 args)
    show ?thesis
      by (rule e, rule erase_outcome [where d = False]) (use assms in \<open>simp only: 3 run_command.simps\<close>)
  next
    case (4 args)
    show ?thesis
      by (rule e, rule erase_outcome [where d = True]) (use assms in \<open>simp only: 4 run_command.simps\<close>)
  qed
qed

text \<open>A session's commands, each with whether the limits can be stored at that moment.\<close>

fun session_run :: "externals \<Rightarrow> (bool \<times> resp_command) list \<Rightarrow> session \<Rightarrow> shard_set \<Rightarrow> auth_backend option \<Rightarrow>
  (outcome list \<times> session \<times> shard_set \<times> auth_backend option) option" where
  "session_run x [] se ss ctx = Some ([], se, ss, ctx)"
| "session_run x ((io, cmd) # cmds) se ss ctx =
    (case dispatch_command x io cmd se ss ctx of
       None \<Rightarrow> None
     | Some (out, se, ss, ctx) \<Rightarrow>
         map_option (\<lambda>(outs, rest). (out # outs, rest)) (session_run x cmds se ss ctx))"

definition logged_in :: "externals \<Rightarrow> auth_backend \<Rightarrow> (bool \<times> resp_command) list \<Rightarrow> tenant_id \<Rightarrow> bool" where
  "logged_in x b cmds t \<longleftrightarrow> (\<exists>io args user pw. (io, Cmd_Hello args) \<in> set cmds \<and> hello_auth args = Some (user, pw) \<and>
    be_verify_login (x_phc x) (x_argon x) b user pw = Some t)"

lemma logged_in_Cons: "logged_in x b cmds t \<Longrightarrow> logged_in x b (c # cmds) t"
  by (auto simp: logged_in_def)

lemma same_logins: "ab_auth b' = ab_auth b \<Longrightarrow> logged_in x b' cmds t = logged_in x b cmds t"
  by (simp add: logged_in_def be_verify_login_def)

lemma session_run_authority:
  assumes "session_run x cmds se ss (Some b) = Some (outs, se', ss', ctx')"
  shows "(se_tenant se' = se_tenant se \<or> logged_in x b cmds (se_tenant se')) \<and>
    (\<exists>b'. ctx' = Some b' \<and> ab_auth b' = ab_auth b \<and> ab_admin b' = ab_admin b) \<and>
    ((\<forall>a. ab_admin b = Some a \<longrightarrow> se_tenant se \<noteq> a \<and> \<not> logged_in x b cmds a) \<longrightarrow> ctx' = Some b \<and> (\<forall>t d. Out_erase t d \<notin> set outs))"
  using assms
proof (induction cmds arbitrary: se ss outs b)
  case (Cons c cmds)
  obtain io cmd where c: "c = (io, cmd)"
    by force
  obtain out s1 ss1 ctx1 os where d: "run_command x io cmd se ss (Some b) = Some (out, s1, ss1, ctx1)"
    and r: "session_run x cmds s1 ss1 ctx1 = Some (os, se', ss', ctx')" and outs: "outs = out # os"
    using Cons.prems(1) by (auto simp: c dispatch_is_run split: option.splits)
  note a = run_command_authority [OF d, unfolded step_authority_def]
  obtain b1 where b1: "ctx1 = Some b1" "ab_auth b1 = ab_auth b" "ab_admin b1 = ab_admin b"
    using a by auto
  have s1: "se_tenant s1 = se_tenant se \<or> logged_in x b (c # cmds) (se_tenant s1)"
    using a by (auto simp: logged_in_def c)
  note ih = Cons.IH [OF r [unfolded b1(1)], unfolded same_logins [OF b1(2)] b1(2,3)]
  have quiet: "ctx' = Some b \<and> (\<forall>t d. Out_erase t d \<notin> set outs)"
    if n: "\<forall>a. ab_admin b = Some a \<longrightarrow> se_tenant se \<noteq> a \<and> \<not> logged_in x b (c # cmds) a"
  proof -
    have "\<not> be_is_admin b (se_tenant se)"
      using n by (auto simp: be_is_admin_def)
    then have "b1 = b" "\<forall>t d. out \<noteq> Out_erase t d"
      using a b1(1) by auto
    moreover have "\<forall>a. ab_admin b = Some a \<longrightarrow> se_tenant s1 \<noteq> a \<and> \<not> logged_in x b cmds a"
      using n s1 logged_in_Cons by metis
    ultimately show ?thesis
      using ih by (auto simp: outs)
  qed
  have "se_tenant se' = se_tenant se \<or> logged_in x b (c # cmds) (se_tenant se')"
    using ih s1 logged_in_Cons [of x b cmds _ c] by auto
  then show ?case
    using ih quiet by blast
qed auto


definition demo_hello :: "bytes \<Rightarrow> resp_command" where
  "demo_hello user = Cmd_Hello \<lparr>protover = Some 3, hello_auth = Some (user, []), setname = None\<rparr>"

definition demo_session :: session where
  "demo_session = \<lparr>se_conn = connection_new 1, se_tenant = TENANT_ZERO\<rparr>"

definition demo_cmds :: "(bool \<times> resp_command) list" where
  "demo_cmds = [(True, demo_hello (lit ''ann'')), (True, Cmd_SkegTenantErase [lit ''ann'']), (True, Cmd_SkegWhoami)]"


subsection \<open>Strict mode\<close>

lemma strict_simps [simp]:
  "be_has_tenant (b\<lparr>ab_strict := s\<rparr>) t = be_has_tenant b t"
  "be_limits (b\<lparr>ab_strict := s\<rparr>) t = be_limits b t"
  "be_is_admin (b\<lparr>ab_strict := s\<rparr>) t = be_is_admin b t"
  "be_resolve_tenant h (b\<lparr>ab_strict := s\<rparr>) name = be_resolve_tenant h b name"
  by (simp_all add: be_has_tenant_def be_limits_def be_is_admin_def be_resolve_tenant_def)

lemma strict_ctx [simp]:
  "anon_key_collides_with_tenant t k (Some (b\<lparr>ab_strict := s\<rparr>)) = anon_key_collides_with_tenant t k (Some b)"
  "disk_limit (Some (b\<lparr>ab_strict := s\<rparr>)) t = disk_limit (Some b) t"
  "vector_limit (Some (b\<lparr>ab_strict := s\<rparr>)) t = vector_limit (Some b) t"
  by (simp_all add: anon_key_collides_with_tenant_def disk_limit_def vector_limit_def Let_def)

lemma strict_kv: "dispatch_kv x cmd ss t (Some (b\<lparr>ab_strict := s\<rparr>)) = dispatch_kv x cmd ss t (Some b)"
  by (cases cmd) (simp_all add: kv_get_def kv_set_def kv_append_def kv_del_def kv_exists_def kv_mget_def kv_mset_def
      kv_incr_by_def kv_incrby_apply_def kv_decrby_def)

lemma strict_vec: "vec_request cmd t (Some (b\<lparr>ab_strict := s\<rparr>)) = vec_request cmd t (Some b)"
  by (cases cmd) (simp_all add: skeg_vset_def skeg_vmset_def)

lemma strict_admin:
  "admin_target x name caller (Some (b\<lparr>ab_strict := s\<rparr>)) = map_sum id (\<lambda>(b, t). (b\<lparr>ab_strict := s\<rparr>, t)) (admin_target x name caller (Some b))"
  by (auto simp: admin_target_def and_then_def split: sum.splits option.splits)

lemma strict_quota_get: "skeg_quota_get x name caller (Some (b\<lparr>ab_strict := s\<rparr>)) = skeg_quota_get x name caller (Some b)"
  by (auto simp: skeg_quota_get_def strict_admin split: sum.splits)

lemma strict_qos:
  "skeg_qos_set x name r u c caller (Some (b\<lparr>ab_strict := s\<rparr>)) = skeg_qos_set x name r u c caller (Some b)"
  "skeg_qos_get x name caller (Some (b\<lparr>ab_strict := s\<rparr>)) = skeg_qos_get x name caller (Some b)"
  by (auto simp: skeg_qos_set_def skeg_qos_get_def strict_admin and_then_def split: sum.splits)

lemma strict_quota_set:
  "fst (skeg_quota_set x io name mv md caller (Some (b\<lparr>ab_strict := s\<rparr>))) = fst (skeg_quota_set x io name mv md caller (Some b))"
proof -
  have q: "fst (be_set_limits io (c\<lparr>ab_strict := s\<rparr>) t lim) = fst (be_set_limits io c t lim)" for c t lim
    by (simp add: be_set_limits_def Let_def case_prod_unfold)
  have e: "fst (skeg_quota_set x io name mv md caller ctx) =
    (case and_then (admin_target x name caller ctx) (\<lambda>(backend, target).
       and_then (parse_quota_limit mv) (\<lambda>max_vectors.
       and_then (parse_quota_limit md) (\<lambda>max_disk.
         Inr (case be_set_limits io backend target \<lparr>max_vectors = max_vectors, max_disk_bytes = max_disk\<rparr> of
           (Inr _, b) \<Rightarrow> frame_ok_reply
         | (Inl Unsupported, b) \<Rightarrow> Frame_Error (lit ''ERR backend does not support setting quotas''))))) of
       Inl f \<Rightarrow> f | Inr f \<Rightarrow> f)" for ctx
    by (simp add: skeg_quota_set_def and_then_def split: sum.split prod.split quota_admin_error.split del: lit_simps)
  show ?thesis
    unfolding e strict_admin
    by (cases "admin_target x name caller (Some b)"; cases "parse_quota_limit mv"; cases "parse_quota_limit md")
      (simp_all add: and_then_def q case_prod_beta del: lit_simps)
qed

definition visible :: "step_result \<Rightarrow> (outcome \<times> session \<times> shard_set) option" where
  "visible r = map_option (\<lambda>(out, se, ss, _). (out, se, ss)) r"

lemma strict_erase:
  "visible (case admin_target x name t (Some (b\<lparr>ab_strict := s\<rparr>)) of
      Inl f \<Rightarrow> Some (Out_frame f, se, ss, Some (b\<lparr>ab_strict := s\<rparr>)) | Inr (_, target) \<Rightarrow> Some (Out_erase target d, se, ss, Some (b\<lparr>ab_strict := s\<rparr>))) =
   visible (case admin_target x name t (Some b) of
      Inl f \<Rightarrow> Some (Out_frame f, se, ss, Some b) | Inr (_, target) \<Rightarrow> Some (Out_erase target d, se, ss, Some b))"
  by (cases "admin_target x name t (Some b)") (simp_all add: strict_admin visible_def case_prod_unfold)

lemma visible_simps [simp]:
  "visible (Some (out, se, ss, c)) = Some (out, se, ss)" "visible None = None"
  "visible (map_option (\<lambda>(f, ss). (Out_frame f, se, ss, c)) r) = map_option (\<lambda>(f, ss). (Out_frame f, se, ss)) r"
  by (auto simp: visible_def option.map_comp comp_def case_prod_unfold)

fun is_hello :: "resp_command \<Rightarrow> bool" where
  "is_hello (Cmd_Hello args) \<longleftrightarrow> True"
| "is_hello _ \<longleftrightarrow> False"

lemma strict_reclaim: "skeg_reclaim x ss t (Some (b\<lparr>ab_strict := s\<rparr>)) = skeg_reclaim x ss t (Some b)"
  by (simp add: skeg_reclaim_def)

lemma visible_vec:
  "visible (case r of Some (Inl f) \<Rightarrow> Some (Out_frame f, se, ss, c) | Some (Inr call) \<Rightarrow> Some (Out_vec call, se, ss, c)
      | None \<Rightarrow> map_option (\<lambda>(f, ss). (Out_frame f, se, ss, c)) k) =
   (case r of Some (Inl f) \<Rightarrow> Some (Out_frame f, se, ss) | Some (Inr call) \<Rightarrow> Some (Out_vec call, se, ss)
      | None \<Rightarrow> map_option (\<lambda>(f, ss). (Out_frame f, se, ss)) k)"
  by (auto split: option.split sum.split)

lemma strict_run:
  assumes "\<not> is_hello cmd"
  shows "visible (run_command x io cmd se ss (Some (b\<lparr>ab_strict := s\<rparr>))) = visible (run_command x io cmd se ss (Some b))"
proof (cases "privileged cmd")
  case True
  then show ?thesis
  proof (cases cmd rule: privileged.elims(2))
    case (2 args)
    then show ?thesis
      using strict_quota_set by (auto simp: visible_def case_prod_unfold split: list.split)
  next
    case (3 args)
    then show ?thesis
      using strict_erase [where d = False] by (cases args) simp_all
  next
    case (4 args)
    then show ?thesis
      using strict_erase [where d = True] by (cases args) simp_all
  qed (use assms in simp)
next
  case False
  then show ?thesis
    by (cases cmd)
      (simp_all only: run_command.simps privileged.simps visible_vec strict_kv strict_vec strict_quota_get strict_qos strict_reclaim,
       simp_all split: list.split)
qed

text \<open>
  C38: Strict mode refuses nothing but HELLO. On a server that demands authentication, a connection
  whose HELLO without credentials was answered with NOAUTH stays as it was, and any other command it
  then sends has the reply and the effect it would have on a server that accepts anonymous clients.
\<close>

theorem strict_refuses_only_hello:
  assumes "hello_auth args = None" and "\<not> is_hello cmd"
  shows "dispatch_command x io (Cmd_Hello args) se ss (Some (b\<lparr>ab_strict := True\<rparr>)) =
      Some (Out_frame (Frame_Error (lit ''NOAUTH authentication required (server is in strict mode)'')), se, ss, Some (b\<lparr>ab_strict := True\<rparr>)) \<and>
    visible (dispatch_command x io cmd se ss (Some (b\<lparr>ab_strict := True\<rparr>))) =
      visible (dispatch_command x io cmd se ss (Some (b\<lparr>ab_strict := False\<rparr>)))"
proof -
  have "dispatch_hello x args se (Some (b\<lparr>ab_strict := True\<rparr>)) =
      (Frame_Error (lit ''NOAUTH authentication required (server is in strict mode)''), se)"
    using assms(1) by (simp add: dispatch_hello_def be_anonymous_policy_def Let_def del: lit_simps)
  then show ?thesis
    using strict_run [OF assms(2), where b = b and x = x and io = io and se = se and ss = ss] by (simp add: dispatch_is_run del: lit_simps)
qed

theorem strict_refuses_only_hello_witness:
  "visible (dispatch_command demo_x True (Cmd_Set [1] [2]) demo_session demo_shards (Some (demo_backend\<lparr>ab_strict := True\<rparr>))) =
   visible (dispatch_command demo_x True (Cmd_Set [1] [2]) demo_session demo_shards (Some (demo_backend\<lparr>ab_strict := False\<rparr>))) \<and>
   map_option fst (visible (dispatch_command demo_x True (Cmd_Set [1] [2]) demo_session demo_shards (Some (demo_backend\<lparr>ab_strict := True\<rparr>)))) =
     Some (Out_frame frame_ok_reply)"
proof
  show "visible (dispatch_command demo_x True (Cmd_Set [1] [2]) demo_session demo_shards (Some (demo_backend\<lparr>ab_strict := True\<rparr>))) =
      visible (dispatch_command demo_x True (Cmd_Set [1] [2]) demo_session demo_shards (Some (demo_backend\<lparr>ab_strict := False\<rparr>)))"
    using strict_refuses_only_hello [of "\<lparr>protover = None, hello_auth = None, setname = None\<rparr>" "Cmd_Set [1] [2]"] by simp
  show "map_option fst (visible (dispatch_command demo_x True (Cmd_Set [1] [2]) demo_session demo_shards (Some (demo_backend\<lparr>ab_strict := True\<rparr>)))) =
      Some (Out_frame frame_ok_reply)"
    by code_simp
qed

end
