(* ===== verification/Native_Handler.thy ===== *)
theory Native_Handler
  imports Resp_Session Proto_Request Proto_Response
begin

text \<open>
  The native connection handler (\<open>skeg-server/handler.rs\<close>): the dispatcher from a parsed frame to the
  shard set with every refusal, the responses, and the connection loop over the frames its reads
  yield. Calls on the vector indexes are outcomes of the dispatcher, and their answers inputs of the
  loop. The main result is that a client's session is a session with a map.
\<close>

subsection \<open>Replies\<close>

text \<open>The display texts of the payload decoders' errors.\<close>

definition hex_upper :: "bytes \<Rightarrow> bytes" where
  "hex_upper bs = lit ''0x'' @ map (\<lambda>c. if 97 \<le> c then c - 32 else c) (concat (map hex_byte bs))"

fun parse_error_text :: "parse_error \<Rightarrow> bytes" where
  "parse_error_text (InvalidMagic expected got) =
    lit ''invalid magic: expected '' @ hex_upper (rev (u16_to_le expected)) @ lit '', got '' @ hex_upper (rev (u16_to_le got))"
| "parse_error_text (InvalidVersion got) = lit ''unsupported protocol version: '' @ dec_text (unat got)"
| "parse_error_text (UnknownOp got) = lit ''unknown op code: '' @ hex_upper [got]"
| "parse_error_text (FrameTooLarge len mx) =
    lit ''frame too large: '' @ dec_text (unat len) @ lit '' bytes (max '' @ dec_text (unat mx) @ lit '')''"
| "parse_error_text (InvalidFlags bits) = lit ''invalid flags bits: '' @ hex_upper (rev (u32_to_le bits))"
| "parse_error_text (InvalidPayload msg) = lit ''invalid payload: '' @ lit msg"

fun op_debug :: "op \<Rightarrow> string" where
  "op_debug OpGet = ''Get''" | "op_debug OpSet = ''Set''" | "op_debug OpDel = ''Del''" | "op_debug OpMget = ''Mget''"
| "op_debug OpMset = ''Mset''" | "op_debug OpExists = ''Exists''" | "op_debug OpMexists = ''Mexists''"
| "op_debug OpVindexCreate = ''VindexCreate''" | "op_debug OpVindexDrop = ''VindexDrop''" | "op_debug OpVset = ''Vset''"
| "op_debug OpVget = ''Vget''" | "op_debug OpVdel = ''Vdel''" | "op_debug OpVsearch = ''Vsearch''"
| "op_debug OpVindexList = ''VindexList''" | "op_debug OpPing = ''Ping''" | "op_debug OpStats = ''Stats''"
| "op_debug OpFlush = ''Flush''" | "op_debug OpShards = ''Shards''" | "op_debug OpNativeHello = ''NativeHello''"
| "op_debug OpOk = ''Ok''" | "op_debug OpErr = ''Err''" | "op_debug OpContinued = ''Continued''"

definition response_for_version :: "bytes \<Rightarrow> u8 \<Rightarrow> bytes" where
  "response_for_version response version = (if version = VERSION_V1 then response else response[2 := version])"

definition native_vindex_kind_is_allowed :: "u8 \<Rightarrow> u8 \<Rightarrow> string + unit" where
  "native_vindex_kind_is_allowed version kind =
    (if version = VERSION_V1 then
       (if kind \<le> 2 then Inr ()
        else if kind = 3 then Inl ''native v1 kind 3 is PQ; use RESP3 or native v2''
        else Inl ''native v1 supports only f32, int8, and binary'')
     else if version = VERSION_V2 then
       (case kind_try_from kind of
          Inr _ \<Rightarrow> Inr ()
        | Inl _ \<Rightarrow> Inl ''native v2 kind must be f32, int8, binary, tq1, tq2, or tq4'')
     else Inl ''unsupported native protocol version'')"

definition shard_err_to_response :: "u64 \<Rightarrow> shard_error \<Rightarrow> bytes" where
  "shard_err_to_response req_id e = encode_err req_id Internal (shard_error_text e)"

text \<open>\<open>ShardSet::stats\<close>: the counters of all shards added up.\<close>

fun stats_sum :: "(bytes \<Rightarrow> u32) \<Rightarrow> (bytes \<Rightarrow> u64) \<Rightarrow> shard_set \<Rightarrow> server_stats \<Rightarrow> nat list \<Rightarrow> server_stats sres" where
  "stats_sum crc xxh3 ss acc [] = Some (Inr acc, ss)"
| "stats_sum crc xxh3 ss acc (shard # shards) =
    (case expect (\<lambda>r. case r of Resp_stats b ev n bg \<Rightarrow> Some (b, ev, n, bg) | _ \<Rightarrow> None) (shard_call crc xxh3 ss shard Req_stats) of
       None \<Rightarrow> None
     | Some (Inl e, ss) \<Rightarrow> Some (Inl e, ss)
     | Some (Inr (b, ev, n, bg), ss) \<Rightarrow>
         stats_sum crc xxh3 ss
           \<lparr>ss_cache_bytes = ss_cache_bytes acc + b, ss_cache_evictions = ss_cache_evictions acc + ev,
            ss_n_keys = ss_n_keys acc + of_nat n, ss_cache_budget = ss_cache_budget acc + bg\<rparr> shards)"

definition shards_stats :: "(bytes \<Rightarrow> u32) \<Rightarrow> (bytes \<Rightarrow> u64) \<Rightarrow> shard_set \<Rightarrow> server_stats sres" where
  "shards_stats crc xxh3 ss =
    stats_sum crc xxh3 ss \<lparr>ss_cache_bytes = 0, ss_cache_evictions = 0, ss_n_keys = 0, ss_cache_budget = 0\<rparr> [0..<n_shards ss]"

definition row_stats :: "shard_row \<Rightarrow> shard_stats" where
  "row_stats r = (case r of (shard, b, ev, n, bg) \<Rightarrow>
    \<lparr>sh_shard_id = of_nat shard, sh_cache_bytes = b, sh_cache_evictions = ev, sh_n_keys = of_nat n, sh_cache_budget = bg\<rparr>)"

subsection \<open>The dispatcher\<close>

text \<open>A response (or none), or the call on the vector indexes that produces it.\<close>

datatype native_out = Native_reply "bytes option" | Native_vec vec_call | Native_vget bytes u64

text \<open>How every operation of the shard set is answered.\<close>

definition native_answer :: "u64 \<Rightarrow> ('a \<Rightarrow> bytes option) \<Rightarrow> 'a sres \<Rightarrow> (native_out \<times> shard_set) option" where
  "native_answer req_id f res =
    (case res of
       None \<Rightarrow> None
     | Some (Inr a, ss) \<Rightarrow> Some (Native_reply (f a), ss)
     | Some (Inl e, ss) \<Rightarrow> Some (Native_reply (Some (shard_err_to_response req_id e)), ss))"

text \<open>The guard of every vector operation: the decoded payload with a UTF-8 name, or the refusal.\<close>

definition utf8_name :: "u64 \<Rightarrow> bytes \<Rightarrow> bytes + bytes" where
  "utf8_name req_id name = (if utf8_valid name then Inr name else Inl (encode_err req_id InvalidRequest (lit ''index name not utf-8'')))"

definition bad_payload :: "u64 \<Rightarrow> parse_error + 'a \<Rightarrow> bytes + 'a" where
  "bad_payload req_id r = (case r of Inl e \<Rightarrow> Inl (encode_err req_id InvalidRequest (parse_error_text e)) | Inr a \<Rightarrow> Inr a)"

definition native_vector :: "u64 \<Rightarrow> frame \<Rightarrow> (bytes + native_out) option" where
  "native_vector req_id f =
    (case hdr_op (header f) of
       OpVindexList \<Rightarrow> Some (Inr (Native_vec Vindex_list))
     | OpVindexCreate \<Rightarrow> Some (
         and_then (bad_payload req_id (decode_vindex_create_payload (payload f))) (\<lambda>(name, dim, kind, backend).
         and_then (utf8_name req_id name) (\<lambda>name.
         case native_vindex_kind_is_allowed (hdr_version (header f)) kind of
           Inl message \<Rightarrow> Inl (encode_err req_id InvalidRequest (lit message))
         | Inr _ \<Rightarrow> Inr (Native_vec (Vindex_create name (unat dim) kind backend)))))
     | OpVindexDrop \<Rightarrow> Some (
         and_then (bad_payload req_id (decode_vname_payload (payload f))) (\<lambda>name.
         and_then (utf8_name req_id name) (\<lambda>name. Inr (Native_vec (Vindex_drop name 0)))))
     | OpVset \<Rightarrow> Some (
         and_then (bad_payload req_id (decode_vset_payload (payload f))) (\<lambda>(name, id, vector).
         and_then (utf8_name req_id name) (\<lambda>name. Inr (Native_vec (Vset name id vector 0 None None)))))
     | OpVget \<Rightarrow> Some (
         and_then (bad_payload req_id (decode_vname_id_payload (payload f))) (\<lambda>(name, id).
         and_then (utf8_name req_id name) (\<lambda>name. Inr (Native_vget name id))))
     | OpVdel \<Rightarrow> Some (
         and_then (bad_payload req_id (decode_vname_id_payload (payload f))) (\<lambda>(name, id).
         and_then (utf8_name req_id name) (\<lambda>name. Inr (Native_vec (Vdel name id 0)))))
     | OpVsearch \<Rightarrow> Some (
         and_then (bad_payload req_id (decode_vsearch_payload (payload f))) (\<lambda>(name, k, query, l_search).
         and_then (utf8_name req_id name) (\<lambda>name. Inr (Native_vec (Vsearch name query (unat k) (unat l_search) 0 False None)))))
     | _ \<Rightarrow> None)"

definition native_hello :: "u64 \<Rightarrow> frame \<Rightarrow> bytes" where
  "native_hello req_id f =
    (if hdr_version (header f) \<noteq> VERSION_V2 then encode_err req_id InvalidRequest (lit ''native hello requires protocol version 2'')
     else if payload f \<noteq> [] then encode_err req_id InvalidRequest (lit ''native hello payload must be empty'')
     else encode_ok_native_capabilities req_id \<lparr>protocol_version = VERSION_V2, vector_kind_mask = 0x3F\<rparr>)"

text \<open>The success reply of SET and VSET.\<close>

definition ok_unless_no_reply :: "frame \<Rightarrow> bytes option" where
  "ok_unless_no_reply f = (if flags_contains (hdr_flags (header f)) NO_REPLY then None else Some (encode_ok (hdr_req_id (header f))))"

definition native_dispatch :: "externals \<Rightarrow> frame \<Rightarrow> shard_set \<Rightarrow> (native_out \<times> shard_set) option" where
  "native_dispatch x f ss =
    (let crc = x_crc x; xxh3 = x_xxh3 x; req_id = hdr_req_id (header f);
         refuse = (\<lambda>r. Some (Native_reply (Some r), ss)) in
     case native_vector req_id f of
       Some (Inl r) \<Rightarrow> refuse r
     | Some (Inr call) \<Rightarrow> Some (call, ss)
     | None \<Rightarrow>
         (case hdr_op (header f) of
            OpPing \<Rightarrow> refuse (encode_ok req_id)
          | OpStats \<Rightarrow> native_answer req_id (\<lambda>s. Some (encode_ok_stats req_id s)) (shards_stats crc xxh3 ss)
          | OpShards \<Rightarrow> native_answer req_id (\<lambda>rows. Some (encode_ok_shards req_id (map row_stats rows))) (stats_per_shard crc xxh3 ss)
          | OpGet \<Rightarrow>
              (case bad_payload req_id (decode_key_payload (payload f)) of
                 Inl r \<Rightarrow> refuse r
               | Inr key \<Rightarrow>
                   native_answer req_id (\<lambda>v. Some (case v of Some val \<Rightarrow> encode_ok_value req_id val
                     | None \<Rightarrow> encode_err req_id NotFound (lit ''key not found''))) (shards_get crc xxh3 ss key 0))
          | OpSet \<Rightarrow>
              (case bad_payload req_id (decode_set_payload (payload f)) of
                 Inl r \<Rightarrow> refuse r
               | Inr (key, val) \<Rightarrow> native_answer req_id (\<lambda>_. ok_unless_no_reply f) (shards_set crc xxh3 ss key val Kernel 0 None))
          | OpDel \<Rightarrow>
              (case bad_payload req_id (decode_key_payload (payload f)) of
                 Inl r \<Rightarrow> refuse r
               | Inr key \<Rightarrow> native_answer req_id (\<lambda>b. Some (encode_ok_bool req_id b)) (shards_del crc xxh3 ss key Kernel))
          | OpMget \<Rightarrow>
              (case bad_payload req_id (decode_mget_payload (payload f)) of
                 Inl r \<Rightarrow> refuse r
               | Inr keys \<Rightarrow> native_answer req_id (\<lambda>vs. Some (encode_ok_mget req_id vs)) (shards_mget crc xxh3 ss keys 0))
          | OpNativeHello \<Rightarrow> refuse (native_hello req_id f)
          | op \<Rightarrow> refuse (encode_err req_id InvalidRequest (lit ''op '' @ lit (op_debug op) @ lit '' not implemented''))))"

text \<open>What the indexes answer (an error as its text), and the response it becomes.\<close>

datatype vec_answer =
    Ans_done
  | Ans_vector "f32_bits list option"
  | Ans_existed bool
  | Ans_hits "(u64 \<times> f32_bits \<times> bytes option) list"
  | Ans_rows "(bytes \<times> u32 \<times> u8 \<times> u8 \<times> u64) list"

definition native_vec_reply :: "frame \<Rightarrow> bytes + vec_answer \<Rightarrow> bytes option" where
  "native_vec_reply f ans =
    (let req_id = hdr_req_id (header f) in
     case ans of
       Inl e \<Rightarrow> Some (encode_err req_id Internal e)
     | Inr Ans_done \<Rightarrow> (if hdr_op (header f) = OpVset then ok_unless_no_reply f else Some (encode_ok req_id))
     | Inr (Ans_vector (Some v)) \<Rightarrow> Some (encode_ok_value req_id (f32_vec_to_bytes v))
     | Inr (Ans_vector None) \<Rightarrow> Some (encode_err req_id NotFound (lit ''vector not found''))
     | Inr (Ans_existed b) \<Rightarrow> Some (encode_ok_bool req_id b)
     | Inr (Ans_hits hs) \<Rightarrow> Some (encode_ok_vsearch req_id (map (\<lambda>(id, score, _). (id, score)) hs))
     | Inr (Ans_rows rows) \<Rightarrow>
         if hdr_version (header f) = VERSION_V1 \<and> list_ex (\<lambda>(_, _, kind, _, _). kind > 2) rows then
           Some (encode_err req_id InvalidRequest (lit ''native v1 cannot represent TurboQuant indexes; use RESP3 or native v2''))
         else Some (encode_ok_vindex_list req_id (map (\<lambda>(name, dim, kind, backend, n).
           \<lparr>vi_name = name, vi_dim = dim, vi_kind = kind, vi_backend = backend, vi_n_vectors = n\<rparr>) rows)))"

text \<open>
  The connection over the frames its reads yield, each with the indexes' answer if it asks them and
  whether its response can be written; a failed write ends the connection.
\<close>

fun native_run :: "externals \<Rightarrow> shard_set \<Rightarrow> (frame \<times> (bytes + vec_answer) \<times> bool) list \<Rightarrow> (bytes list \<times> shard_set) option" where
  "native_run x ss [] = Some ([], ss)"
| "native_run x ss ((f, ans, write_ok) # rest) =
    (case native_dispatch x f ss of
       None \<Rightarrow> None
     | Some (out, ss) \<Rightarrow>
         (case (case out of Native_reply r \<Rightarrow> r | _ \<Rightarrow> native_vec_reply f ans) of
            None \<Rightarrow> native_run x ss rest
          | Some r \<Rightarrow>
              if write_ok then map_option (map_prod ((#) (response_for_version r (hdr_version (header f)))) id) (native_run x ss rest)
              else Some ([], ss)))"

definition native_connection :: "externals \<Rightarrow> shard_set \<Rightarrow> bytes list \<Rightarrow> ((bytes + vec_answer) \<times> bool) list \<Rightarrow> (bytes list \<times> shard_set) option" where
  "native_connection x ss chunks env = native_run x ss (zip (fst (read_frames parser_new [] chunks)) env)"

subsection \<open>A client's exchange\<close>

text \<open>The requests of the native client and the frames its encoders produce.\<close>

datatype native_req = N_ping | N_hello | N_get bytes | N_set bytes bytes | N_del bytes | N_mget "bytes list"

fun native_encode :: "u64 \<Rightarrow> native_req \<Rightarrow> bytes" where
  "native_encode i N_ping = encode_ping i"
| "native_encode i N_hello = encode_native_hello i"
| "native_encode i (N_get k) = encode_get i k"
| "native_encode i (N_set k v) = encode_set i k v flags_empty"
| "native_encode i (N_del k) = encode_del i k"
| "native_encode i (N_mget ks) = encode_mget i ks"

fun native_req_ok :: "native_req \<Rightarrow> bool" where
  "native_req_ok (N_get k) \<longleftrightarrow> length k < 65536"
| "native_req_ok (N_set k v) \<longleftrightarrow> length k < 65536 \<and> 6 + length k + length v \<le> unat MAX_FRAME_SIZE \<and> rec_fits k v"
| "native_req_ok (N_del k) \<longleftrightarrow> length k < 65536 \<and> rec_fits k []"
| "native_req_ok (N_mget ks) \<longleftrightarrow> list_all (\<lambda>k. length k < 65536) ks \<and> 4 + length (concat (map put_key ks)) \<le> unat MAX_FRAME_SIZE"
| "native_req_ok _ \<longleftrightarrow> True"

text \<open>What a response means: the server's failure, or the answer of a map that the request may change.\<close>

definition native_refused :: "err_code \<Rightarrow> frame \<Rightarrow> bool" where
  "native_refused code f \<longleftrightarrow> hdr_op (header f) = OpErr \<and> (\<exists>rest. payload f = err_code_to_u8 code # rest)"

fun native_answers :: "native_req \<Rightarrow> (bytes \<Rightarrow> bytes option) \<Rightarrow> frame \<Rightarrow> (bytes \<Rightarrow> bytes option) \<Rightarrow> bool" where
  "native_answers N_ping m f m' \<longleftrightarrow> hdr_op (header f) = OpOk \<and> m' = m"
| "native_answers N_hello m f m' \<longleftrightarrow> hdr_op (header f) = OpOk \<and> hdr_version (header f) = VERSION_V2 \<and> m' = m \<and>
    (\<exists>c. decode_native_capabilities_response (payload f) = Some c \<and> (\<forall>kind. supports c kind))"
| "native_answers (N_get k) m f m' \<longleftrightarrow> m' = m \<and>
    (case m k of
       None \<Rightarrow> native_refused NotFound f
     | Some v \<Rightarrow> hdr_op (header f) = OpOk \<and> decode_value_response (payload f) = Some v)"
| "native_answers (N_set k v) m f m' \<longleftrightarrow> hdr_op (header f) = OpOk \<and> m' = m(k \<mapsto> v)"
| "native_answers (N_del k) m f m' \<longleftrightarrow> hdr_op (header f) = OpOk \<and> decode_bool_response (payload f) = (m k \<noteq> None) \<and> m' = m(k := None)"
| "native_answers (N_mget ks) m f m' \<longleftrightarrow> hdr_op (header f) = OpOk \<and> decode_mget_response (payload f) = map m ks \<and> m' = m"

inductive native_talk :: "(bytes \<Rightarrow> bytes option) \<Rightarrow> ((u64 \<times> native_req) \<times> frame) list \<Rightarrow> (bytes \<Rightarrow> bytes option) \<Rightarrow> bool" where
  talk_Nil: "native_talk m [] m"
| talk_ok: "hdr_req_id (header f) = i \<Longrightarrow> native_answers q m f m' \<Longrightarrow> native_talk m' h m'' \<Longrightarrow> native_talk m (((i, q), f) # h) m''"
| talk_failed: "hdr_req_id (header f) = i \<Longrightarrow> native_refused Internal f \<Longrightarrow> native_talk m h m'' \<Longrightarrow> native_talk m (((i, q), f) # h) m''"

inductive_simps native_talk_simps: "native_talk m [] m'" "native_talk m (((i, q), f) # h) m'"

text \<open>The frame of a version, op, id and payload, without flags.\<close>

definition plain_frame :: "u8 \<Rightarrow> op \<Rightarrow> u64 \<Rightarrow> bytes \<Rightarrow> frame" where
  "plain_frame v op i pl = \<lparr>header = \<lparr>hdr_version = v, hdr_op = op, hdr_flags = flags_empty, hdr_req_id = i,
     hdr_payload_len = of_nat (length pl)\<rparr>, payload = pl\<rparr>"

lemma plain_frame_sel [simp]:
  "hdr_version (header (plain_frame v op i pl)) = v" "hdr_op (header (plain_frame v op i pl)) = op"
  "hdr_flags (header (plain_frame v op i pl)) = flags_empty" "hdr_req_id (header (plain_frame v op i pl)) = i"
  "payload (plain_frame v op i pl) = pl"
  by (simp_all add: plain_frame_def)

lemma plain_frame_ok [simp]: "v = VERSION_V1 \<or> v = VERSION_V2 \<Longrightarrow> frame_ok (plain_frame v op i pl) \<longleftrightarrow> length pl \<le> unat MAX_FRAME_SIZE"
  by (auto simp: plain_frame_def frame_ok_def)

lemma encode_of_plain: "encode_of (plain_frame v op i pl) = encode_frame_versioned v op flags_empty i pl"
  by (simp add: encode_of_def)

lemma response_for_version_frame:
  "response_for_version (encode_frame op flags_empty i pl) v = encode_of (plain_frame v op i pl)"
proof -
  obtain a b where "u16_to_le MAGIC = [a, b]"
    using length_u16_to_le [of MAGIC] by (metis length_Suc_conv length_0_conv numeral_2_eq_2)
  then show ?thesis
    by (simp add: response_for_version_def encode_of_plain encode_frame_def encode_frame_versioned_def numeral_2_eq_2)
qed

lemma length_encode_plain: "length (encode_of (plain_frame v op i pl)) = HEADER_LEN + length pl"
  by (simp add: encode_of_plain encode_frame_versioned_def HEADER_LEN_def)

fun native_frame :: "u64 \<Rightarrow> native_req \<Rightarrow> frame" where
  "native_frame i N_ping = plain_frame VERSION_V1 OpPing i []"
| "native_frame i N_hello = plain_frame VERSION_V2 OpNativeHello i []"
| "native_frame i (N_get k) = plain_frame VERSION_V1 OpGet i (put_key k)"
| "native_frame i (N_set k v) = plain_frame VERSION_V1 OpSet i (u16_to_le (of_nat (length k)) @ u32_to_le (of_nat (length v)) @ k @ v)"
| "native_frame i (N_del k) = plain_frame VERSION_V1 OpDel i (put_key k)"
| "native_frame i (N_mget ks) = plain_frame VERSION_V1 OpMget i (u32_to_le (of_nat (length ks)) @ concat (map put_key ks))"

lemma encode_native_frame: "encode_of (native_frame i q) = native_encode i q"
  by (cases q) (simp_all add: encode_of_plain encode_ping_def encode_native_hello_def encode_get_def encode_set_def encode_del_def
      encode_mget_def encode_frame_def)

lemma native_frame_ok: "native_req_ok q \<Longrightarrow> frame_ok (native_frame i q)"
  by (cases q) (simp_all add: unat_MAX_FRAME_SIZE)

text \<open>One exchange: the response is a frame for the request's id, and some map explains it.\<close>

definition exchanged :: "externals \<Rightarrow> u64 \<Rightarrow> native_req \<Rightarrow> (bytes \<Rightarrow> bytes option) \<Rightarrow> native_out \<Rightarrow> shard_set \<Rightarrow> bool" where
  "exchanged x i q m out ss \<longleftrightarrow>
    (\<exists>op pl m'. out = Native_reply (Some (encode_frame op flags_empty i pl)) \<and> shards_ok (x_crc x) (x_xxh3 x) ss m' \<and>
      (let f = plain_frame (hdr_version (header (native_frame i q))) op i pl in
       length pl \<le> unat MAX_FRAME_SIZE \<longrightarrow> native_answers q m f m' \<or> native_refused Internal f \<and> m' = m))"

lemma exchangedI:
  assumes "out = Native_reply (Some (encode_frame op flags_empty i pl))" and "shards_ok (x_crc x) (x_xxh3 x) ss m'"
    and "length pl \<le> unat MAX_FRAME_SIZE \<Longrightarrow> native_answers q m (plain_frame (hdr_version (header (native_frame i q))) op i pl) m'"
  shows "exchanged x i q m out ss"
  using assms by (auto simp: exchanged_def Let_def)

lemma exchanged_failed:
  assumes "shards_ok (x_crc x) (x_xxh3 x) ss m"
  shows "exchanged x i q m (Native_reply (Some (shard_err_to_response i e))) ss"
  using assms by (auto simp: exchanged_def Let_def shard_err_to_response_def encode_err_def native_refused_def)

lemma native_answerE:
  assumes "native_answer i f res = Some (out, s1)"
  obtains a where "res = Some (Inr a, s1)" "out = Native_reply (f a)"
  | e where "res = Some (Inl e, s1)" "out = Native_reply (Some (shard_err_to_response i e))"
  using assms by (auto simp: native_answer_def split: option.splits sum.splits)

lemmas native_dispatch_simps = native_dispatch_def native_vector_def bad_payload_def Let_def

lemma dispatch_get:
  assumes ok: "shards_ok (x_crc x) (x_xxh3 x) ss m" and k: "length k < 65536"
    and d: "native_dispatch x (native_frame i (N_get k)) ss = Some (out, s1)"
  shows "ss_step 0 ss s1 \<and> exchanged x i (N_get k) m out s1"
proof -
  have "native_answer i (\<lambda>v. Some (case v of Some val \<Rightarrow> encode_ok_value i val | None \<Rightarrow> encode_err i NotFound (lit ''key not found'')))
      (shards_get (x_crc x) (x_xxh3 x) ss k 0) = Some (out, s1)"
    using d decode_key_put [OF k, of "[]"] by (simp add: native_dispatch_simps)
  then show ?thesis
  proof (cases rule: native_answerE)
    case (1 v)
    from shards_get_ok [OF ok 1(1)] have "ss_step 0 ss s1" "shards_ok (x_crc x) (x_xxh3 x) s1 m" "v = m k"
      by auto
    then show ?thesis
    proof (cases "m k")
      case None
      then show ?thesis
        using 1(2) \<open>ss_step 0 ss s1\<close> \<open>shards_ok _ _ s1 m\<close> \<open>v = m k\<close>
        by (auto simp: encode_err_def native_refused_def intro!: exchangedI)
    next
      case (Some val)
      then show ?thesis
        using 1(2) \<open>ss_step 0 ss s1\<close> \<open>shards_ok _ _ s1 m\<close> \<open>v = m k\<close>
        by (auto simp: encode_ok_value_def unat_MAX_FRAME_SIZE decode_value_response_put intro!: exchangedI)
    qed
  next
    case (2 e)
    then show ?thesis
      using shards_get_ok [OF ok 2(1)] exchanged_failed by blast
  qed
qed

lemma dispatch_set:
  assumes ok: "shards_ok (x_crc x) (x_xxh3 x) ss m" and crc: "crc_zero_ok (x_crc x)" and q: "native_req_ok (N_set k v)"
    and room: "shards_room 1 ss" and d: "native_dispatch x (native_frame i (N_set k v)) ss = Some (out, s1)"
  shows "ss_step 1 ss s1 \<and> exchanged x i (N_set k v) m out s1"
proof -
  let ?f = "native_frame i (N_set k v)"
  have "native_answer i (\<lambda>_. ok_unless_no_reply ?f) (shards_set (x_crc x) (x_xxh3 x) ss k v Kernel 0 None) = Some (out, s1)"
    using d decode_set_put [of k v] q by (simp add: native_dispatch_simps unat_MAX_FRAME_SIZE)
  moreover have r: "ok_unless_no_reply ?f = Some (encode_ok i)"
    by (simp add: ok_unless_no_reply_def flags_contains_def flags_empty_def NO_REPLY_def)
  ultimately show ?thesis
  proof (cases rule: native_answerE)
    case (1 a)
    then show ?thesis
      using shards_set_ok [OF ok crc _ room 1(1)] q r by (auto simp: encode_ok_def intro!: exchangedI [where m' = "m(k \<mapsto> v)"])
  next
    case (2 e)
    then show ?thesis
      using shards_set_ok [OF ok crc _ room 2(1)] q exchanged_failed by auto
  qed
qed

lemma dispatch_del:
  assumes ok: "shards_ok (x_crc x) (x_xxh3 x) ss m" and crc: "crc_zero_ok (x_crc x)" and q: "native_req_ok (N_del k)"
    and room: "shards_room 1 ss" and d: "native_dispatch x (native_frame i (N_del k)) ss = Some (out, s1)"
  shows "ss_step 1 ss s1 \<and> exchanged x i (N_del k) m out s1"
proof -
  have "native_answer i (\<lambda>b. Some (encode_ok_bool i b)) (shards_del (x_crc x) (x_xxh3 x) ss k Kernel) = Some (out, s1)"
    using d decode_key_put [of k "[]"] q by (simp add: native_dispatch_simps)
  then show ?thesis
  proof (cases rule: native_answerE)
    case (1 b)
    from shards_del_ok [OF ok crc _ room 1(1)] q
    have "ss_step 1 ss s1" "b = (m k \<noteq> None)" "shards_ok (x_crc x) (x_xxh3 x) s1 (m(k := None))"
      by simp_all
    then show ?thesis
      using 1(2) exchangedI [of out OpOk i "[if b then 1 else 0]" x s1 "m(k := None)" "N_del k" m]
      by (simp add: encode_ok_bool_def decode_bool_response_def split: if_splits)
  next
    case (2 e)
    then show ?thesis
      using shards_del_ok [OF ok crc _ room 2(1)] q exchanged_failed by auto
  qed
qed

lemma length_mget_results: "length rs \<le> length (concat (map put_mget_result rs))"
  by (induction rs) (auto simp: put_mget_result_def split: option.splits)

lemma mget_results_bound:
  "length (concat (map put_mget_result rs)) < 2 ^ 32 \<Longrightarrow> list_all (\<lambda>r. case r of None \<Rightarrow> True | Some v \<Rightarrow> length v < 2 ^ 32) rs"
  by (induction rs) (auto simp: put_mget_result_def split: option.splits)

lemma dispatch_mget:
  assumes ok: "shards_ok (x_crc x) (x_xxh3 x) ss m" and q: "native_req_ok (N_mget ks)"
    and d: "native_dispatch x (native_frame i (N_mget ks)) ss = Some (out, s1)"
  shows "ss_step 0 ss s1 \<and> exchanged x i (N_mget ks) m out s1"
proof -
  have "length ks < 2 ^ 32"
    using q length_concat_put_key [of ks] by (simp add: unat_MAX_FRAME_SIZE)
  then have "native_answer i (\<lambda>vs. Some (encode_ok_mget i vs)) (shards_mget (x_crc x) (x_xxh3 x) ss ks 0) = Some (out, s1)"
    using d decode_mget_put [of ks] q by (simp add: native_dispatch_simps)
  then show ?thesis
  proof (cases rule: native_answerE)
    case (1 vs)
    from shards_mget_ok [OF ok 1(1)] have s: "ss_step 0 ss s1" "shards_ok (x_crc x) (x_xxh3 x) s1 m" "vs = map m ks"
      by auto
    let ?pl = "u32_to_le (of_nat (length vs)) @ concat (map put_mget_result vs)"
    have "decode_mget_response ?pl = vs" if "length ?pl \<le> unat MAX_FRAME_SIZE"
      using that length_mget_results [of vs] by (intro decode_mget_response_put mget_results_bound) (simp_all add: unat_MAX_FRAME_SIZE)
    then show ?thesis
      using s 1(2) by (auto simp: encode_ok_mget_def intro!: exchangedI)
  next
    case (2 e)
    then show ?thesis
      using shards_mget_ok [OF ok 2(1)] exchanged_failed by blast
  qed
qed

lemma dispatch_plain:
  assumes ok: "shards_ok (x_crc x) (x_xxh3 x) ss m" and q: "q = N_ping \<or> q = N_hello"
    and d: "native_dispatch x (native_frame i q) ss = Some (out, s1)"
  shows "ss_step 0 ss s1 \<and> exchanged x i q m out s1"
proof -
  have "supports \<lparr>protocol_version = VERSION_V2, vector_kind_mask = 0x3F\<rparr> kind" for kind
    by (cases kind) (simp_all add: supports_def)
  then show ?thesis
    using q d ok
    by (auto simp: native_dispatch_simps native_hello_def encode_ok_def encode_ok_native_capabilities_def
        decode_native_capabilities_response_def intro!: exchangedI)
qed

lemma dispatch_exchanged:
  assumes ok: "shards_ok (x_crc x) (x_xxh3 x) ss m" and crc: "crc_zero_ok (x_crc x)" and q: "native_req_ok q" and room: "shards_room 1 ss"
    and d: "native_dispatch x (native_frame i q) ss = Some (out, s1)"
  shows "ss_step 1 ss s1 \<and> exchanged x i q m out s1"
proof (cases q)
  case (N_get k)
  then show ?thesis
    using dispatch_get [OF ok] q d ss_step_mono [of 0 ss s1 1] by (metis le0 native_req_ok.simps(1))
next
  case (N_set k v)
  then show ?thesis
    using dispatch_set [OF ok crc _ room] q d by blast
next
  case (N_del k)
  then show ?thesis
    using dispatch_del [OF ok crc _ room] q d by blast
next
  case (N_mget ks)
  then show ?thesis
    using dispatch_mget [OF ok] q d ss_step_mono [of 0 ss s1 1] by (metis le0)
qed (use dispatch_plain [OF ok _ d] ss_step_mono [of 0 ss s1 1] in auto)

lemma native_run_talk:
  assumes "shards_ok (x_crc x) (x_xxh3 x) ss m" and "crc_zero_ok (x_crc x)" and "list_all (\<lambda>(i, q). native_req_ok q) reqs"
    and "shards_room (length reqs) ss"
    and "native_run x ss (zip (map (\<lambda>(i, q). native_frame i q) reqs) (replicate (length reqs) (ans, True))) = Some (resps, ss')"
    and "\<forall>r\<in>set resps. length r \<le> HEADER_LEN + unat MAX_FRAME_SIZE"
  shows "\<exists>fs m'. resps = map encode_of fs \<and> list_all frame_ok fs \<and> length fs = length reqs \<and>
    shards_ok (x_crc x) (x_xxh3 x) ss' m' \<and> native_talk m (zip reqs fs) m'"
  using assms
proof (induction reqs arbitrary: ss m resps)
  case Nil
  then show ?case
    by (auto simp: native_talk_simps)
next
  case (Cons h reqs)
  obtain i q where h: "h = (i, q)"
    by force
  let ?v = "hdr_version (header (native_frame i q))"
  have v: "?v = VERSION_V1 \<or> ?v = VERSION_V2"
    by (cases q) simp_all
  obtain out s1 where d: "native_dispatch x (native_frame i q) ss = Some (out, s1)"
    using Cons.prems(5) by (auto simp: h split: option.splits)
  have "shards_room 1 ss" "native_req_ok q"
    using Cons.prems(3,4) shards_room_mono by (auto simp: h)
  from dispatch_exchanged [OF Cons.prems(1,2) this(2,1) d]
  obtain op pl m1 where st: "ss_step 1 ss s1" and out: "out = Native_reply (Some (encode_frame op flags_empty i pl))"
    and m1: "shards_ok (x_crc x) (x_xxh3 x) s1 m1" "length pl \<le> unat MAX_FRAME_SIZE \<Longrightarrow>
      native_answers q m (plain_frame ?v op i pl) m1 \<or> native_refused Internal (plain_frame ?v op i pl) \<and> m1 = m"
    by (auto simp: exchanged_def Let_def)
  obtain rs where rs: "native_run x s1 (zip (map (\<lambda>(i, q). native_frame i q) reqs) (replicate (length reqs) (ans, True))) = Some (rs, ss')"
    "resps = encode_of (plain_frame ?v op i pl) # rs"
    using Cons.prems(5) by (auto simp: h d out response_for_version_frame)
  have pl: "length pl \<le> unat MAX_FRAME_SIZE"
    using Cons.prems(6) by (simp add: rs length_encode_plain)
  have "shards_room (length reqs) s1"
    using ss_step_room [OF st, of "length reqs"] Cons.prems(4) by simp
  from Cons.IH [OF m1(1) Cons.prems(2) _ this rs(1)] Cons.prems(3,6)
  obtain fs m' where fs: "rs = map encode_of fs" "list_all frame_ok fs" "length fs = length reqs"
    "shards_ok (x_crc x) (x_xxh3 x) ss' m'" "native_talk m1 (zip reqs fs) m'"
    by (auto simp: rs)
  have "native_talk m (zip (h # reqs) (plain_frame ?v op i pl # fs)) m'"
    using m1(2) [OF pl] fs(5) by (auto simp: h intro: talk_ok talk_failed)
  then show ?case
    using fs pl v by (intro exI [of _ "plain_frame ?v op i pl # fs"] exI [of _ m']) (auto simp: rs)
qed

lemma read_encoded:
  "list_all frame_ok fs \<Longrightarrow> concat chunks = concat (map encode_of fs) \<Longrightarrow> [] \<notin> set chunks \<Longrightarrow> read_frames parser_new [] chunks = (fs, None)"
  by (simp add: read_frames_drain drain_encode_of)

text \<open>
  C3: A native client's session is a session with a map. A client sends any requests, encoded with its
  own encoders and cut into reads anywhere, to shards that hold a map. If every response is within the
  frame size, then however its bytes are cut the client's parser yields one frame per request, in
  order, with the request's id, and what the client decodes from them is what the map
  answers, each SET and DEL applied in turn; a request the server reports as failed changed nothing.
  The shards hold the resulting map.
\<close>

theorem native_session:
  assumes "crc_zero_ok (x_crc x)" and "shards_ok (x_crc x) (x_xxh3 x) ss m" and "shards_room (length reqs) ss"
    and "list_all (\<lambda>(i, q). native_req_ok q) reqs"
    and "concat chunks = concat (map (\<lambda>(i, q). native_encode i q) reqs)" and "[] \<notin> set chunks"
    and "native_connection x ss chunks (replicate (length reqs) (ans, True)) = Some (resps, ss')"
    and "\<forall>r\<in>set resps. length r \<le> HEADER_LEN + unat MAX_FRAME_SIZE"
    and "concat chunks' = concat resps" and "[] \<notin> set chunks'"
  shows "\<exists>fs m'. read_frames parser_new [] chunks' = (fs, None) \<and> length fs = length reqs \<and>
    native_talk m (zip reqs fs) m' \<and> shards_ok (x_crc x) (x_xxh3 x) ss' m'"
proof -
  have "read_frames parser_new [] chunks = (map (\<lambda>(i, q). native_frame i q) reqs, None)"
    using assms(4-6) by (intro read_encoded)
      (auto simp: list_all_iff native_frame_ok encode_native_frame comp_def case_prod_unfold)
  then have "native_run x ss (zip (map (\<lambda>(i, q). native_frame i q) reqs) (replicate (length reqs) (ans, True))) = Some (resps, ss')"
    using assms(7) by (simp add: native_connection_def)
  from native_run_talk [OF assms(2,1,4,3) this assms(8)]
  obtain fs m' where "resps = map encode_of fs" "list_all frame_ok fs" "length fs = length reqs"
    "shards_ok (x_crc x) (x_xxh3 x) ss' m'" "native_talk m (zip reqs fs) m'"
    by blast
  then show ?thesis
    using read_encoded [of fs chunks'] assms(9,10) by auto
qed

definition demo_native :: "(u64 \<times> native_req) list" where
  "demo_native = [(1, N_hello), (2, N_set [1] [9, 8]), (3, N_mget [[1], [2]]), (4, N_del [1]), (5, N_get [1])]"

definition demo_request_bytes :: bytes where
  "demo_request_bytes = concat (map (\<lambda>(i, q). native_encode i q) demo_native)"

definition demo_responses :: "bytes list" where
  "demo_responses = map (\<lambda>(v, op, i, pl). encode_frame_versioned v op flags_empty i pl)
    [(2, OpOk, 1, [2, 63]), (1, OpOk, 2, []), (1, OpOk, 3, [2, 0, 0, 0, 0, 2, 0, 0, 0, 9, 8, 1]), (1, OpOk, 4, [1]),
     (1, OpErr, 5, [1, 13] @ lit ''key not found'')]"

lemma demo_shards_room: "shards_room 5 demo_shards"
proof -
  have c: "crc_zero_ok (\<lambda>_. 5)"
    by (simp add: crc_zero_ok_def)
  obtain s where "shards_open (\<lambda>_. 5) (\<lambda>_. 7) 256 (replicate 2 empty_dir) False = Inr s" "shards_room 5 s"
    by (rule shards_open_empty [OF c, of 256 2 "\<lambda>_. 7" False]) auto
  then show ?thesis
    using demo_shards_open by simp
qed

lemma demo_connection:
  "map_option fst (native_connection demo_x demo_shards [take 30 demo_request_bytes, drop 30 demo_request_bytes] (replicate 5 (Inl [], True)))
    = Some demo_responses"
  by code_simp

theorem native_session_witness:
  "\<exists>fs m'. read_frames parser_new [] demo_responses = (fs, None) \<and> length fs = 5 \<and> native_talk Map.empty (zip demo_native fs) m'"
proof -
  have n: "length demo_native = 5"
    by (simp add: demo_native_def)
  obtain s where s: "native_connection demo_x demo_shards [take 30 demo_request_bytes, drop 30 demo_request_bytes]
      (replicate (length demo_native) (Inl [], True)) = Some (demo_responses, s)"
    using demo_connection unfolding n by auto
  have c: "concat [take 30 demo_request_bytes, drop 30 demo_request_bytes] = concat (map (\<lambda>(i, q). native_encode i q) demo_native)"
    by (simp add: demo_request_bytes_def)
  have "crc_zero_ok (x_crc demo_x)" "shards_room (length demo_native) demo_shards"
    using demo_shards_room by (simp_all add: demo_x_def crc_zero_ok_def n)
  moreover have "list_all (\<lambda>(i, q). native_req_ok q) demo_native"
    by code_simp
  moreover have "[] \<notin> set [take 30 demo_request_bytes, drop 30 demo_request_bytes]"
    by code_simp
  moreover have "[] \<notin> set demo_responses" "\<forall>r\<in>set demo_responses. length r \<le> HEADER_LEN + unat MAX_FRAME_SIZE"
    by code_simp+
  ultimately show ?thesis
    using native_session [OF _ conjunct1 [OF demo_shards_ok] _ _ c _ s _ refl] n by metis
qed

end
